(* ===== verification/C_Prelude.thy ===== *)
theory C_Prelude
  imports Main "HOL-Library.Word" "HOL-Library.Multiset" "HOL-Library.Sublist"
begin

text \<open>
  What the components share: names for the C types and the error numbers, byte buffers with
  the block operations of \<^verbatim>\<open>string.h\<close>, NUL-terminated strings, decimal printing, little-endian
  integers, and an explicit outcome for an access outside a buffer. The lemmas here are the
  ones the component proofs use by \<open>simp\<close>.
\<close>

section \<open>Types, error numbers and run-time errors\<close>

type_synonym byte = char
type_synonym size_t = "64 word"
type_synonym c_int = "32 word"

abbreviation (input) EINTR :: int where "EINTR \<equiv> 4"
abbreviation (input) ENOENT :: int where "ENOENT \<equiv> 2"
abbreviation (input) EAGAIN :: int where "EAGAIN \<equiv> 11"
abbreviation (input) ENOMEM :: int where "ENOMEM \<equiv> 12"
abbreviation (input) EFAULT :: int where "EFAULT \<equiv> 14"
abbreviation (input) EEXIST :: int where "EEXIST \<equiv> 17"
abbreviation (input) ENOTTY :: int where "ENOTTY \<equiv> 25"
abbreviation (input) ENOSPC :: int where "ENOSPC \<equiv> 28"
abbreviation (input) ESPIPE :: int where "ESPIPE \<equiv> 29"
abbreviation (input) EINPROGRESS :: int where "EINPROGRESS \<equiv> 115"

text \<open>What C leaves undefined is an error value of the model.\<close>

datatype c_error = Null_Deref | Out_Of_Bounds | Use_After_Free | Double_Free | Uninit_Read

named_theorems c_defs \<open>definitions that component proofs unfold\<close>
named_theorems flow_simps \<open>how an operation changes the bytes or items a component stores\<close>

abbreviation NUL :: byte where "NUL \<equiv> CHR 0x00"

section \<open>Byte buffers\<close>

text \<open>\<^verbatim>\<open>memcpy(xs + i, ys, length ys)\<close> on a buffer that is long enough.\<close>

definition put_at :: "'a list \<Rightarrow> nat \<Rightarrow> 'a list \<Rightarrow> 'a list" where
  "put_at xs i ys = take i xs @ ys @ drop (i + length ys) xs"

text \<open>\<^verbatim>\<open>memmove(xs, xs + n, len)\<close>: the source block is read before it is stored.\<close>

definition memmove_down :: "'a list \<Rightarrow> nat \<Rightarrow> nat \<Rightarrow> 'a list" where
  "memmove_down xs n len = put_at xs 0 (take len (drop n xs))"

text \<open>An assignment \<^verbatim>\<open>xs[i] = v\<close> whose index is a signed integer.\<close>

definition store_at :: "'a list \<Rightarrow> int \<Rightarrow> 'a \<Rightarrow> c_error + 'a list" where
  "store_at xs i v =
     (if 0 \<le> i \<and> nat i < length xs then Inr (xs[nat i := v]) else Inl Out_Of_Bounds)"

section \<open>C strings\<close>

text \<open>The string a NUL-terminated buffer holds, and the bytes \<^verbatim>\<open>snprintf(buf, n, ..)\<close> stores.\<close>

text \<open>Characters outside ASCII that the programs print, as bytes: a dash, an ellipsis, a check mark, and the line of 42 double bars of the banners.\<close>

definition em_dash :: string where
  "em_dash = [CHR 0xE2, CHR 0x80, CHR 0x94]"

definition ellipsis :: string where
  "ellipsis = [CHR 0xE2, CHR 0x80, CHR 0xA6]"

definition check_mark :: string where
  "check_mark = [CHR 0xE2, CHR 0x9C, CHR 0x93]"

definition double_rule :: string where
  "double_rule = concat (replicate 42 [CHR 0xE2, CHR 0x95, CHR 0x90])"

definition banner_lines :: "string \<Rightarrow> string list" where
  "banner_lines title = [double_rule, ''  '' @ title, double_rule]"

text \<open>The text of a \<^verbatim>\<open>%s\<close> between double quotes.\<close>

definition quoted :: "string \<Rightarrow> string" where
  "quoted s = CHR 0x22 # s @ [CHR 0x22]"

definition cstr :: "byte list \<Rightarrow> string" where
  "cstr bs = takeWhile (\<lambda>c. c \<noteq> NUL) bs"

definition snprintf_bytes :: "nat \<Rightarrow> string \<Rightarrow> byte list" where
  "snprintf_bytes n s = (if n = 0 then [] else take (n - 1) s @ [NUL])"

text \<open>\<^verbatim>\<open>%d\<close> of a natural number and of an integer.\<close>

fun dec_nat :: "nat \<Rightarrow> string" where
  "dec_nat n =
     (if n < 10 then [char_of (48 + n)] else dec_nat (n div 10) @ [char_of (48 + n mod 10)])"

declare dec_nat.simps [simp del]

text \<open>The format \<^verbatim>\<open>%09ld\<close>.\<close>

definition pad9 :: "nat \<Rightarrow> string" where
  "pad9 n = replicate (9 - length (dec_nat n)) CHR ''0'' @ dec_nat n"

definition dec_int :: "int \<Rightarrow> string" where
  "dec_int i = (if i < 0 then ''-'' @ dec_nat (nat (- i)) else dec_nat (nat i))"

section \<open>Four-byte integers in memory\<close>

definition int_bytes :: "c_int \<Rightarrow> byte list" where
  "int_bytes w = map (\<lambda>i. char_of (unat w div 256 ^ i)) [0..<4]"

definition bytes_int :: "byte list \<Rightarrow> c_int" where
  "bytes_int bs = of_nat (foldr (\<lambda>b acc. of_char b + 256 * acc) bs 0)"

section \<open>Lemmas\<close>

lemma put_at_length [simp]: "i + length ys \<le> length xs \<Longrightarrow> length (put_at xs i ys) = length xs"
  by (simp add: put_at_def)

lemma take_put_at_end [simp]: "i \<le> length xs \<Longrightarrow> take (i + length ys) (put_at xs i ys) = take i xs @ ys"
  by (simp add: put_at_def)

lemma take_put_at_before [simp]: "j \<le> i \<Longrightarrow> i \<le> length xs \<Longrightarrow> take j (put_at xs i ys) = take j xs"
  by (simp add: put_at_def)

lemma memmove_down_length [simp]: "len \<le> length xs \<Longrightarrow> length (memmove_down xs n len) = length xs"
  by (auto simp: memmove_down_def put_at_def)

lemma take_memmove_down [simp]:
  "n + len \<le> length xs \<Longrightarrow> take len (memmove_down xs n len) = take len (drop n xs)"
  by (simp add: memmove_down_def put_at_def)

lemma take_min_length [simp]: "take (min n (length xs)) xs = take n xs"
  by (simp add: min_def)

lemma store_at_Inr: "store_at xs i v = Inr ys \<longleftrightarrow> 0 \<le> i \<and> nat i < length xs \<and> ys = xs[nat i := v]"
  by (auto simp: store_at_def)

lemma store_at_Inl: "store_at xs i v = Inl e \<longleftrightarrow> (i < 0 \<or> length xs \<le> nat i) \<and> e = Out_Of_Bounds"
  by (auto simp: store_at_def)

lemma cstr_no_NUL [simp]: "NUL \<notin> set s \<Longrightarrow> cstr (s @ NUL # t) = s"
  by (auto simp: cstr_def takeWhile_append)

lemma NUL_notin_cstr [simp]: "NUL \<notin> set (cstr bs)"
  by (auto simp: cstr_def dest: set_takeWhileD)

lemma cstr_length: "length (cstr bs) \<le> length bs"
  by (simp add: cstr_def length_takeWhile_le)

lemma cstr_id: "NUL \<notin> set s \<Longrightarrow> cstr s = s"
  by (auto simp: cstr_def takeWhile_eq_all_conv)

lemma cstr_snprintf: "0 < n \<Longrightarrow> NUL \<notin> set s \<Longrightarrow> cstr (snprintf_bytes n s) = take (n - 1) s"
proof -
  assume "0 < n" and "NUL \<notin> set s"
  then have "NUL \<notin> set (take (n - 1) s)" by (meson in_set_takeD)
  then have "cstr (take (n - 1) s @ NUL # []) = take (n - 1) s" by (rule cstr_no_NUL)
  with \<open>0 < n\<close> show ?thesis by (simp add: snprintf_bytes_def)
qed

lemma snprintf_bytes_length: "length (snprintf_bytes n s) \<le> n"
  by (auto simp: snprintf_bytes_def)

lemma dec_nat_no_NUL [simp]: "NUL \<notin> set (dec_nat n)"
proof (induction n rule: dec_nat.induct)
  case (1 n)
  have digit: "char_of (48 + d) \<noteq> NUL" if "d < 10" for d :: nat
  proof
    assume "char_of (48 + d) = NUL"
    then have "of_char (char_of (48 + d) :: char) = (of_char NUL :: nat)" by simp
    with that show False by simp
  qed
  show ?case
    using 1 digit [of n] digit [of "n mod 10"] by (auto simp: dec_nat.simps [of n])
qed

lemma dec_int_no_NUL [simp]: "NUL \<notin> set (dec_int i)"
  by (simp add: dec_int_def)

lemma dec_nat_length: "n < 10 ^ Suc k \<Longrightarrow> length (dec_nat n) \<le> Suc k"
proof (induction k arbitrary: n)
  case (Suc k)
  have "length (dec_nat (n div 10)) \<le> Suc k" using Suc by simp
  then show ?case by (simp add: dec_nat.simps [of n])
qed (simp add: dec_nat.simps)

lemma dec_int_length: "0 \<le> i \<Longrightarrow> i < 10 ^ 10 \<Longrightarrow> length (dec_int i) \<le> 10"
  using dec_nat_length [of "nat i" 9] by (simp add: dec_int_def)

lemma int_bytes_length [simp]: "length (int_bytes w) = 4"
  by (simp add: int_bytes_def)

lemma nat_of_digits: "n mod 256 + 256 * (n div 256) = (n :: nat)"
  by simp

lemma bytes_int_int_bytes [simp]: "bytes_int (int_bytes w) = w"
proof -
  let ?n = "unat w"
  have "?n < 2 ^ 32" using unsigned_less [of w, where 'a = nat] by simp
  then have top: "?n div 16777216 mod 256 = ?n div 16777216" by simp
  have q2: "?n div 65536 mod 256 + 256 * (?n div 16777216) = ?n div 65536"
    using nat_of_digits [of "?n div 65536"] by (simp add: div_mult2_eq [symmetric])
  have q1: "?n div 256 mod 256 + 256 * (?n div 65536) = ?n div 256"
    using nat_of_digits [of "?n div 256"] by (simp add: div_mult2_eq [symmetric])
  have bytes: "int_bytes w = [char_of ?n, char_of (?n div 256), char_of (?n div 65536), char_of (?n div 16777216)]"
    by (simp add: int_bytes_def upt_conv_Cons)
  have "foldr (\<lambda>b acc. of_char b + 256 * acc) (int_bytes w) 0 = ?n"
    by (simp only: bytes foldr.simps o_apply id_apply of_char_of top q2 q1 nat_of_digits mult_0_right add_0_right)
  then show ?thesis by (simp add: bytes_int_def)
qed

end
