(* ===== verification/Contracts.thy ===== *)
theory Contracts
  imports C_Prelude
begin

text \<open>
  The interfaces the components of the repository have in common, as locales, each with what
  follows from the contract alone. The theories of the components interpret them on the
  definitions that model the code.
  \<^item> \<open>item_stream\<close>: a store of items that delivers what it accepted, in order (the driver's
    buffer, the two queues of the thread demo).
  \<^item> \<open>op_refinement\<close>: operations that answer like those of an abstract machine (the allocation
    tracker against a list of live allocations).
  \<^item> \<open>module_lifecycle\<close>: a kernel module whose init either acquires everything or undoes what
    it had acquired, and whose exit releases everything.
  \<^item> \<open>inv_system\<close>: a transition system with an invariant; \<open>bounded_system\<close> adds a measure and
    progress, which together give termination (interleaved threads and processes).
\<close>

section \<open>Sequences of operations\<close>

text \<open>The state after a list of operations, and what the operations yield on the way.\<close>

primrec run_ops :: "('s \<Rightarrow> 'op \<Rightarrow> 's) \<Rightarrow> 's \<Rightarrow> 'op list \<Rightarrow> 's" where
  "run_ops step s [] = s"
| "run_ops step s (x # xs) = run_ops step (step s x) xs"

primrec collect_ops :: "('s \<Rightarrow> 'op \<Rightarrow> 's) \<Rightarrow> ('s \<Rightarrow> 'op \<Rightarrow> 'a list) \<Rightarrow> 's \<Rightarrow> 'op list \<Rightarrow> 'a list" where
  "collect_ops step f s [] = []"
| "collect_ops step f s (x # xs) = f s x @ collect_ops step f (step s x) xs"

section \<open>Stores that deliver in order\<close>

locale item_stream =
  fixes step :: "'s \<Rightarrow> 'op \<Rightarrow> 's"
    and inv :: "'s \<Rightarrow> bool"
    and abs :: "'s \<Rightarrow> 'a list"
    and accepted :: "'s \<Rightarrow> 'op \<Rightarrow> 'a list"
    and delivered :: "'s \<Rightarrow> 'op \<Rightarrow> 'a list"
    and ok :: "'op \<Rightarrow> bool"
  assumes inv_step: "inv s \<Longrightarrow> ok op \<Longrightarrow> inv (step s op)"
    and flow_step: "inv s \<Longrightarrow> ok op \<Longrightarrow> delivered s op @ abs (step s op) = abs s @ accepted s op"
begin

lemma inv_run: "inv s \<Longrightarrow> list_all ok xs \<Longrightarrow> inv (run_ops step s xs)"
  by (induction xs arbitrary: s) (auto intro: inv_step)

lemma flow_run:
  "inv s \<Longrightarrow> list_all ok xs \<Longrightarrow>
     collect_ops step delivered s xs @ abs (run_ops step s xs) = abs s @ collect_ops step accepted s xs"
proof (induction xs arbitrary: s)
  case Nil
  then show ?case by simp
next
  case (Cons x xs)
  then have "collect_ops step delivered (step s x) xs @ abs (run_ops step (step s x) xs)
      = abs (step s x) @ collect_ops step accepted (step s x) xs" by (auto intro: inv_step)
  moreover have "delivered s x @ abs (step s x) = abs s @ accepted s x"
    using Cons.prems by (auto intro: flow_step)
  ultimately show ?case by (metis append.assoc collect_ops.simps(2) run_ops.simps(2))
qed

lemma delivered_prefix:
  assumes "inv s" and "list_all ok xs" and "abs s = []"
  shows "prefix (collect_ops step delivered s xs) (collect_ops step accepted s xs)"
  using flow_run [OF assms(1,2)] assms(3) by (metis append_Nil prefixI)

end

section \<open>Implementations of an abstract machine\<close>

text \<open>The outputs of a list of operations, and the operations a state allows one after the other.\<close>

primrec outputs :: "('s \<Rightarrow> 'op \<Rightarrow> 'o \<times> 's) \<Rightarrow> 's \<Rightarrow> 'op list \<Rightarrow> 'o list \<times> 's" where
  "outputs step s [] = ([], s)"
| "outputs step s (x # xs) =
     (case step s x of (r, t) \<Rightarrow> case outputs step t xs of (rs, u) \<Rightarrow> (r # rs, u))"

primrec allowed :: "('s \<Rightarrow> 'op \<Rightarrow> 'o \<times> 's) \<Rightarrow> ('s \<Rightarrow> 'op \<Rightarrow> bool) \<Rightarrow> 's \<Rightarrow> 'op list \<Rightarrow> bool" where
  "allowed step ok s [] = True"
| "allowed step ok s (x # xs) = (ok s x \<and> allowed step ok (snd (step s x)) xs)"

locale op_refinement =
  fixes step :: "'s \<Rightarrow> 'op \<Rightarrow> 'o \<times> 's"
    and astep :: "'a \<Rightarrow> 'op \<Rightarrow> 'o \<times> 'a"
    and rel :: "'s \<Rightarrow> 'a \<Rightarrow> bool"
    and ok :: "'s \<Rightarrow> 'op \<Rightarrow> bool"
  assumes simulate: "rel s a \<Longrightarrow> ok s op \<Longrightarrow>
      fst (step s op) = fst (astep a op) \<and> rel (snd (step s op)) (snd (astep a op))"
begin

lemma simulate_run:
  "rel s a \<Longrightarrow> allowed step ok s ops \<Longrightarrow>
     fst (outputs step s ops) = fst (outputs astep a ops) \<and> rel (snd (outputs step s ops)) (snd (outputs astep a ops))"
proof (induction ops arbitrary: s a)
  case Nil
  then show ?case by simp
next
  case (Cons x xs)
  then have "fst (step s x) = fst (astep a x) \<and> rel (snd (step s x)) (snd (astep a x))" by (intro simulate) auto
  with Cons.IH [of "snd (step s x)" "snd (astep a x)"] Cons.prems show ?case
    by (auto simp: case_prod_beta)
qed

end

section \<open>Kernel modules\<close>

text \<open>
  A module acquires and releases resources of the kernel. What it holds after a sequence of these
  events, \<open>None\<close> when it released something it did not hold.
\<close>

datatype 'r res_event = Acquire 'r | Release 'r

fun held_after :: "'r multiset \<Rightarrow> 'r res_event list \<Rightarrow> 'r multiset option" where
  "held_after h [] = Some h"
| "held_after h (Acquire r # es) = held_after (add_mset r h) es"
| "held_after h (Release r # es) = (if r \<in># h then held_after (h - {#r#}) es else None)"

lemma held_after_append:
  "held_after h (es @ fs) = (case held_after h es of None \<Rightarrow> None | Some h' \<Rightarrow> held_after h' fs)"
  by (induction h es rule: held_after.induct) auto

text \<open>
  \<open>init\<close> takes the outcomes of the kernel calls it makes and yields its return value; \<open>events\<close> is
  what the module has acquired and released so far.
\<close>

locale module_lifecycle =
  fixes init :: "'e \<Rightarrow> 's \<Rightarrow> int \<times> 's"
    and exit :: "'s \<Rightarrow> 's"
    and events :: "'s \<Rightarrow> 'r res_event list"
    and wf :: "'e \<Rightarrow> bool"
    and resources :: "'r multiset"
  assumes init_fail: "wf e \<Longrightarrow> held_after {#} (events s) = Some {#} \<Longrightarrow> fst (init e s) \<noteq> 0 \<Longrightarrow>
      held_after {#} (events (snd (init e s))) = Some {#}"
    and init_ok: "wf e \<Longrightarrow> held_after {#} (events s) = Some {#} \<Longrightarrow> fst (init e s) = 0 \<Longrightarrow>
      held_after {#} (events (snd (init e s))) = Some resources"
    and exit_all: "held_after {#} (events s) = Some resources \<Longrightarrow> held_after {#} (events (exit s)) = Some {#}"
begin

lemma cycle_releases:
  "wf e \<Longrightarrow> held_after {#} (events s) = Some {#} \<Longrightarrow>
     held_after {#} (events (let (r, t) = init e s in if r = 0 then exit t else t)) = Some {#}"
  using init_fail [of e s] init_ok [of e s] exit_all [of "snd (init e s)"]
  by (auto split: prod.splits)

text \<open>Any number of attempts to load the module, each successful one followed by its removal.\<close>

lemma cycles_release:
  "list_all wf es \<Longrightarrow> held_after {#} (events s) = Some {#} \<Longrightarrow>
     held_after {#} (events (foldl (\<lambda>s e. let (r, t) = init e s in if r = 0 then exit t else t) s es)) = Some {#}"
proof (induction es arbitrary: s)
  case Nil
  then show ?case by simp
next
  case (Cons e es)
  then show ?case using cycle_releases [of e s] by simp
qed

end

section \<open>Transition systems\<close>

locale inv_system =
  fixes init :: "'s \<Rightarrow> bool"
    and step :: "'s \<Rightarrow> 's \<Rightarrow> bool"
    and inv :: "'s \<Rightarrow> bool"
  assumes init_inv: "init s \<Longrightarrow> inv s"
    and step_inv: "step s t \<Longrightarrow> inv s \<Longrightarrow> inv t"
begin

lemma steps_inv: "step\<^sup>*\<^sup>* s t \<Longrightarrow> inv s \<Longrightarrow> inv t"
  by (induction rule: rtranclp_induct) (auto intro: step_inv)

lemma reach_inv: "init s \<Longrightarrow> step\<^sup>*\<^sup>* s t \<Longrightarrow> inv t"
  by (rule steps_inv) (auto intro: init_inv)

end

text \<open>
  A measure that every step decreases and a step from every state that is not final: every run
  is finite, and a run that cannot go on has reached a final state.
\<close>

locale bounded_system = inv_system +
  fixes m :: "'s \<Rightarrow> nat"
    and final :: "'s \<Rightarrow> bool"
  assumes step_less: "step s t \<Longrightarrow> inv s \<Longrightarrow> m t < m s"
    and progress: "inv s \<Longrightarrow> \<not> final s \<Longrightarrow> \<exists>t. step s t"
begin

lemma steps_bound: "(step ^^ n) s t \<Longrightarrow> inv s \<Longrightarrow> inv t \<and> n + m t \<le> m s"
proof (induction n arbitrary: t)
  case 0
  then show ?case by simp
next
  case (Suc n)
  then obtain u where u: "(step ^^ n) s u" "step u t" by auto
  with Suc have "inv u" "n + m u \<le> m s" by auto
  with u show ?case using step_less [of u t] step_inv [of u t] by auto
qed

lemma run_length: "init s \<Longrightarrow> (step ^^ n) s t \<Longrightarrow> n \<le> m s"
  using steps_bound [of n s t] init_inv by auto

lemma finishes: "inv s \<Longrightarrow> \<exists>t. step\<^sup>*\<^sup>* s t \<and> final t"
proof (induction "m s" arbitrary: s rule: less_induct)
  case less
  show ?case
  proof (cases "final s")
    case False
    with less.prems obtain u where u: "step s u" using progress by blast
    then have "m u < m s" "inv u" using less.prems by (auto intro: step_less step_inv)
    then obtain t where "step\<^sup>*\<^sup>* u t" "final t" using less.hyps by blast
    with u show ?thesis by (meson converse_rtranclp_into_rtranclp)
  qed blast
qed

lemma stuck_final: "init s \<Longrightarrow> step\<^sup>*\<^sup>* s t \<Longrightarrow> (\<And>u. \<not> step t u) \<Longrightarrow> final t"
  using reach_inv progress by blast

end

text \<open>
  One system after the other: \<open>handover\<close> says in which states of the first the second begins, and in which of its states. If both
  are bounded and so are the starts of the second, the sequence is bounded, and it ends where the first one ends for good or where the second one ends.
\<close>

definition seq_step :: "('a \<Rightarrow> 'a \<Rightarrow> bool) \<Rightarrow> ('a \<Rightarrow> 'b option) \<Rightarrow> ('b \<Rightarrow> 'b \<Rightarrow> bool) \<Rightarrow> 'a + 'b \<Rightarrow> 'a + 'b \<Rightarrow> bool" where
  "seq_step stepa handover stepb x y \<longleftrightarrow>
     (case x of
        Inl a \<Rightarrow> (\<exists>a'. stepa a a' \<and> y = Inl a') \<or> (\<exists>b. handover a = Some b \<and> y = Inr b)
      | Inr b \<Rightarrow> \<exists>b'. stepb b b' \<and> y = Inr b')"

locale seq_system =
  one: bounded_system inita stepa inva ma fina + two: bounded_system initb stepb invb mb finb
  for inita :: "'a \<Rightarrow> bool" and stepa inva ma fina and initb :: "'b \<Rightarrow> bool" and stepb invb mb finb +
  fixes handover :: "'a \<Rightarrow> 'b option" and K :: nat
  assumes handover_init: "inva a \<Longrightarrow> handover a = Some b \<Longrightarrow> initb b \<and> mb b \<le> K"

sublocale seq_system \<subseteq> bounded_system "case_sum inita (\<lambda>_. False)" "seq_step stepa handover stepb" "case_sum inva invb"
  "case_sum (\<lambda>a. ma a + K + 1) mb" "case_sum (\<lambda>a. fina a \<and> handover a = None) finb"
proof (unfold_locales, goal_cases)
  case (1 s)
  then show ?case using one.init_inv by (auto split: sum.splits)
next
  case (2 s t)
  then show ?case using one.step_inv two.step_inv two.init_inv handover_init
    by (auto simp: seq_step_def split: sum.splits)
next
  case (3 s t)
  then show ?case using one.step_less two.step_less handover_init
    by (force simp: seq_step_def split: sum.splits)
next
  case (4 s)
  show ?case
  proof (cases s)
    case (Inl a)
    with 4 show ?thesis using one.progress [of a] by (cases "handover a") (auto simp: seq_step_def)
  next
    case (Inr b)
    with 4 show ?thesis using two.progress [of b] by (auto simp: seq_step_def)
  qed
qed

context seq_system
begin

lemma in_sequence: "bounded_system (case_sum inita (\<lambda>_. False)) (seq_step stepa handover stepb) (case_sum inva invb)
    (case_sum (\<lambda>a. ma a + K + 1) mb) (case_sum (\<lambda>a. fina a \<and> handover a = None) finb)"
  by unfold_locales

end

end
