(* ===== verification/Chardev.thy ===== *)
theory Chardev
  imports Contracts
begin

unbundle bit_operations_syntax

text \<open>
  The file operations of the character device driver, \<^verbatim>\<open>10_device_driver/chardev.c\<close>. The device
  state is the struct \<^verbatim>\<open>chardev_data\<close>, its lengths at the width of \<^verbatim>\<open>size_t\<close>; every handler takes
  the mutex as the code does, so a handler called while the mutex is held does not return
  (\<open>None\<close>). \<^verbatim>\<open>copy_to_user\<close> and \<^verbatim>\<open>copy_from_user\<close> are parameters: a function from the block to be
  copied to the bytes that arrive and the number of bytes that could not be copied. The
  predicates \<open>copy_to_user_ok\<close> and \<open>copy_from_user_ok\<close> state their documentation.

  Shown: the invariant of the device under every handler, the functional behaviour of every
  branch, that no path leaves the mutex held, and that over any sequence of calls the bytes read
  are the bytes written, in order (the driver as an \<open>item_stream\<close>).
\<close>

section \<open>Device state\<close>

definition BUF_SIZE :: nat where "BUF_SIZE = 4096"

datatype dev_ref = G_dev

datatype klog =
    Log_open int
  | Log_release
  | Log_read int
  | Log_write_echo int string
  | Log_write int
  | Log_reset
  | Log_secho int

record chardev_data =
  lock :: bool
  buf :: "byte list"
  buf_len :: size_t
  rd_pos :: "64 word"
  echo :: c_int

record inode =
  i_cdev :: dev_ref

record kfile =
  private_data :: "dev_ref option"

record kernel =
  g_dev :: chardev_data
  klog :: "klog list"

record io_result =
  ret :: int
  to_user :: "byte list"
  ksys :: kernel
  pos :: "64 word"

section \<open>IOCTL numbers\<close>

definition IOC :: "c_int \<Rightarrow> c_int \<Rightarrow> c_int \<Rightarrow> c_int \<Rightarrow> c_int" where
  "IOC dir ty nr sz = push_bit 30 dir OR push_bit 16 sz OR push_bit 8 ty OR nr"

definition CHARDEV_MAGIC :: c_int where "CHARDEV_MAGIC = of_char (CHR ''C'')"

definition CHARDEV_RESET :: c_int where "CHARDEV_RESET = IOC 0 CHARDEV_MAGIC 0 0"

definition CHARDEV_GSIZE :: c_int where "CHARDEV_GSIZE = IOC 2 CHARDEV_MAGIC 1 4"

definition CHARDEV_SECHO :: c_int where "CHARDEV_SECHO = IOC 1 CHARDEV_MAGIC 2 4"

section \<open>User memory and the mutex\<close>

type_synonym user_copy = "byte list \<Rightarrow> byte list \<times> nat"

definition copy_to_user_ok :: "user_copy \<Rightarrow> bool" where
  "copy_to_user_ok ctu \<longleftrightarrow>
     (\<forall>src. snd (ctu src) \<le> length src \<and> fst (ctu src) = take (length src - snd (ctu src)) src)"

definition copy_from_user_ok :: "user_copy \<Rightarrow> bool" where
  "copy_from_user_ok cfu \<longleftrightarrow>
     (\<forall>src. snd (cfu src) \<le> length src \<and>
        fst (cfu src) = take (length src - snd (cfu src)) src @ replicate (snd (cfu src)) NUL)"

text \<open>\<open>ubuf\<close> gives the bytes of user memory from the address the caller passed on.\<close>

definition user_block :: "(nat \<Rightarrow> byte) \<Rightarrow> nat \<Rightarrow> byte list" where
  "user_block ubuf n = map ubuf [0..<n]"

definition mutex_lock :: "chardev_data \<Rightarrow> chardev_data option" where
  "mutex_lock d = (if lock d then None else Some (d\<lparr>lock := True\<rparr>))"

definition mutex_unlock :: "chardev_data \<Rightarrow> chardev_data" where
  "mutex_unlock d = d\<lparr>lock := False\<rparr>"

definition printk :: "klog \<Rightarrow> kernel \<Rightarrow> kernel" where
  "printk l k = k\<lparr>klog := klog k @ [l]\<rparr>"

section \<open>File operations\<close>

definition chardev_open :: "int \<Rightarrow> inode \<Rightarrow> kfile \<Rightarrow> kernel \<Rightarrow> int \<times> kfile \<times> kernel" where
  "chardev_open pid ino filp k =
     (0, filp\<lparr>private_data := Some (i_cdev ino)\<rparr>, printk (Log_open pid) k)"

definition chardev_release :: "inode \<Rightarrow> kfile \<Rightarrow> kernel \<Rightarrow> int \<times> kernel" where
  "chardev_release ino filp k = (0, printk Log_release k)"

definition chardev_read ::
    "user_copy \<Rightarrow> kernel \<Rightarrow> size_t \<Rightarrow> 64 word \<Rightarrow> io_result option" where
  "chardev_read ctu k cnt ppos =
     (case mutex_lock (g_dev k) of
        None \<Rightarrow> None
      | Some dev \<Rightarrow>
          if buf_len dev = 0
          then Some \<lparr>ret = 0, to_user = [], ksys = k\<lparr>g_dev := mutex_unlock dev\<rparr>, pos = ppos\<rparr>
          else
            let n = min cnt (buf_len dev);
                (out, uncopied) = ctu (take (unat n) (buf dev))
            in if uncopied \<noteq> 0
               then Some \<lparr>ret = - EFAULT, to_user = out,
                          ksys = k\<lparr>g_dev := mutex_unlock dev\<rparr>, pos = ppos\<rparr>
               else
                 let dev = dev\<lparr>buf := memmove_down (buf dev) (unat n) (unat (buf_len dev - n))\<rparr>;
                     dev = dev\<lparr>buf_len := buf_len dev - n\<rparr>;
                     k = printk (Log_read (sint n)) k
                 in Some \<lparr>ret = sint n, to_user = out,
                          ksys = k\<lparr>g_dev := mutex_unlock dev\<rparr>, pos = ppos + n\<rparr>)"

definition chardev_write ::
    "user_copy \<Rightarrow> kernel \<Rightarrow> (nat \<Rightarrow> byte) \<Rightarrow> size_t \<Rightarrow> 64 word \<Rightarrow> io_result option" where
  "chardev_write cfu k ubuf cnt ppos =
     (case mutex_lock (g_dev k) of
        None \<Rightarrow> None
      | Some dev \<Rightarrow>
          let space = of_nat BUF_SIZE - buf_len dev
          in if space = 0
             then Some \<lparr>ret = - ENOSPC, to_user = [], ksys = k\<lparr>g_dev := mutex_unlock dev\<rparr>, pos = ppos\<rparr>
             else
               let n = min cnt space;
                   (inb, uncopied) = cfu (user_block ubuf (unat n));
                   dev = dev\<lparr>buf := put_at (buf dev) (unat (buf_len dev)) inb\<rparr>
               in if uncopied \<noteq> 0
                  then Some \<lparr>ret = - EFAULT, to_user = [],
                             ksys = k\<lparr>g_dev := mutex_unlock dev\<rparr>, pos = ppos\<rparr>
                  else
                    let dev = dev\<lparr>buf_len := buf_len dev + n\<rparr>;
                        l = (if echo dev \<noteq> 0
                             then Log_write_echo (sint n)
                                    (cstr (take (unat n) (drop (unat (buf_len dev - n)) (buf dev))))
                             else Log_write (sint n))
                    in Some \<lparr>ret = sint n, to_user = [],
                             ksys = (printk l k)\<lparr>g_dev := mutex_unlock dev\<rparr>, pos = ppos + n\<rparr>)"

definition chardev_llseek :: "kfile \<Rightarrow> 64 word \<Rightarrow> int \<Rightarrow> int" where
  "chardev_llseek filp offset whence = - ESPIPE"

text \<open>
  \<open>uarg\<close> is user memory at the address \<^verbatim>\<open>arg\<close>. \<^verbatim>\<open>CHARDEV_GSIZE\<close> copies after it released the mutex and
  \<^verbatim>\<open>CHARDEV_SECHO\<close> before it takes it.
\<close>

definition chardev_ioctl ::
    "user_copy \<Rightarrow> user_copy \<Rightarrow> kernel \<Rightarrow> c_int \<Rightarrow> (nat \<Rightarrow> byte) \<Rightarrow> (int \<times> byte list \<times> kernel) option" where
  "chardev_ioctl ctu cfu k cmd uarg =
     (if cmd = CHARDEV_RESET then
        case mutex_lock (g_dev k) of
          None \<Rightarrow> None
        | Some dev \<Rightarrow>
            let dev = dev\<lparr>buf_len := 0\<rparr>;
                dev = dev\<lparr>buf := put_at (buf dev) 0 (replicate BUF_SIZE NUL)\<rparr>
            in Some (0, [], printk Log_reset (k\<lparr>g_dev := mutex_unlock dev\<rparr>))
      else if cmd = CHARDEV_GSIZE then
        case mutex_lock (g_dev k) of
          None \<Rightarrow> None
        | Some dev \<Rightarrow>
            let val = ucast (buf_len dev) :: c_int;
                k = k\<lparr>g_dev := mutex_unlock dev\<rparr>;
                (out, uncopied) = ctu (int_bytes val)
            in Some (if uncopied \<noteq> 0 then - EFAULT else 0, out, k)
      else if cmd = CHARDEV_SECHO then
        let (inb, uncopied) = cfu (user_block uarg 4)
        in if uncopied \<noteq> 0 then Some (- EFAULT, [], k)
           else case mutex_lock (g_dev k) of
                  None \<Rightarrow> None
                | Some dev \<Rightarrow>
                    let val = bytes_int inb
                    in Some (0, [], printk (Log_secho (sint val))
                                      (k\<lparr>g_dev := mutex_unlock (dev\<lparr>echo := val\<rparr>)\<rparr>))
      else Some (- ENOTTY, [], k))"

section \<open>Calls through the \<^verbatim>\<open>file_operations\<close> table\<close>

datatype chardev_op =
    Op_read user_copy size_t
  | Op_write user_copy "nat \<Rightarrow> byte" size_t
  | Op_llseek "64 word" int
  | Op_ioctl user_copy user_copy c_int "nat \<Rightarrow> byte"

text \<open>
  A call on an open file: the handler the table names, the state it leaves, and its return value.
  A handler that does not return leaves the state as it is.
\<close>

definition chardev_fops :: "kernel \<Rightarrow> chardev_op \<Rightarrow> (int \<times> byte list \<times> kernel) option" where
  "chardev_fops k op =
     (case op of
        Op_read ctu cnt \<Rightarrow> map_option (\<lambda>r. (ret r, to_user r, ksys r)) (chardev_read ctu k cnt 0)
      | Op_write cfu ubuf cnt \<Rightarrow>
          map_option (\<lambda>r. (ret r, to_user r, ksys r)) (chardev_write cfu k ubuf cnt 0)
      | Op_llseek off wh \<Rightarrow> Some (chardev_llseek \<lparr>private_data = Some G_dev\<rparr> off wh, [], k)
      | Op_ioctl ctu cfu cmd uarg \<Rightarrow> chardev_ioctl ctu cfu k cmd uarg)"

definition chardev_step :: "kernel \<Rightarrow> chardev_op \<Rightarrow> kernel" where
  "chardev_step k op = (case chardev_fops k op of Some (_, _, k') \<Rightarrow> k' | None \<Rightarrow> k)"

section \<open>Abstraction and invariant\<close>

definition chardev_content :: "kernel \<Rightarrow> byte list" where
  "chardev_content k = take (unat (buf_len (g_dev k))) (buf (g_dev k))"

definition chardev_inv :: "kernel \<Rightarrow> bool" where
  "chardev_inv k \<longleftrightarrow>
     length (buf (g_dev k)) = BUF_SIZE \<and> unat (buf_len (g_dev k)) \<le> BUF_SIZE \<and> \<not> lock (g_dev k)"

text \<open>What a call adds to and takes from the stored bytes, read off its return value.\<close>

definition chardev_accepted :: "kernel \<Rightarrow> chardev_op \<Rightarrow> byte list" where
  "chardev_accepted k op =
     (case (op, chardev_fops k op) of
        (Op_write cfu ubuf cnt, Some (r, _, _)) \<Rightarrow> if 0 \<le> r then user_block ubuf (nat r) else []
      | _ \<Rightarrow> [])"

definition chardev_delivered :: "kernel \<Rightarrow> chardev_op \<Rightarrow> byte list" where
  "chardev_delivered k op =
     (case (op, chardev_fops k op) of
        (Op_read ctu cnt, Some (r, out, _)) \<Rightarrow> if 0 \<le> r then take (nat r) out else []
      | _ \<Rightarrow> [])"

fun chardev_op_ok :: "chardev_op \<Rightarrow> bool" where
  "chardev_op_ok (Op_read ctu cnt) = copy_to_user_ok ctu"
| "chardev_op_ok (Op_write cfu ubuf cnt) = copy_from_user_ok cfu"
| "chardev_op_ok (Op_llseek off wh) = True"
| "chardev_op_ok (Op_ioctl ctu cfu cmd uarg) = (copy_to_user_ok ctu \<and> copy_from_user_ok cfu)"

definition not_reset :: "chardev_op \<Rightarrow> bool" where
  "not_reset op = (case op of Op_ioctl _ _ cmd _ \<Rightarrow> cmd \<noteq> CHARDEV_RESET | _ \<Rightarrow> True)"

text \<open>The device as module init leaves it, around the block \<open>b\<close> that \<^verbatim>\<open>kmalloc\<close> returned.\<close>

definition fresh_dev :: "byte list \<Rightarrow> chardev_data" where
  "fresh_dev b = \<lparr>lock = False, buf = b, buf_len = 0, rd_pos = 0, echo = 1\<rparr>"

definition fresh_kernel :: "byte list \<Rightarrow> kernel" where
  "fresh_kernel b = \<lparr>g_dev = fresh_dev b, klog = []\<rparr>"

text \<open>User memory that is mapped: the whole block is copied.\<close>

definition copy_mapped :: user_copy where
  "copy_mapped src = (src, 0)"

section \<open>Lemmas on words and user memory\<close>

lemma copy_mapped_ok [simp]: "copy_to_user_ok copy_mapped" "copy_from_user_ok copy_mapped"
  by (simp_all add: copy_to_user_ok_def copy_from_user_ok_def copy_mapped_def)

lemma fresh_kernel_inv [simp]: "length b = BUF_SIZE \<Longrightarrow> chardev_inv (fresh_kernel b)"
  by (simp add: chardev_inv_def fresh_kernel_def fresh_dev_def)

lemma fresh_kernel_content [simp]: "chardev_content (fresh_kernel b) = []"
  by (simp add: chardev_content_def fresh_kernel_def fresh_dev_def)

lemma unat_min [simp]: "unat (min a b) = min (unat a) (unat (b :: 'a :: len word))"
  by (simp add: min_def word_le_nat_alt)

lemma unat_space: "unat (b :: size_t) \<le> BUF_SIZE \<Longrightarrow> unat (of_nat BUF_SIZE - b) = BUF_SIZE - unat b"
  by (simp add: BUF_SIZE_def unat_sub word_le_nat_alt)

lemma sint_small: "unat (n :: size_t) \<le> BUF_SIZE \<Longrightarrow> sint n = int (unat n)"
proof -
  assume "unat n \<le> BUF_SIZE"
  then have "int (unat n) \<le> int BUF_SIZE" by (simp only: of_nat_le_iff)
  then have small: "- (2 ^ 63) \<le> uint n \<and> uint n < 2 ^ 63"
    using order_trans [of "- (2 ^ 63)" 0 "uint n"] by (simp add: BUF_SIZE_def)
  have "sint n = signed_take_bit 63 (uint n)" by (simp add: sint_uint)
  also have "\<dots> = uint n" using small by (intro signed_take_bit_int_eq_self) auto
  finally show ?thesis by simp
qed

lemma user_block_length [simp]: "length (user_block u n) = n"
  by (simp add: user_block_def)

lemma copy_to_user_all: "copy_to_user_ok ctu \<Longrightarrow> snd (ctu src) = 0 \<Longrightarrow> fst (ctu src) = src"
  using copy_to_user_ok_def [THEN iffD1, rule_format, of ctu src] by simp

lemma copy_from_user_all: "copy_from_user_ok cfu \<Longrightarrow> snd (cfu src) = 0 \<Longrightarrow> fst (cfu src) = src"
  using copy_from_user_ok_def [THEN iffD1, rule_format, of cfu src] by simp

lemma copy_from_user_length: "copy_from_user_ok cfu \<Longrightarrow> length (fst (cfu src)) = length src"
  using copy_from_user_ok_def [THEN iffD1, rule_format, of cfu src] by simp

lemma ioctl_numbers_distinct [simp]:
  "CHARDEV_RESET \<noteq> CHARDEV_GSIZE" "CHARDEV_RESET \<noteq> CHARDEV_SECHO" "CHARDEV_GSIZE \<noteq> CHARDEV_SECHO"
  "CHARDEV_GSIZE \<noteq> CHARDEV_RESET" "CHARDEV_SECHO \<noteq> CHARDEV_RESET" "CHARDEV_SECHO \<noteq> CHARDEV_GSIZE"
  by (simp_all add: CHARDEV_RESET_def CHARDEV_GSIZE_def CHARDEV_SECHO_def IOC_def CHARDEV_MAGIC_def)

lemma relock_same [simp]: "\<not> lock (g_dev k) \<Longrightarrow> k\<lparr>g_dev := mutex_unlock ((g_dev k)\<lparr>lock := True\<rparr>)\<rparr> = k"
  by (cases k, cases "g_dev k") (simp add: mutex_unlock_def)

lemma content_length: "chardev_inv k \<Longrightarrow> length (chardev_content k) = unat (buf_len (g_dev k))"
  by (simp add: chardev_inv_def chardev_content_def)

lemma content_Nil: "chardev_inv k \<Longrightarrow> chardev_content k = [] \<longleftrightarrow> buf_len (g_dev k) = 0"
  using content_length [of k] by (metis length_0_conv unat_eq_zero)

section \<open>The handlers, branch by branch\<close>

lemma chardev_read_empty:
  "chardev_inv k \<Longrightarrow> chardev_content k = [] \<Longrightarrow>
     chardev_read ctu k cnt p = Some \<lparr>ret = 0, to_user = [], ksys = k, pos = p\<rparr>"
  by (simp add: content_Nil chardev_read_def mutex_lock_def chardev_inv_def)

lemma chardev_read_src:
  "take (unat (min cnt (buf_len (g_dev k)))) (buf (g_dev k)) = take (unat cnt) (chardev_content k)"
  by (simp add: chardev_content_def)

lemma chardev_read_fault:
  assumes "chardev_inv k" and "chardev_content k \<noteq> []"
    and "ctu (take (unat cnt) (chardev_content k)) = (out, uncopied)" and "uncopied \<noteq> 0"
  shows "chardev_read ctu k cnt p = Some \<lparr>ret = - EFAULT, to_user = out, ksys = k, pos = p\<rparr>"
proof -
  have "buf_len (g_dev k) \<noteq> 0" and "\<not> lock (g_dev k)"
    using assms(1,2) by (auto simp: content_Nil chardev_inv_def)
  then show ?thesis
    using assms(3,4)
    by (simp add: chardev_read_def mutex_lock_def Let_def chardev_read_src del: unat_min)
qed

lemma read_rest:
  assumes "unat l \<le> length b" and "unat (n :: size_t) \<le> unat l"
  shows "take (unat (l - n)) (memmove_down b (unat n) (unat (l - n))) = drop (unat n) (take (unat l) b)"
  using assms by (simp add: unat_sub word_le_nat_alt drop_take)

lemma chardev_read_data:
  assumes "chardev_inv k" and "chardev_content k \<noteq> []" and "copy_to_user_ok ctu"
    and "snd (ctu (take (unat cnt) (chardev_content k))) = 0"
  shows "\<exists>k'. chardev_read ctu k cnt p =
       Some \<lparr>ret = int (min (unat cnt) (length (chardev_content k))),
             to_user = take (unat cnt) (chardev_content k), ksys = k', pos = p + min cnt (buf_len (g_dev k))\<rparr>
     \<and> chardev_inv k' \<and> chardev_content k' = drop (unat cnt) (chardev_content k)
     \<and> echo (g_dev k') = echo (g_dev k)"
proof -
  let ?d = "g_dev k"
  define n where "n = min cnt (buf_len ?d)"
  define d' where "d' = ?d\<lparr>lock := False, buf := memmove_down (buf ?d) (unat n) (unat (buf_len ?d - n)),
      buf_len := buf_len ?d - n\<rparr>"
  define k' where "k' = (printk (Log_read (sint n)) k)\<lparr>g_dev := d'\<rparr>"
  have len: "unat (buf_len ?d) \<le> BUF_SIZE" and bl: "length (buf ?d) = BUF_SIZE" and free: "\<not> lock ?d"
    and ne: "buf_len ?d \<noteq> 0"
    using assms(1,2) by (auto simp: chardev_inv_def content_Nil)
  have n: "unat n \<le> unat (buf_len ?d)" by (simp add: n_def)
  have copied: "ctu (take (unat cnt) (chardev_content k)) = (take (unat cnt) (chardev_content k), 0)"
    using copy_to_user_all [OF assms(3,4)] assms(4) by (metis prod.collapse)
  have ret: "sint n = int (min (unat cnt) (length (chardev_content k)))"
    using sint_small [of n] n len by (simp add: n_def content_length [OF assms(1)])
  have rd: "chardev_read ctu k cnt p = Some \<lparr>ret = sint n, to_user = take (unat cnt) (chardev_content k),
      ksys = k', pos = p + n\<rparr>"
    using free ne copied unfolding n_def k'_def d'_def
    by (simp add: chardev_read_def mutex_lock_def mutex_unlock_def Let_def chardev_read_src del: unat_min)
  have "chardev_content k' = drop (unat n) (chardev_content k)"
    using read_rest [of "buf_len ?d" "buf ?d" n] len bl n by (simp add: k'_def d'_def chardev_content_def)
  then have content: "chardev_content k' = drop (unat cnt) (chardev_content k)"
    using content_length [OF assms(1)] by (cases "unat cnt \<le> unat (buf_len ?d)") (simp_all add: n_def)
  have "chardev_inv k'"
    using len bl n by (simp add: chardev_inv_def k'_def d'_def unat_sub word_le_nat_alt)
  then show ?thesis
    using rd ret content by (simp add: k'_def d'_def n_def)
qed

lemma chardev_write_full:
  "chardev_inv k \<Longrightarrow> length (chardev_content k) = BUF_SIZE \<Longrightarrow>
     chardev_write cfu k u cnt p = Some \<lparr>ret = - ENOSPC, to_user = [], ksys = k, pos = p\<rparr>"
proof -
  assume inv: "chardev_inv k" and full: "length (chardev_content k) = BUF_SIZE"
  then have "unat (of_nat BUF_SIZE - buf_len (g_dev k)) = 0"
    using unat_space [of "buf_len (g_dev k)"] content_length [OF inv] by simp
  with inv show ?thesis
    by (simp add: chardev_write_def mutex_lock_def chardev_inv_def unat_eq_zero)
qed

text \<open>The bytes a write would copy, and the buffer it leaves whether or not the copy faults.\<close>

definition write_take :: "kernel \<Rightarrow> (nat \<Rightarrow> byte) \<Rightarrow> size_t \<Rightarrow> byte list" where
  "write_take k u cnt = user_block u (min (unat cnt) (BUF_SIZE - length (chardev_content k)))"

lemma write_src:
  "chardev_inv k \<Longrightarrow>
     user_block u (unat (min cnt (of_nat BUF_SIZE - buf_len (g_dev k)))) = write_take k u cnt"
  by (simp add: write_take_def content_length unat_space chardev_inv_def)

lemma write_room:
  assumes "chardev_inv k" and "length (chardev_content k) < BUF_SIZE"
  shows "of_nat BUF_SIZE - buf_len (g_dev k) \<noteq> 0"
proof
  assume "of_nat BUF_SIZE - buf_len (g_dev k) = 0"
  then have "unat (of_nat BUF_SIZE - buf_len (g_dev k)) = 0" by simp
  then show False
    using assms unat_space [of "buf_len (g_dev k)"] content_length [OF assms(1)] by (auto simp: chardev_inv_def)
qed

lemma chardev_write_fault:
  assumes inv: "chardev_inv k" and room: "length (chardev_content k) < BUF_SIZE" and ok: "copy_from_user_ok cfu"
    and fault: "snd (cfu (write_take k u cnt)) \<noteq> 0"
  shows "\<exists>k'. chardev_write cfu k u cnt p = Some \<lparr>ret = - EFAULT, to_user = [], ksys = k', pos = p\<rparr>
     \<and> chardev_inv k' \<and> chardev_content k' = chardev_content k \<and> klog k' = klog k"
proof -
  let ?d = "g_dev k"
  define d' where "d' = ?d\<lparr>buf := put_at (buf ?d) (unat (buf_len ?d)) (fst (cfu (write_take k u cnt))), lock := False\<rparr>"
  have free: "\<not> lock ?d" using inv by (simp add: chardev_inv_def)
  have wr: "chardev_write cfu k u cnt p = Some \<lparr>ret = - EFAULT, to_user = [], ksys = k\<lparr>g_dev := d'\<rparr>, pos = p\<rparr>"
    using free fault write_room [OF inv room]
    by (simp add: chardev_write_def mutex_lock_def mutex_unlock_def Let_def write_src [OF inv] d'_def
        split_beta del: unat_min)
  have "length (fst (cfu (write_take k u cnt))) \<le> BUF_SIZE - unat (buf_len ?d)"
    by (simp add: copy_from_user_length [OF ok] write_take_def content_length [OF inv])
  then have "chardev_inv (k\<lparr>g_dev := d'\<rparr>) \<and> chardev_content (k\<lparr>g_dev := d'\<rparr>) = chardev_content k"
    using inv by (auto simp: chardev_inv_def d'_def chardev_content_def)
  then show ?thesis using wr by simp
qed

text \<open>The log line of a write that copied \<open>w\<close>.\<close>

definition write_log :: "kernel \<Rightarrow> byte list \<Rightarrow> klog" where
  "write_log k w =
     (if echo (g_dev k) \<noteq> 0 then Log_write_echo (int (length w)) (cstr w) else Log_write (int (length w)))"

lemma drop_put_at: "i \<le> length xs \<Longrightarrow> take (length ys) (drop i (put_at xs i ys)) = ys"
  by (simp add: put_at_def)

lemma chardev_write_data:
  assumes inv: "chardev_inv k" and room: "length (chardev_content k) < BUF_SIZE" and ok: "copy_from_user_ok cfu"
    and copied: "snd (cfu (write_take k u cnt)) = 0"
  shows "\<exists>k'. chardev_write cfu k u cnt p =
       Some \<lparr>ret = int (length (write_take k u cnt)), to_user = [], ksys = k',
             pos = p + of_nat (length (write_take k u cnt))\<rparr>
     \<and> chardev_inv k' \<and> chardev_content k' = chardev_content k @ write_take k u cnt
     \<and> echo (g_dev k') = echo (g_dev k) \<and> klog k' = klog k @ [write_log k (write_take k u cnt)]"
proof -
  let ?d = "g_dev k" and ?w = "write_take k u cnt"
  define n where "n = min cnt (of_nat BUF_SIZE - buf_len ?d)"
  define d' where "d' = ?d\<lparr>buf := put_at (buf ?d) (unat (buf_len ?d)) ?w, buf_len := buf_len ?d + n, lock := False\<rparr>"
  define k' where "k' = (printk (write_log k ?w) k)\<lparr>g_dev := d'\<rparr>"
  have len: "unat (buf_len ?d) \<le> BUF_SIZE" and bl: "length (buf ?d) = BUF_SIZE" and free: "\<not> lock ?d"
    using inv by (auto simp: chardev_inv_def)
  have src: "user_block u (unat n) = ?w" by (simp add: n_def write_src [OF inv] del: unat_min)
  have nw: "unat n = length ?w" using arg_cong [OF src, of length] by simp
  have room': "length ?w \<le> BUF_SIZE - unat (buf_len ?d)"
    by (simp add: write_take_def content_length [OF inv])
  have add: "unat (buf_len ?d + n) = unat (buf_len ?d) + length ?w"
    using room' len nw by (simp add: unat_word_ariths BUF_SIZE_def)
  have cw: "cfu ?w = (?w, 0)" using copy_from_user_all [OF ok copied] copied by (metis prod.collapse)
  have sn: "sint n = int (length ?w)" using sint_small [of n] nw room' by simp
  have wr: "chardev_write cfu k u cnt p = Some \<lparr>ret = sint n, to_user = [], ksys = k', pos = p + n\<rparr>"
    using free cw write_room [OF inv room] src drop_put_at [of "unat (buf_len ?d)" "buf ?d" ?w] len bl
    by (simp add: chardev_write_def mutex_lock_def mutex_unlock_def Let_def n_def [symmetric] d'_def k'_def
        write_log_def sn nw)
  have "chardev_content k' = chardev_content k @ ?w"
    using len bl by (simp add: chardev_content_def k'_def d'_def add)
  moreover have "chardev_inv k'"
    using len bl room' by (auto simp: chardev_inv_def k'_def d'_def add)
  moreover have "n = of_nat (length ?w)" using nw by (metis of_nat_unat ucast_id)
  ultimately show ?thesis using wr sn by (simp add: d'_def k'_def printk_def)
qed

lemma chardev_ioctl_reset:
  assumes inv: "chardev_inv k"
  shows "\<exists>k'. chardev_ioctl ctu cfu k CHARDEV_RESET uarg = Some (0, [], k') \<and> chardev_inv k'
     \<and> chardev_content k' = [] \<and> buf (g_dev k') = replicate BUF_SIZE NUL \<and> echo (g_dev k') = echo (g_dev k)"
  using inv
  by (simp add: chardev_ioctl_def mutex_lock_def mutex_unlock_def chardev_inv_def chardev_content_def printk_def
      put_at_def Let_def)

lemma ucast_buf_len: "chardev_inv k \<Longrightarrow> (ucast (buf_len (g_dev k)) :: c_int) = of_nat (length (chardev_content k))"
  by (simp add: content_length)

lemma chardev_ioctl_gsize:
  assumes "chardev_inv k"
  shows "chardev_ioctl ctu cfu k CHARDEV_GSIZE uarg =
     (let (out, uncopied) = ctu (int_bytes (of_nat (length (chardev_content k))))
      in Some (if uncopied \<noteq> 0 then - EFAULT else 0, out, k))"
  using assms ucast_buf_len [OF assms]
  by (simp add: chardev_ioctl_def mutex_lock_def chardev_inv_def Let_def split: prod.splits)

lemma chardev_ioctl_secho_fault:
  "snd (cfu (user_block uarg 4)) \<noteq> 0 \<Longrightarrow> chardev_ioctl ctu cfu k CHARDEV_SECHO uarg = Some (- EFAULT, [], k)"
  by (simp add: chardev_ioctl_def Let_def split_beta)

lemma chardev_ioctl_secho:
  assumes "chardev_inv k" and "copy_from_user_ok cfu" and "snd (cfu (user_block uarg 4)) = 0"
  shows "\<exists>k'. chardev_ioctl ctu cfu k CHARDEV_SECHO uarg = Some (0, [], k') \<and> chardev_inv k'
     \<and> chardev_content k' = chardev_content k \<and> echo (g_dev k') = bytes_int (user_block uarg 4)"
  using assms copy_from_user_all [OF assms(2,3)]
  by (simp add: chardev_ioctl_def Let_def split_beta mutex_lock_def mutex_unlock_def printk_def chardev_inv_def
      chardev_content_def)

lemma chardev_ioctl_unknown:
  "cmd \<noteq> CHARDEV_RESET \<Longrightarrow> cmd \<noteq> CHARDEV_GSIZE \<Longrightarrow> cmd \<noteq> CHARDEV_SECHO \<Longrightarrow>
     chardev_ioctl ctu cfu k cmd uarg = Some (- ENOTTY, [], k)"
  by (simp add: chardev_ioctl_def)

section \<open>Every call of the table\<close>

lemma fops_read:
  assumes inv: "chardev_inv k" and ok: "copy_to_user_ok ctu"
  shows "\<exists>r out k'. chardev_fops k (Op_read ctu cnt) = Some (r, out, k') \<and> chardev_inv k'
     \<and> (if 0 \<le> r then take (nat r) out else []) @ chardev_content k' = chardev_content k"
proof (cases "chardev_content k = []")
  case True
  then show ?thesis using inv by (simp add: chardev_fops_def chardev_read_empty [OF inv])
next
  case False
  obtain out unc where c: "ctu (take (unat cnt) (chardev_content k)) = (out, unc)" by fastforce
  show ?thesis
  proof (cases "unc = 0")
    case True
    with c obtain k' where "chardev_read ctu k cnt 0 = Some \<lparr>ret = int (min (unat cnt) (length (chardev_content k))),
        to_user = take (unat cnt) (chardev_content k), ksys = k', pos = 0 + min cnt (buf_len (g_dev k))\<rparr>"
      and "chardev_inv k'" and "chardev_content k' = drop (unat cnt) (chardev_content k)"
      using chardev_read_data [OF inv False ok, of cnt 0] by auto
    then show ?thesis by (simp add: chardev_fops_def)
  next
    case unc: False
    then show ?thesis using inv by (simp add: chardev_fops_def chardev_read_fault [where ctu = ctu and cnt = cnt, OF inv False c unc])
  qed
qed

lemma write_take_prefix: "m = length (write_take k u cnt) \<Longrightarrow> user_block u m = write_take k u cnt"
  by (simp add: write_take_def)

lemma fops_write:
  assumes inv: "chardev_inv k" and ok: "copy_from_user_ok cfu"
  shows "\<exists>r k'. chardev_fops k (Op_write cfu u cnt) = Some (r, [], k') \<and> chardev_inv k'
     \<and> chardev_content k' = chardev_content k @ (if 0 \<le> r then user_block u (nat r) else [])"
proof (cases "length (chardev_content k) < BUF_SIZE")
  case False
  with inv have "length (chardev_content k) = BUF_SIZE"
    by (simp add: content_length chardev_inv_def)
  then show ?thesis using inv by (simp add: chardev_fops_def chardev_write_full [OF inv])
next
  case room: True
  show ?thesis
  proof (cases "snd (cfu (write_take k u cnt)) = 0")
    case True
    then obtain k' where "chardev_write cfu k u cnt 0 = Some \<lparr>ret = int (length (write_take k u cnt)),
        to_user = [], ksys = k', pos = 0 + of_nat (length (write_take k u cnt))\<rparr>"
      and "chardev_inv k'" and "chardev_content k' = chardev_content k @ write_take k u cnt"
      using chardev_write_data [OF inv room ok True, of 0] by blast
    then show ?thesis
      by (intro exI [of _ "int (length (write_take k u cnt))"] exI [of _ k'])
        (simp add: chardev_fops_def write_take_prefix)
  next
    case False
    then obtain k' where "chardev_write cfu k u cnt 0 = Some \<lparr>ret = - EFAULT, to_user = [], ksys = k', pos = 0\<rparr>"
      and "chardev_inv k'" and "chardev_content k' = chardev_content k"
      using chardev_write_fault [OF inv room ok False, of 0] by blast
    then show ?thesis by (intro exI [of _ "- EFAULT"] exI [of _ k']) (simp add: chardev_fops_def)
  qed
qed

lemma fops_ioctl:
  assumes inv: "chardev_inv k" and ok: "copy_from_user_ok cfu"
  shows "\<exists>r out k'. chardev_fops k (Op_ioctl ctu cfu cmd uarg) = Some (r, out, k') \<and> chardev_inv k'
     \<and> chardev_content k' = (if cmd = CHARDEV_RESET then [] else chardev_content k)"
proof -
  consider "cmd = CHARDEV_RESET" | "cmd = CHARDEV_GSIZE" | "cmd = CHARDEV_SECHO"
    | "cmd \<noteq> CHARDEV_RESET" "cmd \<noteq> CHARDEV_GSIZE" "cmd \<noteq> CHARDEV_SECHO" by blast
  then show ?thesis
  proof cases
    case 1
    then show ?thesis using chardev_ioctl_reset [OF inv, of ctu cfu uarg] by (auto simp: chardev_fops_def)
  next
    case 2
    then show ?thesis
      using inv by (auto simp: chardev_fops_def chardev_ioctl_gsize [OF inv] Let_def split: prod.splits)
  next
    case 3
    then show ?thesis
      using inv chardev_ioctl_secho_fault [of cfu uarg ctu k] chardev_ioctl_secho [OF inv ok, of uarg ctu]
      by (cases "snd (cfu (user_block uarg 4)) = 0") (auto simp: chardev_fops_def)
  next
    case 4
    then show ?thesis using inv by (simp add: chardev_fops_def chardev_ioctl_unknown)
  qed
qed

lemma fops_total:
  assumes "chardev_inv k" and "chardev_op_ok op"
  shows "\<exists>r out. chardev_fops k op = Some (r, out, chardev_step k op) \<and> chardev_inv (chardev_step k op)"
proof (cases op)
  case (Op_read ctu cnt)
  then show ?thesis using fops_read [OF assms(1), of ctu cnt] assms(2) by (auto simp: chardev_step_def)
next
  case (Op_write cfu u cnt)
  then show ?thesis using fops_write [OF assms(1), of cfu u cnt] assms(2) by (auto simp: chardev_step_def)
next
  case (Op_llseek off wh)
  then show ?thesis using assms by (simp add: chardev_step_def chardev_fops_def)
next
  case (Op_ioctl ctu cfu cmd uarg)
  then show ?thesis using fops_ioctl [OF assms(1), of cfu ctu cmd uarg] assms(2) by (auto simp: chardev_step_def)
qed

lemma chardev_flow:
  assumes "chardev_inv k" and "chardev_op_ok op" and "not_reset op"
  shows "chardev_delivered k op @ chardev_content (chardev_step k op)
     = chardev_content k @ chardev_accepted k op"
proof (cases op)
  case (Op_read ctu cnt)
  then show ?thesis
    using fops_read [OF assms(1), of ctu cnt] assms(2)
    by (auto simp: chardev_step_def chardev_delivered_def chardev_accepted_def)
next
  case (Op_write cfu u cnt)
  then show ?thesis
    using fops_write [OF assms(1), of cfu u cnt] assms(2)
    by (auto simp: chardev_step_def chardev_delivered_def chardev_accepted_def)
next
  case (Op_llseek off wh)
  then show ?thesis by (simp add: chardev_step_def chardev_delivered_def chardev_accepted_def chardev_fops_def)
next
  case (Op_ioctl ctu cfu cmd uarg)
  then show ?thesis
    using fops_ioctl [OF assms(1), of cfu ctu cmd uarg] assms(2,3)
    by (auto simp: chardev_step_def chardev_delivered_def chardev_accepted_def not_reset_def)
qed

interpretation cd: item_stream chardev_step chardev_inv chardev_content chardev_accepted chardev_delivered
  "\<lambda>op. chardev_op_ok op \<and> not_reset op"
proof (unfold_locales, goal_cases)
  case (1 s op)
  then show ?case using fops_total [of s op] by auto
next
  case (2 s op)
  then show ?case by (intro chardev_flow) auto
qed

section \<open>Properties\<close>

text \<open>
  C1. Over any sequence of calls without \<^verbatim>\<open>CHARDEV_RESET\<close>, with any counts, any faults of the user
  copies and any full or empty buffer on the way, the bytes the reads delivered followed by the
  bytes still stored are the bytes stored at the start followed by the bytes the writes accepted:
  no byte is lost, invented or reordered.
\<close>

theorem chardev_stream:
  assumes "chardev_inv k" and "list_all (\<lambda>op. chardev_op_ok op \<and> not_reset op) ops"
  shows "collect_ops chardev_step chardev_delivered k ops @ chardev_content (run_ops chardev_step k ops)
     = chardev_content k @ collect_ops chardev_step chardev_accepted k ops"
  using assms by (rule cd.flow_run)

theorem chardev_stream_witness:
  "collect_ops chardev_step chardev_delivered (fresh_kernel (replicate BUF_SIZE NUL))
       [Op_write copy_mapped (\<lambda>i. ''hello'' ! i) 5, Op_read copy_mapped 16]
     @ chardev_content (run_ops chardev_step (fresh_kernel (replicate BUF_SIZE NUL))
       [Op_write copy_mapped (\<lambda>i. ''hello'' ! i) 5, Op_read copy_mapped 16])
   = chardev_content (fresh_kernel (replicate BUF_SIZE NUL))
     @ collect_ops chardev_step chardev_accepted (fresh_kernel (replicate BUF_SIZE NUL))
       [Op_write copy_mapped (\<lambda>i. ''hello'' ! i) 5, Op_read copy_mapped 16]"
  by (rule chardev_stream) (simp_all add: not_reset_def)

text \<open>
  C3. Every entry of the \<^verbatim>\<open>file_operations\<close> table, called while the mutex is free, returns; on every
  path, errors included, it leaves the mutex free, the length within \<^verbatim>\<open>BUF_SIZE\<close> and the buffer at
  its size.
\<close>

theorem chardev_calls_return:
  assumes "chardev_inv k" and "chardev_op_ok op"
  shows "\<exists>r out k'. chardev_fops k op = Some (r, out, k') \<and> \<not> lock (g_dev k')
     \<and> unat (buf_len (g_dev k')) \<le> BUF_SIZE \<and> length (buf (g_dev k')) = BUF_SIZE"
  using fops_total [OF assms] by (auto simp: chardev_inv_def)

theorem chardev_calls_return_witness:
  "\<exists>r out k'. chardev_fops (fresh_kernel (replicate BUF_SIZE NUL)) (Op_read copy_mapped 3) = Some (r, out, k')
     \<and> \<not> lock (g_dev k') \<and> unat (buf_len (g_dev k')) \<le> BUF_SIZE \<and> length (buf (g_dev k')) = BUF_SIZE"
  by (rule chardev_calls_return) simp_all

text \<open>
  C4. \<^verbatim>\<open>chardev_read\<close> on every branch: end of file on an empty buffer; \<^verbatim>\<open>-EFAULT\<close> and an unchanged
  device when the copy faults; otherwise it hands out the first \<^verbatim>\<open>min(count, buf_len)\<close> bytes, returns
  their number, advances the position by it and keeps exactly the bytes behind them.
\<close>

theorem chardev_read_spec:
  assumes "chardev_inv k" and "copy_to_user_ok ctu"
  shows "(chardev_content k = [] \<longrightarrow>
            chardev_read ctu k cnt p = Some \<lparr>ret = 0, to_user = [], ksys = k, pos = p\<rparr>)
     \<and> (chardev_content k \<noteq> [] \<and> snd (ctu (take (unat cnt) (chardev_content k))) \<noteq> 0 \<longrightarrow>
            chardev_read ctu k cnt p = Some \<lparr>ret = - EFAULT,
              to_user = fst (ctu (take (unat cnt) (chardev_content k))), ksys = k, pos = p\<rparr>)
     \<and> (chardev_content k \<noteq> [] \<and> snd (ctu (take (unat cnt) (chardev_content k))) = 0 \<longrightarrow>
            (\<exists>k'. chardev_read ctu k cnt p = Some \<lparr>ret = int (min (unat cnt) (length (chardev_content k))),
               to_user = take (unat cnt) (chardev_content k), ksys = k', pos = p + min cnt (buf_len (g_dev k))\<rparr>
             \<and> chardev_inv k' \<and> chardev_content k' = drop (unat cnt) (chardev_content k)))"
  using chardev_read_empty [OF assms(1)] chardev_read_data [OF assms(1) _ assms(2), of cnt p]
    chardev_read_fault [OF assms(1) _ prod.collapse [symmetric], of ctu cnt p]
  by blast

definition hello_kernel :: kernel where
  "hello_kernel = \<lparr>g_dev = (fresh_dev (''hello'' @ replicate 4091 NUL))\<lparr>buf_len := 5\<rparr>, klog = []\<rparr>"

lemma hello_kernel_inv: "chardev_inv hello_kernel"
  by (simp add: hello_kernel_def chardev_inv_def fresh_dev_def BUF_SIZE_def)

lemma hello_kernel_content: "chardev_content hello_kernel = ''hello''"
  by (simp add: hello_kernel_def chardev_content_def fresh_dev_def)

theorem chardev_read_spec_witness:
  "\<exists>k'. chardev_read copy_mapped hello_kernel 3 0 =
       Some \<lparr>ret = 3, to_user = ''hel'', ksys = k', pos = 0 + min 3 (buf_len (g_dev hello_kernel))\<rparr>
     \<and> chardev_inv k' \<and> chardev_content k' = ''lo''"
  using chardev_read_spec [of hello_kernel copy_mapped 3 0]
  by (simp add: hello_kernel_inv hello_kernel_content copy_mapped_def)

text \<open>
  C5. \<^verbatim>\<open>chardev_write\<close> on every branch: \<^verbatim>\<open>-ENOSPC\<close> and an unchanged device when the buffer is full;
  \<^verbatim>\<open>-EFAULT\<close> and the same stored bytes when the copy faults; otherwise it appends the first
  \<^verbatim>\<open>min(count, space)\<close> bytes of the user buffer, returns and logs their number, and logs the bytes
  themselves exactly when echo is on.
\<close>

theorem chardev_write_spec:
  assumes "chardev_inv k" and "copy_from_user_ok cfu"
  shows "(length (chardev_content k) = BUF_SIZE \<longrightarrow>
            chardev_write cfu k u cnt p = Some \<lparr>ret = - ENOSPC, to_user = [], ksys = k, pos = p\<rparr>)
     \<and> (length (chardev_content k) < BUF_SIZE \<and> snd (cfu (write_take k u cnt)) \<noteq> 0 \<longrightarrow>
            (\<exists>k'. chardev_write cfu k u cnt p = Some \<lparr>ret = - EFAULT, to_user = [], ksys = k', pos = p\<rparr>
             \<and> chardev_inv k' \<and> chardev_content k' = chardev_content k \<and> klog k' = klog k))
     \<and> (length (chardev_content k) < BUF_SIZE \<and> snd (cfu (write_take k u cnt)) = 0 \<longrightarrow>
            (\<exists>k'. chardev_write cfu k u cnt p = Some \<lparr>ret = int (length (write_take k u cnt)), to_user = [],
               ksys = k', pos = p + of_nat (length (write_take k u cnt))\<rparr>
             \<and> chardev_inv k' \<and> chardev_content k' = chardev_content k @ write_take k u cnt
             \<and> klog k' = klog k @ [write_log k (write_take k u cnt)]))"
  using chardev_write_full [OF assms(1)] chardev_write_data [OF assms(1) _ assms(2), of u cnt p]
    chardev_write_fault [OF assms(1) _ assms(2), of u cnt p]
  by blast

lemma hello_kernel_log: "klog hello_kernel = []" "write_log hello_kernel w = Log_write_echo (int (length w)) (cstr w)"
  by (simp_all add: hello_kernel_def fresh_dev_def write_log_def)

lemma write_take_world: "write_take hello_kernel (\<lambda>i. '' world'' ! i) 6 = '' world''"
  by (simp add: write_take_def hello_kernel_content BUF_SIZE_def user_block_def upt_conv_Cons)

theorem chardev_write_spec_witness:
  "\<exists>k'. chardev_write copy_mapped hello_kernel (\<lambda>i. '' world'' ! i) 6 0 =
       Some \<lparr>ret = 6, to_user = [], ksys = k', pos = 6\<rparr>
     \<and> chardev_inv k' \<and> chardev_content k' = ''hello world'' \<and> klog k' = [Log_write_echo 6 '' world'']"
  using chardev_write_spec [of hello_kernel copy_mapped "\<lambda>i. '' world'' ! i" 6 0]
  unfolding write_take_world hello_kernel_content
  by (simp add: hello_kernel_inv copy_mapped_def BUF_SIZE_def hello_kernel_log cstr_def)

text \<open>
  C6. \<^verbatim>\<open>chardev_ioctl\<close>: \<^verbatim>\<open>RESET\<close> empties and zeroes the buffer; \<^verbatim>\<open>GSIZE\<close> copies out the number of stored
  bytes and changes nothing; \<^verbatim>\<open>SECHO\<close> stores the caller's integer as echo mode and no other
  command does; any other number is \<^verbatim>\<open>-ENOTTY\<close> and changes nothing.
\<close>

theorem chardev_ioctl_spec:
  assumes "chardev_inv k" and "copy_to_user_ok ctu" and "copy_from_user_ok cfu"
  shows "(\<exists>k'. chardev_ioctl ctu cfu k CHARDEV_RESET uarg = Some (0, [], k') \<and> chardev_inv k'
            \<and> chardev_content k' = [] \<and> buf (g_dev k') = replicate BUF_SIZE NUL
            \<and> echo (g_dev k') = echo (g_dev k))
     \<and> (snd (ctu (int_bytes (of_nat (length (chardev_content k))))) = 0 \<longrightarrow>
            (\<exists>out. chardev_ioctl ctu cfu k CHARDEV_GSIZE uarg = Some (0, out, k)
             \<and> bytes_int out = of_nat (length (chardev_content k))))
     \<and> (snd (cfu (user_block uarg 4)) = 0 \<longrightarrow>
            (\<exists>k'. chardev_ioctl ctu cfu k CHARDEV_SECHO uarg = Some (0, [], k') \<and> chardev_inv k'
             \<and> chardev_content k' = chardev_content k \<and> echo (g_dev k') = bytes_int (user_block uarg 4)))
     \<and> (cmd \<notin> {CHARDEV_RESET, CHARDEV_GSIZE, CHARDEV_SECHO} \<longrightarrow>
            chardev_ioctl ctu cfu k cmd uarg = Some (- ENOTTY, [], k))"
proof (intro conjI impI)
  show "\<exists>k'. chardev_ioctl ctu cfu k CHARDEV_RESET uarg = Some (0, [], k') \<and> chardev_inv k'
            \<and> chardev_content k' = [] \<and> buf (g_dev k') = replicate BUF_SIZE NUL
            \<and> echo (g_dev k') = echo (g_dev k)"
    by (rule chardev_ioctl_reset [OF assms(1)])
  assume "snd (ctu (int_bytes (of_nat (length (chardev_content k))))) = 0"
  with copy_to_user_all [OF assms(2) this] show "\<exists>out. chardev_ioctl ctu cfu k CHARDEV_GSIZE uarg = Some (0, out, k)
      \<and> bytes_int out = of_nat (length (chardev_content k))"
    by (simp add: chardev_ioctl_gsize [OF assms(1)] Let_def split_beta)
qed (use chardev_ioctl_secho [OF assms(1,3)] chardev_ioctl_unknown in auto)

theorem chardev_ioctl_spec_witness:
  "\<exists>out. chardev_ioctl copy_mapped copy_mapped hello_kernel CHARDEV_GSIZE (\<lambda>_. NUL) = Some (0, out, hello_kernel)
     \<and> bytes_int out = 5"
  using chardev_ioctl_spec [of hello_kernel copy_mapped copy_mapped "\<lambda>_. NUL" 0]
  by (simp add: hello_kernel_inv hello_kernel_content copy_mapped_def)

end
