(* ===== verification/Chardev_Module.thy ===== *)
theory Chardev_Module
  imports Chardev
begin

text \<open>
  Loading and removing the driver: \<^verbatim>\<open>chardev_init\<close> and \<^verbatim>\<open>chardev_exit\<close> of \<^verbatim>\<open>10_device_driver/chardev.c\<close>.
  The outcomes of the kernel calls that can fail are the record \<open>init_env\<close>; the state is the global
  device and the sequence of resources acquired and released. The four cleanup labels fall through
  into one another as in the code. Shown: a failing init has released everything, in reverse order;
  a successful one leaves a device that satisfies the driver's invariant; exit releases everything
  (interpretation of \<open>module_lifecycle\<close>).
\<close>

section \<open>State and kernel outcomes\<close>

datatype chardev_res = R_region | R_buf | R_cdev | R_class | R_device

datatype mod_log = Log_alloc_failed int | Log_major | Log_cdev_add_failed | Log_device_failed
  | Log_loaded | Log_unloaded

record init_env =
  alloc_ret :: int
  kmalloc_ret :: "byte list option"
  cdev_add_ret :: int
  class_err :: "int option"
  device_err :: "int option"

record chardev_mod =
  m_dev :: chardev_data
  m_events :: "chardev_res res_event list"
  m_log :: "mod_log list"

definition init_env_ok :: "init_env \<Rightarrow> bool" where
  "init_env_ok e \<longleftrightarrow> alloc_ret e \<le> 0 \<and> cdev_add_ret e \<le> 0
     \<and> (case kmalloc_ret e of None \<Rightarrow> True | Some b \<Rightarrow> length b = BUF_SIZE)
     \<and> (case class_err e of None \<Rightarrow> True | Some r \<Rightarrow> r < 0)"

definition acquire :: "chardev_res \<Rightarrow> chardev_mod \<Rightarrow> chardev_mod" where
  "acquire r m = m\<lparr>m_events := m_events m @ [Acquire r]\<rparr>"

definition release :: "chardev_res \<Rightarrow> chardev_mod \<Rightarrow> chardev_mod" where
  "release r m = m\<lparr>m_events := m_events m @ [Release r]\<rparr>"

definition mod_printk :: "mod_log \<Rightarrow> chardev_mod \<Rightarrow> chardev_mod" where
  "mod_printk l m = m\<lparr>m_log := m_log m @ [l]\<rparr>"

section \<open>Init, its cleanup labels, exit\<close>

definition err_chrdev :: "chardev_mod \<Rightarrow> chardev_mod" where
  "err_chrdev m = release R_region m"

definition err_buf :: "chardev_mod \<Rightarrow> chardev_mod" where
  "err_buf m = err_chrdev (release R_buf m)"

definition err_cdev :: "chardev_mod \<Rightarrow> chardev_mod" where
  "err_cdev m = err_buf (release R_cdev m)"

definition err_class :: "chardev_mod \<Rightarrow> chardev_mod" where
  "err_class m = err_cdev (release R_class m)"

definition chardev_init :: "init_env \<Rightarrow> chardev_mod \<Rightarrow> int \<times> chardev_mod" where
  "chardev_init e m =
     (if alloc_ret e < 0 then (alloc_ret e, mod_printk (Log_alloc_failed (alloc_ret e)) m)
      else
        let m = mod_printk Log_major (acquire R_region m);
            m = m\<lparr>m_dev := (m_dev m)\<lparr>lock := False\<rparr>\<rparr>
        in case kmalloc_ret e of
             None \<Rightarrow> (- ENOMEM, err_chrdev m)
           | Some b \<Rightarrow>
               let m = acquire R_buf m;
                   m = m\<lparr>m_dev := (m_dev m)\<lparr>buf := b, buf_len := 0, echo := 1\<rparr>\<rparr>
               in if cdev_add_ret e < 0 then (cdev_add_ret e, err_buf (mod_printk Log_cdev_add_failed m))
                  else
                    let m = acquire R_cdev m
                    in case class_err e of
                         Some r \<Rightarrow> (r, err_cdev m)
                       | None \<Rightarrow>
                           let m = acquire R_class m
                           in case device_err e of
                                Some r \<Rightarrow> (- ENOMEM, err_class (mod_printk Log_device_failed m))
                              | None \<Rightarrow> (0, mod_printk Log_loaded (acquire R_device m)))"

definition chardev_exit :: "chardev_mod \<Rightarrow> chardev_mod" where
  "chardev_exit m =
     mod_printk Log_unloaded
       (release R_region (release R_buf (release R_cdev (release R_class (release R_device m)))))"

definition chardev_resources :: "chardev_res multiset" where
  "chardev_resources = {#R_region, R_buf, R_cdev, R_class, R_device#}"

text \<open>Releases only ever undo the latest acquisition that is still held.\<close>

fun stack_after :: "'r list \<Rightarrow> 'r res_event list \<Rightarrow> 'r list option" where
  "stack_after st [] = Some st"
| "stack_after st (Acquire r # es) = stack_after (r # st) es"
| "stack_after [] (Release r # es) = None"
| "stack_after (t # st) (Release r # es) = (if r = t then stack_after st es else None)"

section \<open>Lemmas\<close>

lemmas mod_defs = acquire_def release_def mod_printk_def err_chrdev_def err_buf_def err_cdev_def err_class_def

lemma stack_after_append:
  "stack_after st (es @ fs) = (case stack_after st es of None \<Rightarrow> None | Some st' \<Rightarrow> stack_after st' fs)"
  by (induction st es rule: stack_after.induct) auto

lemma stack_held: "stack_after st es = Some st' \<Longrightarrow> held_after (mset st) es = Some (mset st')"
  by (induction st es rule: stack_after.induct) (auto split: if_splits)

lemma init_events:
  "m_events (snd (chardev_init e m)) = m_events m @
     (if alloc_ret e < 0 then []
      else Acquire R_region #
        (if kmalloc_ret e = None then [Release R_region]
         else Acquire R_buf #
           (if cdev_add_ret e < 0 then [Release R_buf, Release R_region]
            else Acquire R_cdev #
              (if class_err e \<noteq> None then [Release R_cdev, Release R_buf, Release R_region]
               else Acquire R_class #
                 (if device_err e \<noteq> None
                  then [Release R_class, Release R_cdev, Release R_buf, Release R_region]
                  else [Acquire R_device])))))"
  by (auto simp: chardev_init_def mod_defs Let_def split: option.splits)

lemma init_ret:
  "init_env_ok e \<Longrightarrow> fst (chardev_init e m) = 0 \<longleftrightarrow>
     \<not> alloc_ret e < 0 \<and> kmalloc_ret e \<noteq> None \<and> \<not> cdev_add_ret e < 0 \<and> class_err e = None \<and> device_err e = None"
  by (auto simp: chardev_init_def init_env_ok_def Let_def split: option.splits)

interpretation cmod: module_lifecycle chardev_init chardev_exit m_events init_env_ok chardev_resources
proof (unfold_locales, goal_cases)
  case (1 e s)
  then show ?case using init_ret [of e s] by (auto simp: init_events held_after_append)
next
  case (2 e s)
  then show ?case
    using init_ret [of e s] by (simp add: init_events held_after_append chardev_resources_def add_mset_commute)
next
  case (3 s)
  then show ?case by (simp add: chardev_exit_def mod_defs held_after_append chardev_resources_def)
qed

section \<open>Properties\<close>

text \<open>
  C7. However the kernel calls of \<^verbatim>\<open>chardev_init\<close> turn out, a failing init leaves nothing held and has
  released what it acquired in exactly the reverse order; a successful one holds the region, the
  buffer, the cdev, the class and the device.
\<close>

theorem chardev_init_unwinds:
  assumes "init_env_ok e" and "stack_after [] (m_events m) = Some []"
  shows "stack_after [] (m_events (snd (chardev_init e m))) =
     (if fst (chardev_init e m) = 0 then Some [R_device, R_class, R_cdev, R_buf, R_region] else Some [])"
  using assms init_ret [OF assms(1), of m] by (auto simp: init_events stack_after_append)

definition mod0 :: chardev_mod where
  "mod0 = \<lparr>m_dev = fresh_dev [], m_events = [], m_log = []\<rparr>"

definition env_class_fails :: init_env where
  "env_class_fails = \<lparr>alloc_ret = 0, kmalloc_ret = Some (replicate BUF_SIZE NUL), cdev_add_ret = 0,
     class_err = Some (- 17), device_err = None\<rparr>"

theorem chardev_init_unwinds_witness:
  "stack_after [] (m_events (snd (chardev_init env_class_fails mod0))) = Some []"
  using chardev_init_unwinds [of env_class_fails mod0]
  by (simp add: env_class_fails_def mod0_def init_env_ok_def chardev_init_def Let_def)

text \<open>
  C8. Any number of attempts to load the driver, with any failures, each successful load followed by
  \<^verbatim>\<open>chardev_exit\<close>: nothing is leaked and nothing is released that was not held.
\<close>

theorem chardev_load_unload_cycles:
  assumes "list_all init_env_ok es" and "held_after {#} (m_events m) = Some {#}"
  shows "held_after {#} (m_events (foldl (\<lambda>m e. let (r, t) = chardev_init e m in
     if r = 0 then chardev_exit t else t) m es)) = Some {#}"
  using assms by (rule cmod.cycles_release)

theorem chardev_load_unload_cycles_witness:
  "held_after {#} (m_events (foldl (\<lambda>m e. let (r, t) = chardev_init e m in
     if r = 0 then chardev_exit t else t) mod0
       [env_class_fails, env_class_fails\<lparr>class_err := None\<rparr>, env_class_fails\<lparr>alloc_ret := - 12\<rparr>])) = Some {#}"
  by (rule chardev_load_unload_cycles) (simp_all add: env_class_fails_def init_env_ok_def mod0_def)

text \<open>
  A device whose init succeeded satisfies the invariant all file operations rely on, is empty and
  echoes writes.
\<close>

theorem chardev_init_establishes_inv:
  assumes "init_env_ok e" and "fst (chardev_init e m) = 0"
  shows "chardev_inv \<lparr>g_dev = m_dev (snd (chardev_init e m)), klog = []\<rparr>
     \<and> chardev_content \<lparr>g_dev = m_dev (snd (chardev_init e m)), klog = []\<rparr> = []
     \<and> echo (m_dev (snd (chardev_init e m))) = 1"
  using assms
  by (auto simp: chardev_init_def init_env_ok_def mod_defs Let_def chardev_inv_def chardev_content_def
      split: option.splits if_splits)

theorem chardev_init_establishes_inv_witness:
  "chardev_inv \<lparr>g_dev = m_dev (snd (chardev_init (env_class_fails\<lparr>class_err := None\<rparr>) mod0)), klog = []\<rparr>"
  using chardev_init_establishes_inv [of "env_class_fails\<lparr>class_err := None\<rparr>" mod0]
  by (simp add: env_class_fails_def init_env_ok_def chardev_init_def Let_def)

end
