(* ===== verification/Thread_Pool.thy ===== *)
theory Thread_Pool
  imports Contracts
begin

text \<open>
  A fixed number of threads with private states over a shared state, interleaved step by step:
  \<open>tstep i g l\<close> is the next step of thread \<open>i\<close>, \<open>None\<close> when it is blocked or has returned. The locale
  \<open>thread_pool\<close> asks for an invariant over single thread steps, a rank that every step of a thread
  lowers, and progress, and is then a \<open>bounded_system\<close>. The mutex, read-write lock, thread-local and
  create/join demos are instances.
\<close>

definition pool_step ::
  "(nat \<Rightarrow> 'g \<Rightarrow> 'l \<Rightarrow> ('g \<times> 'l) option) \<Rightarrow> 'g \<times> 'l list \<Rightarrow> 'g \<times> 'l list \<Rightarrow> bool" where
  "pool_step tstep s t \<longleftrightarrow>
     (\<exists>i < length (snd s). \<exists>g l. tstep i (fst s) (snd s ! i) = Some (g, l) \<and> t = (g, (snd s)[i := l]))"

text \<open>The step of one thread of the pool.\<close>

definition pool_thread ::
  "(nat \<Rightarrow> 'g \<Rightarrow> 'l \<Rightarrow> ('g \<times> 'l) option) \<Rightarrow> nat \<Rightarrow> 'g \<times> 'l list \<Rightarrow> ('g \<times> 'l list) option" where
  "pool_thread tstep i s =
     (if i < length (snd s) then map_option (\<lambda>(g, l). (g, (snd s)[i := l])) (tstep i (fst s) (snd s ! i)) else None)"

text \<open>A schedule picks the thread that moves next; one that cannot move is skipped.\<close>

primrec pool_sched ::
  "(nat \<Rightarrow> 'g \<Rightarrow> 'l \<Rightarrow> ('g \<times> 'l) option) \<Rightarrow> nat list \<Rightarrow> 'g \<times> 'l list \<Rightarrow> 'g \<times> 'l list" where
  "pool_sched tstep [] s = s"
| "pool_sched tstep (i # is) s = pool_sched tstep is
     (if i < length (snd s)
      then case tstep i (fst s) (snd s ! i) of Some (g, l) \<Rightarrow> (g, (snd s)[i := l]) | None \<Rightarrow> s
      else s)"

lemma pool_stepI: "i < length ls \<Longrightarrow> tstep i g (ls ! i) = Some (g', l') \<Longrightarrow> pool_step tstep (g, ls) (g', ls[i := l'])"
  by (auto simp: pool_step_def)

lemma sched_reaches: "(pool_step tstep)\<^sup>*\<^sup>* s (pool_sched tstep is s)"
proof (induction "is" arbitrary: s)
  case Nil
  then show ?case by simp
next
  case (Cons i "is")
  let ?t = "if i < length (snd s)
      then case tstep i (fst s) (snd s ! i) of Some (g, l) \<Rightarrow> (g, (snd s)[i := l]) | None \<Rightarrow> s else s"
  have "(pool_step tstep)\<^sup>*\<^sup>* s ?t" using pool_stepI [of i "snd s" tstep "fst s"]
    by (auto split: option.splits)
  then show ?case using Cons.IH [of ?t] by simp
qed

lemma sum_list_upd:
  "i < length xs \<Longrightarrow> sum_list (map f (xs[i := x])) + f (xs ! i) = sum_list (map f xs) + (f x :: nat)"
  by (induction xs arbitrary: i) (auto split: nat.splits)

lemma pool_length: "(pool_step tstep)\<^sup>*\<^sup>* s t \<Longrightarrow> length (snd t) = length (snd s)"
  by (induction rule: rtranclp_induct) (auto simp: pool_step_def)

text \<open>The threads whose private state satisfies a predicate.\<close>

definition where_in :: "('l \<Rightarrow> bool) \<Rightarrow> 'l list \<Rightarrow> nat set" where
  "where_in P ls = {i. i < length ls \<and> P (ls ! i)}"

lemma where_in_update [simp]:
  "i < length ls \<Longrightarrow> where_in P (ls[i := l]) = (if P l then insert i (where_in P ls) else where_in P ls - {i})"
  by (auto simp: where_in_def nth_list_update)

lemma where_in_iff [simp]: "i < length ls \<Longrightarrow> i \<in> where_in P ls \<longleftrightarrow> P (ls ! i)"
  by (simp add: where_in_def)

lemma list_all_update: "list_all P ls \<Longrightarrow> P l \<Longrightarrow> list_all P (ls[i := l])"
  using set_update_subset_insert [of ls i l] by (auto simp: list_all_iff)

lemma list_all_at: "list_all P ls \<Longrightarrow> i < length ls \<Longrightarrow> P (ls ! i)"
  by (simp add: list_all_length)

locale thread_pool =
  fixes start :: "'g \<times> 'l list \<Rightarrow> bool"
    and tstep :: "nat \<Rightarrow> 'g \<Rightarrow> 'l \<Rightarrow> ('g \<times> 'l) option"
    and pinv :: "'g \<Rightarrow> 'l list \<Rightarrow> bool"
    and rank :: "'l \<Rightarrow> nat"
    and returned :: "'l \<Rightarrow> bool"
  assumes start_inv: "start (g, ls) \<Longrightarrow> pinv g ls"
    and tstep_inv: "pinv g ls \<Longrightarrow> i < length ls \<Longrightarrow> tstep i g (ls ! i) = Some (g', l') \<Longrightarrow> pinv g' (ls[i := l'])"
    and tstep_rank: "pinv g ls \<Longrightarrow> i < length ls \<Longrightarrow> tstep i g (ls ! i) = Some (g', l') \<Longrightarrow> rank l' < rank (ls ! i)"
    and tprogress: "pinv g ls \<Longrightarrow> \<not> list_all returned ls \<Longrightarrow> \<exists>i < length ls. tstep i g (ls ! i) \<noteq> None"

sublocale thread_pool \<subseteq> bounded_system start "pool_step tstep" "\<lambda>s. pinv (fst s) (snd s)"
  "\<lambda>s. sum_list (map rank (snd s))" "\<lambda>s. list_all returned (snd s)"
proof (unfold_locales, goal_cases)
  case (1 s)
  then show ?case using start_inv [of "fst s" "snd s"] by simp
next
  case (2 s t)
  then show ?case using tstep_inv by (fastforce simp: pool_step_def)
next
  case (3 s t)
  then obtain i g l where i: "i < length (snd s)" "tstep i (fst s) (snd s ! i) = Some (g, l)" "t = (g, (snd s)[i := l])"
    by (auto simp: pool_step_def)
  then have "rank l < rank (snd s ! i)" using tstep_rank 3 by blast
  then show ?case using i sum_list_upd [of i "snd s" rank l] by simp
next
  case (4 s)
  then obtain i where i: "i < length (snd s)" "tstep i (fst s) (snd s ! i) \<noteq> None"
    using tprogress by blast
  then obtain g l where "tstep i (fst s) (snd s ! i) = Some (g, l)" by (metis option.exhaust surj_pair)
  with i(1) show ?case unfolding pool_step_def by blast
qed

end
