(* ===== verification/Chardev_Conc.thy ===== *)
theory Chardev_Conc
  imports Chardev Thread_Pool
begin

text \<open>
  The file operations of the character device driver called by any number of processes at once. Here the handlers of
  \<^verbatim>\<open>10_device_driver/chardev.c\<close> are taken apart: taking the mutex, every statement on the device, and releasing the mutex
  are single steps, and processes interleave between any two of them. What a handler does before it takes the mutex
  (\<^verbatim>\<open>copy_from_user\<close> of \<^verbatim>\<open>CHARDEV_SECHO\<close>) and after it released it (the log line of two requests, \<^verbatim>\<open>copy_to_user\<close> of \<^verbatim>\<open>CHARDEV_GSIZE\<close>)
  is outside.

  Shown: the driver is linearizable. The calls take effect one after the other, each between its start and its return,
  with the results and the device state of the atomic handlers of the theory \<open>Chardev\<close>; no process is blocked for ever.
\<close>

section \<open>Handlers step by step\<close>

text \<open>Where a process stands inside the critical section, with the local variables that are still needed.\<close>

datatype hpc =
    R_check user_copy size_t
  | R_copy user_copy size_t
  | R_move size_t "byte list"
  | R_sub size_t "byte list"
  | R_log size_t "byte list"
  | W_check user_copy "nat \<Rightarrow> byte" size_t
  | W_copy user_copy "nat \<Rightarrow> byte" size_t
  | W_add size_t
  | W_log size_t
  | Z_len
  | Z_mem
  | S_load user_copy
  | E_store c_int
  | H_unlock int "byte list"

definition gsize_result :: "user_copy \<Rightarrow> c_int \<Rightarrow> int \<times> byte list" where
  "gsize_result ctu val = (let (out, uncopied) = ctu (int_bytes val) in (if uncopied \<noteq> 0 then - EFAULT else 0, out))"

abbreviation on_dev :: "(chardev_data \<Rightarrow> chardev_data) \<Rightarrow> kernel \<Rightarrow> kernel" where
  "on_dev f k \<equiv> k\<lparr>g_dev := f (g_dev k)\<rparr>"

text \<open>One statement inside the critical section; \<open>H_unlock\<close> carries what the handler will return.\<close>

definition handler_step :: "hpc \<Rightarrow> kernel \<Rightarrow> hpc \<times> kernel" where
  "handler_step h k =
     (case h of
        R_check ctu cnt \<Rightarrow> if buf_len (g_dev k) = 0 then (H_unlock 0 [], k) else (R_copy ctu (min cnt (buf_len (g_dev k))), k)
      | R_copy ctu n \<Rightarrow>
          let (out, uncopied) = ctu (take (unat n) (buf (g_dev k)))
          in if uncopied \<noteq> 0 then (H_unlock (- EFAULT) out, k) else (R_move n out, k)
      | R_move n out \<Rightarrow> (R_sub n out, on_dev (\<lambda>d. d\<lparr>buf := memmove_down (buf d) (unat n) (unat (buf_len d - n))\<rparr>) k)
      | R_sub n out \<Rightarrow> (R_log n out, on_dev (\<lambda>d. d\<lparr>buf_len := buf_len d - n\<rparr>) k)
      | R_log n out \<Rightarrow> (H_unlock (sint n) out, printk (Log_read (sint n)) k)
      | W_check cfu ubuf cnt \<Rightarrow>
          let space = of_nat BUF_SIZE - buf_len (g_dev k)
          in if space = 0 then (H_unlock (- ENOSPC) [], k) else (W_copy cfu ubuf (min cnt space), k)
      | W_copy cfu ubuf n \<Rightarrow>
          let (inb, uncopied) = cfu (user_block ubuf (unat n));
              k' = on_dev (\<lambda>d. d\<lparr>buf := put_at (buf d) (unat (buf_len d)) inb\<rparr>) k
          in if uncopied \<noteq> 0 then (H_unlock (- EFAULT) [], k') else (W_add n, k')
      | W_add n \<Rightarrow> (W_log n, on_dev (\<lambda>d. d\<lparr>buf_len := buf_len d + n\<rparr>) k)
      | W_log n \<Rightarrow>
          (H_unlock (sint n) [],
           printk (if echo (g_dev k) \<noteq> 0
                   then Log_write_echo (sint n) (cstr (take (unat n) (drop (unat (buf_len (g_dev k) - n)) (buf (g_dev k)))))
                   else Log_write (sint n)) k)
      | Z_len \<Rightarrow> (Z_mem, on_dev (\<lambda>d. d\<lparr>buf_len := 0\<rparr>) k)
      | Z_mem \<Rightarrow> (H_unlock 0 [], on_dev (\<lambda>d. d\<lparr>buf := put_at (buf d) 0 (replicate BUF_SIZE NUL)\<rparr>) k)
      | S_load ctu \<Rightarrow> (case gsize_result ctu (ucast (buf_len (g_dev k))) of (r, out) \<Rightarrow> (H_unlock r out, k))
      | E_store val \<Rightarrow> (H_unlock 0 [], on_dev (\<lambda>d. d\<lparr>echo := val\<rparr>) k)
      | H_unlock r out \<Rightarrow> (H_unlock r out, k))"

text \<open>
  How a call begins: \<open>Inl\<close> the result of a call that never takes the mutex, \<open>Inr\<close> where it stands once it has it. The value
  \<^verbatim>\<open>CHARDEV_GSIZE\<close> loads is copied to the user after the release; the copy sees nothing of the device, so its outcome is
  fixed when the value is loaded.
\<close>

definition handler_entry :: "chardev_op \<Rightarrow> (int \<times> byte list) + hpc" where
  "handler_entry op =
     (case op of
        Op_read ctu cnt \<Rightarrow> Inr (R_check ctu cnt)
      | Op_write cfu ubuf cnt \<Rightarrow> Inr (W_check cfu ubuf cnt)
      | Op_llseek off wh \<Rightarrow> Inl (- ESPIPE, [])
      | Op_ioctl ctu cfu cmd uarg \<Rightarrow>
          if cmd = CHARDEV_RESET then Inr Z_len
          else if cmd = CHARDEV_GSIZE then Inr (S_load ctu)
          else if cmd = CHARDEV_SECHO
          then (let (inb, uncopied) = cfu (user_block uarg 4)
                in if uncopied \<noteq> 0 then Inl (- EFAULT, []) else Inr (E_store (bytes_int inb)))
          else Inl (- ENOTTY, []))"

text \<open>What two requests log once they have released the mutex; the one that failed to copy logs nothing.\<close>

definition late_log :: "chardev_op \<Rightarrow> int \<Rightarrow> kernel \<Rightarrow> kernel" where
  "late_log op r k =
     (case op of
        Op_ioctl ctu cfu cmd uarg \<Rightarrow>
          if r \<noteq> 0 then k
          else if cmd = CHARDEV_RESET then printk Log_reset k
          else if cmd = CHARDEV_SECHO then printk (Log_secho (sint (bytes_int (fst (cfu (user_block uarg 4)))))) k
          else k
      | _ \<Rightarrow> k)"

section \<open>Processes\<close>

datatype ppc = P_idle | P_want chardev_op hpc | P_in chardev_op hpc | P_out chardev_op int "byte list"

text \<open>A process has calls to make and results it got.\<close>

record proc =
  p_todo :: "chardev_op list"
  p_pc :: ppc
  p_got :: "(chardev_op \<times> int \<times> byte list) list"

text \<open>The kernel, and the calls in the order in which they took effect, with the process and the result.\<close>

record drv =
  drv_k :: kernel
  drv_hist :: "(nat \<times> chardev_op \<times> int \<times> byte list) list"

definition effect_at :: "nat \<Rightarrow> chardev_op \<Rightarrow> int \<Rightarrow> byte list \<Rightarrow> drv \<Rightarrow> drv" where
  "effect_at i op r out g = g\<lparr>drv_hist := drv_hist g @ [(i, op, r, out)]\<rparr>"

definition proc_step :: "nat \<Rightarrow> drv \<Rightarrow> proc \<Rightarrow> (drv \<times> proc) option" where
  "proc_step i g l =
     (case p_pc l of
        P_idle \<Rightarrow>
          (case p_todo l of
             [] \<Rightarrow> None
           | op # ops \<Rightarrow>
               (case handler_entry op of
                  Inl (r, out) \<Rightarrow> Some (effect_at i op r out g, l\<lparr>p_todo := ops, p_pc := P_out op r out\<rparr>)
                | Inr h \<Rightarrow> Some (g, l\<lparr>p_todo := ops, p_pc := P_want op h\<rparr>)))
      | P_want op h \<Rightarrow>
          (case mutex_lock (g_dev (drv_k g)) of
             None \<Rightarrow> None
           | Some d \<Rightarrow> Some (g\<lparr>drv_k := (drv_k g)\<lparr>g_dev := d\<rparr>\<rparr>, l\<lparr>p_pc := P_in op h\<rparr>))
      | P_in op h \<Rightarrow>
          (case h of
             H_unlock r out \<Rightarrow>
               Some (effect_at i op r out (g\<lparr>drv_k := on_dev mutex_unlock (drv_k g)\<rparr>), l\<lparr>p_pc := P_out op r out\<rparr>)
           | _ \<Rightarrow> (case handler_step h (drv_k g) of (h', k') \<Rightarrow> Some (g\<lparr>drv_k := k'\<rparr>, l\<lparr>p_pc := P_in op h'\<rparr>)))
      | P_out op r out \<Rightarrow>
          Some (g\<lparr>drv_k := late_log op r (drv_k g)\<rparr>, l\<lparr>p_pc := P_idle, p_got := p_got l @ [(op, r, out)]\<rparr>))"

section \<open>A handler on its own\<close>

primrec hrank :: "hpc \<Rightarrow> nat" where
  "hrank (R_check c n) = 6" | "hrank (R_copy c n) = 5" | "hrank (R_move n out) = 4" | "hrank (R_sub n out) = 3" | "hrank (R_log n out) = 2"
| "hrank (W_check c u n) = 5" | "hrank (W_copy c u n) = 4" | "hrank (W_add n) = 3" | "hrank (W_log n) = 2"
| "hrank Z_len = 3" | "hrank Z_mem = 2" | "hrank (S_load c) = 2" | "hrank (E_store v) = 2" | "hrank (H_unlock r out) = 1"

lemma handler_step_rank: "1 < hrank h \<Longrightarrow> hrank (fst (handler_step h k)) < hrank h"
  by (cases h) (auto simp: handler_step_def Let_def split: prod.splits)

text \<open>What remains to be done from a point inside, when no other process interferes.\<close>

function finish :: "hpc \<Rightarrow> kernel \<Rightarrow> int \<times> byte list \<times> chardev_data" where
  "finish h k = (case h of H_unlock r out \<Rightarrow> (r, out, mutex_unlock (g_dev k))
     | _ \<Rightarrow> finish (fst (handler_step h k)) (snd (handler_step h k)))"
  by pat_completeness auto
termination
  by (relation "measure (hrank \<circ> fst)") (auto simp: handler_step_def Let_def split: prod.splits)

declare finish.simps [simp del]

lemma finish_unlock [simp]: "finish (H_unlock r out) k = (r, out, mutex_unlock (g_dev k))"
  by (simp add: finish.simps)

lemma finish_step: "1 < hrank h \<Longrightarrow> handler_step h k = (h', k') \<Longrightarrow> finish h' k' = finish h k"
  by (cases h) (simp_all add: finish.simps [of _ k])

lemma unlock_locked [simp]: "\<not> lock d \<Longrightarrow> mutex_unlock (d\<lparr>lock := True\<rparr>) = d"
  by (cases d) (simp add: mutex_unlock_def)

text \<open>Entered with the mutex just taken, that is what the atomic handler does.\<close>

lemma finish_entry:
  assumes "\<not> lock (g_dev k)" and "handler_entry op = Inr h"
  shows "\<exists>k'. chardev_fops k op = Some (fst (finish h (on_dev (\<lambda>d. d\<lparr>lock := True\<rparr>) k)), fst (snd (finish h (on_dev (\<lambda>d. d\<lparr>lock := True\<rparr>) k))), k')
    \<and> g_dev k' = snd (snd (finish h (on_dev (\<lambda>d. d\<lparr>lock := True\<rparr>) k)))"
proof (cases op)
  case (Op_read ctu cnt)
  with assms show ?thesis
    by (auto simp: handler_entry_def chardev_fops_def chardev_read_def mutex_lock_def finish.simps [of "R_check c n" for c n]
      finish.simps [of "R_copy c n" for c n] finish.simps [of "R_move n out" for n out] finish.simps [of "R_sub n out" for n out]
      finish.simps [of "R_log n out" for n out] handler_step_def Let_def printk_def split: prod.splits)
next
  case (Op_write cfu ubuf cnt)
  with assms show ?thesis
    by (auto simp: handler_entry_def chardev_fops_def chardev_write_def mutex_lock_def finish.simps [of "W_check c u n" for c u n]
      finish.simps [of "W_copy c u n" for c u n] finish.simps [of "W_add n" for n] finish.simps [of "W_log n" for n]
      handler_step_def Let_def printk_def split: prod.splits)
next
  case (Op_llseek off wh)
  with assms show ?thesis by (simp add: handler_entry_def)
next
  case (Op_ioctl ctu cfu cmd uarg)
  with assms show ?thesis
    by (auto simp: handler_entry_def chardev_fops_def chardev_ioctl_def mutex_lock_def finish.simps [of Z_len] finish.simps [of Z_mem]
      finish.simps [of "S_load c" for c] finish.simps [of "E_store v" for v] gsize_result_def handler_step_def Let_def printk_def
      split: prod.splits if_splits)
qed

section \<open>Calls one after the other\<close>

definition fop_step :: "kernel \<Rightarrow> chardev_op \<Rightarrow> (int \<times> byte list) \<times> kernel" where
  "fop_step k op = (case chardev_fops k op of Some (r, out, k') \<Rightarrow> ((r, out), k') | None \<Rightarrow> ((0, []), k))"

text \<open>A history is explained by the atomic handlers: run in this order they return these results and end in \<open>k'\<close>.\<close>

definition replays :: "kernel \<Rightarrow> (nat \<times> chardev_op \<times> int \<times> byte list) list \<Rightarrow> kernel \<Rightarrow> bool" where
  "replays k hist k' \<longleftrightarrow> outputs fop_step k (map (fst \<circ> snd) hist) = (map (snd \<circ> snd) hist, k')"

lemma outputs_snoc:
  "outputs step s (xs @ [x]) = (case outputs step s xs of (rs, t) \<Rightarrow> case step t x of (r, u) \<Rightarrow> (rs @ [r], u))"
  by (induction xs arbitrary: s) (auto split: prod.splits)

lemma replays_Nil [simp]: "replays k [] k' \<longleftrightarrow> k' = k"
  by (auto simp: replays_def)

lemma replays_snoc: "replays k hist k1 \<Longrightarrow> chardev_fops k1 op = Some (r, out, k2) \<Longrightarrow> replays k (hist @ [(i, op, r, out)]) k2"
  by (simp add: replays_def outputs_snoc fop_step_def)

text \<open>The handlers see nothing of the kernel but the device.\<close>

lemma fops_dev:
  assumes "g_dev k1 = g_dev k2" and "chardev_fops k1 op = Some (r, out, k1')"
  shows "\<exists>k2'. chardev_fops k2 op = Some (r, out, k2') \<and> g_dev k2' = g_dev k1'"
proof (cases op)
  case (Op_read ctu cnt)
  with assms show ?thesis
    by (auto simp: chardev_fops_def chardev_read_def Let_def printk_def split: option.splits prod.splits if_splits)
next
  case (Op_write cfu ubuf cnt)
  with assms show ?thesis
    by (auto simp: chardev_fops_def chardev_write_def Let_def printk_def split: option.splits prod.splits if_splits)
next
  case (Op_llseek off wh)
  with assms show ?thesis by (auto simp: chardev_fops_def)
next
  case (Op_ioctl ctu cfu cmd uarg)
  with assms show ?thesis
    by (auto simp: chardev_fops_def chardev_ioctl_def Let_def printk_def split: option.splits prod.splits if_splits)
qed

lemma entry_outside:
  "handler_entry op = Inl (r, out) \<Longrightarrow> chardev_fops k op = Some (r, out, k)"
  by (cases op) (auto simp: handler_entry_def chardev_fops_def chardev_llseek_def chardev_ioctl_def Let_def split: if_splits prod.splits)

section \<open>Invariant\<close>

fun inside :: "ppc \<Rightarrow> bool" where
  "inside (P_in op h) = True"
| "inside pc = False"

fun current :: "ppc \<Rightarrow> chardev_op list" where
  "current (P_want op h) = [op]"
| "current (P_in op h) = [op]"
| "current pc = []"

fun unreported :: "ppc \<Rightarrow> (chardev_op \<times> int \<times> byte list) list" where
  "unreported (P_out op r out) = [(op, r, out)]"
| "unreported pc = []"

fun entered_right :: "ppc \<Rightarrow> bool" where
  "entered_right (P_want op h) = (handler_entry op = Inr h)"
| "entered_right pc = True"

definition mine :: "nat \<Rightarrow> (nat \<times> 'x) list \<Rightarrow> 'x list" where
  "mine i hist = map snd (filter (\<lambda>e. fst e = i) hist)"

lemma mine_snoc [simp]: "mine i (hist @ [(j, x)]) = (if i = j then mine i hist @ [x] else mine i hist)"
  by (simp add: mine_def)

text \<open>One process: its part of the history is what it was told or is about to be told, its calls are made in order.\<close>

definition caller_ok :: "chardev_op list \<Rightarrow> (chardev_op \<times> int \<times> byte list) list \<Rightarrow> proc \<Rightarrow> bool" where
  "caller_ok q h l \<longleftrightarrow> h = p_got l @ unreported (p_pc l) \<and> map fst h @ current (p_pc l) @ p_todo l = q \<and> entered_right (p_pc l)"

text \<open>The device: as the history left it, or in the hands of one process that will finish as the atomic handler does.\<close>

definition held_by :: "kernel \<Rightarrow> kernel \<Rightarrow> chardev_op \<Rightarrow> hpc \<Rightarrow> bool" where
  "held_by kq k op h \<longleftrightarrow> lock (g_dev k) \<and> (\<exists>kr. chardev_fops kq op = Some (fst (finish h k), fst (snd (finish h k)), kr)
     \<and> g_dev kr = snd (snd (finish h k)))"

definition dev_ok :: "kernel \<Rightarrow> drv \<Rightarrow> proc list \<Rightarrow> bool" where
  "dev_ok kq g ls \<longleftrightarrow>
     \<not> lock (g_dev kq)
     \<and> (if where_in (\<lambda>l. inside (p_pc l)) ls = {} then g_dev (drv_k g) = g_dev kq
        else \<exists>i op h. where_in (\<lambda>l. inside (p_pc l)) ls = {i} \<and> p_pc (ls ! i) = P_in op h \<and> held_by kq (drv_k g) op h)"

definition drv_inv :: "kernel \<Rightarrow> chardev_op list list \<Rightarrow> drv \<Rightarrow> proc list \<Rightarrow> bool" where
  "drv_inv k0 qs g ls \<longleftrightarrow> length ls = length qs
     \<and> (\<forall>i < length ls. caller_ok (qs ! i) (mine i (drv_hist g)) (ls ! i))
     \<and> (\<exists>kq. replays k0 (drv_hist g) kq \<and> dev_ok kq g ls)"

definition drv_start :: "kernel \<Rightarrow> chardev_op list list \<Rightarrow> drv \<times> proc list" where
  "drv_start k qs = (\<lparr>drv_k = k, drv_hist = []\<rparr>, map (\<lambda>q. \<lparr>p_todo = q, p_pc = P_idle, p_got = []\<rparr>) qs)"

lemma late_log_dev [simp]: "g_dev (late_log op r k) = g_dev k"
  by (cases op) (simp_all add: late_log_def printk_def)

lemma handler_step_lock: "lock (g_dev (snd (handler_step h k))) = lock (g_dev k)"
  by (cases h) (auto simp: handler_step_def Let_def printk_def split: prod.splits)

lemma finish_lock: "\<not> lock (snd (snd (finish h k)))"
  by (induction h k rule: finish.induct) (auto simp: finish.simps mutex_unlock_def split: hpc.splits)

text \<open>The kinds of steps, with the process state they start from.\<close>

lemma proc_step_cases:
  assumes "proc_step i g l = Some (g', l')"
  obtains (Outside) op ops r out where "p_pc l = P_idle" "p_todo l = op # ops" "handler_entry op = Inl (r, out)"
      "g' = effect_at i op r out g" "l' = l\<lparr>p_todo := ops, p_pc := P_out op r out\<rparr>"
  | (Begin) op ops h where "p_pc l = P_idle" "p_todo l = op # ops" "handler_entry op = Inr h"
      "g' = g" "l' = l\<lparr>p_todo := ops, p_pc := P_want op h\<rparr>"
  | (Lock) op h where "p_pc l = P_want op h" "\<not> lock (g_dev (drv_k g))"
      "g' = g\<lparr>drv_k := on_dev (\<lambda>d. d\<lparr>lock := True\<rparr>) (drv_k g)\<rparr>" "l' = l\<lparr>p_pc := P_in op h\<rparr>"
  | (Work) op h h' k' where "p_pc l = P_in op h" "1 < hrank h" "handler_step h (drv_k g) = (h', k')"
      "g' = g\<lparr>drv_k := k'\<rparr>" "l' = l\<lparr>p_pc := P_in op h'\<rparr>"
  | (Unlock) op r out where "p_pc l = P_in op (H_unlock r out)"
      "g' = effect_at i op r out (g\<lparr>drv_k := on_dev mutex_unlock (drv_k g)\<rparr>)" "l' = l\<lparr>p_pc := P_out op r out\<rparr>"
  | (Report) op r out where "p_pc l = P_out op r out"
      "g' = g\<lparr>drv_k := late_log op r (drv_k g)\<rparr>" "l' = l\<lparr>p_pc := P_idle, p_got := p_got l @ [(op, r, out)]\<rparr>"
proof (cases "p_pc l")
  case P_idle
  with assms that(1,2) show ?thesis
    by (auto simp: proc_step_def split: list.splits sum.splits)
next
  case (P_want op h)
  with assms that(3) show ?thesis by (auto simp: proc_step_def mutex_lock_def split: if_splits)
next
  case (P_in op h)
  show ?thesis
  proof (cases "1 < hrank h")
    case True
    with P_in assms that(4) show ?thesis by (cases h) (auto simp: proc_step_def split: prod.splits)
  next
    case False
    with P_in assms that(5) show ?thesis by (cases h) (auto simp: proc_step_def)
  qed
next
  case (P_out op r out)
  with assms that(6) show ?thesis by (auto simp: proc_step_def)
qed


section \<open>Every step keeps the invariant\<close>

text \<open>Only the process that moves has to be looked at.\<close>

lemma procs_ok_update:
  assumes "\<forall>j < length ls. caller_ok (qs ! j) (mine j hist) (ls ! j)" and "caller_ok (qs ! i) (mine i hist') l'"
    and "\<And>j. j \<noteq> i \<Longrightarrow> mine j hist' = mine j hist"
  shows "\<forall>j < length (ls[i := l']). caller_ok (qs ! j) (mine j hist') (ls[i := l'] ! j)"
proof (intro allI impI)
  fix j
  assume "j < length (ls[i := l'])"
  then show "caller_ok (qs ! j) (mine j hist') (ls[i := l'] ! j)" using assms by (cases "j = i") simp_all
qed

lemma proc_step_caller_ok:
  assumes "caller_ok q (mine i (drv_hist g)) l" and "proc_step i g l = Some (g', l')"
  shows "caller_ok q (mine i (drv_hist g')) l'"
  using assms(2) by (cases rule: proc_step_cases) (use assms(1) in \<open>auto simp: caller_ok_def effect_at_def\<close>)

lemma proc_step_mine_other:
  assumes "proc_step i g l = Some (g', l')" and "j \<noteq> i"
  shows "mine j (drv_hist g') = mine j (drv_hist g)"
  using assms(1) by (cases rule: proc_step_cases) (use assms(2) in \<open>auto simp: effect_at_def\<close>)

text \<open>The device, seen from the one process that holds it or from none.\<close>

abbreviation insiders :: "proc list \<Rightarrow> nat set" where
  "insiders ls \<equiv> where_in (\<lambda>l. inside (p_pc l)) ls"

lemma dev_ok_idle: "insiders ls = {} \<Longrightarrow> dev_ok kq g ls \<longleftrightarrow> \<not> lock (g_dev kq) \<and> g_dev (drv_k g) = g_dev kq"
  by (simp add: dev_ok_def)

lemma dev_ok_held: "insiders ls = {i} \<Longrightarrow> p_pc (ls ! i) = P_in op h \<Longrightarrow> dev_ok kq g ls \<longleftrightarrow> \<not> lock (g_dev kq) \<and> held_by kq (drv_k g) op h"
  by (auto simp: dev_ok_def)

lemma dev_ok_unlocked: "dev_ok kq g ls \<Longrightarrow> \<not> lock (g_dev (drv_k g)) \<Longrightarrow> insiders ls = {}"
  by (auto simp: dev_ok_def held_by_def split: if_splits)

lemma dev_ok_insider:
  assumes "dev_ok kq g ls" and "i < length ls" and "p_pc (ls ! i) = P_in op h"
  shows "insiders ls = {i}" and "held_by kq (drv_k g) op h"
proof -
  have i: "i \<in> insiders ls" using assms by simp
  then obtain j op' h' where j: "insiders ls = {j}" "p_pc (ls ! j) = P_in op' h'" "held_by kq (drv_k g) op' h'"
    using assms(1) by (auto simp: dev_ok_def split: if_splits)
  with i assms(3) show "insiders ls = {i}" and "held_by kq (drv_k g) op h" by auto
qed

text \<open>A step outside the critical section, of a process that stays outside, leaves the device as it is.\<close>

lemma handler_step_dev:
  "g_dev k1 = g_dev k2 \<Longrightarrow>
     fst (handler_step h k1) = fst (handler_step h k2) \<and> g_dev (snd (handler_step h k1)) = g_dev (snd (handler_step h k2))"
  by (cases h) (auto simp: handler_step_def Let_def printk_def split: prod.splits)

lemma finish_dev: "g_dev k1 = g_dev k2 \<Longrightarrow> finish h k1 = finish h k2"
proof (induction "hrank h" arbitrary: h k1 k2 rule: less_induct)
  case less
  have same: "fst (handler_step h k1) = fst (handler_step h k2)"
    "g_dev (snd (handler_step h k1)) = g_dev (snd (handler_step h k2))"
    using handler_step_dev [OF less.prems] by auto
  show ?case
  proof (cases "1 < hrank h")
    case True
    have "finish h k1 = finish (fst (handler_step h k1)) (snd (handler_step h k1))"
      using finish_step [OF True prod.collapse [symmetric]] by simp
    also have "\<dots> = finish (fst (handler_step h k2)) (snd (handler_step h k2))"
      using less.hyps [OF handler_step_rank [OF True] same(2)] same(1) by simp
    also have "\<dots> = finish h k2" using finish_step [OF True prod.collapse [symmetric]] by simp
    finally show ?thesis .
  next
    case False
    then show ?thesis using less.prems by (cases h) simp_all
  qed
qed

lemma held_by_dev: "g_dev k1 = g_dev k2 \<Longrightarrow> held_by kq k1 op h \<longleftrightarrow> held_by kq k2 op h"
  by (simp add: held_by_def finish_dev [of k1 k2])

lemma dev_ok_outside:
  assumes "dev_ok kq g ls" and "i < length ls" and "\<not> inside (p_pc (ls ! i))" and "\<not> inside (p_pc l')"
    and "g_dev (drv_k g') = g_dev (drv_k g)"
  shows "dev_ok kq g' (ls[i := l'])"
proof -
  have same: "insiders (ls[i := l']) = insiders ls" using assms(2-4) by simp
  have nth: "ls[i := l'] ! j = ls ! j" if "insiders ls = {j}" for j
    using that assms(2,3) by (metis nth_list_update_neq singletonI where_in_iff)
  show ?thesis using assms(1,5) held_by_dev [OF assms(5)] unfolding dev_ok_def same by (auto simp: nth split: if_splits)
qed

text \<open>Inside: taking the mutex makes the caller the only one, a statement keeps what the call will return, and releasing it
  makes the call take effect.\<close>

lemma dev_ok_lock:
  assumes "dev_ok kq g ls" and "i < length ls" and "\<not> lock (g_dev (drv_k g))" and "handler_entry op = Inr h"
    and "drv_k g' = on_dev (\<lambda>d. d\<lparr>lock := True\<rparr>) (drv_k g)" and "p_pc l' = P_in op h"
  shows "dev_ok kq g' (ls[i := l'])"
proof -
  have none: "insiders ls = {}" using dev_ok_unlocked [OF assms(1,3)] .
  then have dev: "g_dev (drv_k g) = g_dev kq" "\<not> lock (g_dev kq)" using assms(1) by (simp_all add: dev_ok_idle)
  have one: "insiders (ls[i := l']) = {i}" using none assms(2,6) by simp
  have "held_by kq (drv_k g') op h"
    using finish_entry [OF dev(2) assms(4)] finish_dev [of "drv_k g'" "on_dev (\<lambda>d. d\<lparr>lock := True\<rparr>) kq" h] dev
    by (simp add: held_by_def assms(5))
  then show ?thesis using one assms(2,6) dev by (simp add: dev_ok_held [of _ i op h])
qed

lemma dev_ok_work:
  assumes "dev_ok kq g ls" and "i < length ls" and "p_pc (ls ! i) = P_in op h" and "1 < hrank h"
    and "handler_step h (drv_k g) = (h', drv_k g')" and "p_pc l' = P_in op h'"
  shows "dev_ok kq g' (ls[i := l'])"
proof -
  have held: "insiders ls = {i}" "held_by kq (drv_k g) op h" using dev_ok_insider [OF assms(1-3)] .
  have "held_by kq (drv_k g') op h'"
    using held(2) finish_step [OF assms(4,5)] handler_step_lock [of h "drv_k g"] assms(5) by (simp add: held_by_def)
  then show ?thesis using held assms by (simp add: dev_ok_held [of _ i op h'] dev_ok_held [of _ i op h])
qed

lemma dev_ok_unlock:
  assumes "dev_ok kq g ls" and "i < length ls" and "p_pc (ls ! i) = P_in op (H_unlock r out)"
    and "drv_k g' = on_dev mutex_unlock (drv_k g)" and "\<not> inside (p_pc l')"
  shows "\<exists>kr. chardev_fops kq op = Some (r, out, kr) \<and> dev_ok kr g' (ls[i := l'])"
proof -
  have held: "insiders ls = {i}" "held_by kq (drv_k g) op (H_unlock r out)" using dev_ok_insider [OF assms(1-3)] .
  then obtain kr where kr: "chardev_fops kq op = Some (r, out, kr)" "g_dev kr = mutex_unlock (g_dev (drv_k g))"
    by (auto simp: held_by_def)
  have "insiders (ls[i := l']) = {}" using held(1) assms(2,5) by simp
  then show ?thesis using kr assms(4) by (auto simp: dev_ok_idle mutex_unlock_def)
qed

lemma proc_step_dev_ok:
  assumes "replays k0 (drv_hist g) kq" and "dev_ok kq g ls" and "i < length ls" and "entered_right (p_pc (ls ! i))"
    and "proc_step i g (ls ! i) = Some (g', l')"
  shows "\<exists>kr. replays k0 (drv_hist g') kr \<and> dev_ok kr g' (ls[i := l'])"
  using assms(5)
proof (cases rule: proc_step_cases)
  case (Outside op ops r out)
  have "dev_ok kq g' (ls[i := l'])" using dev_ok_outside [OF assms(2,3), of l' g'] Outside by (simp add: effect_at_def)
  moreover have "replays k0 (drv_hist g') kq"
    using replays_snoc [OF assms(1) entry_outside [OF Outside(3)]] Outside(4) by (simp add: effect_at_def)
  ultimately show ?thesis by blast
next
  case (Begin op ops h)
  then show ?thesis using dev_ok_outside [OF assms(2,3), of l' g'] assms(1) by auto
next
  case (Lock op h)
  then show ?thesis using dev_ok_lock [OF assms(2,3) Lock(2), of op h g' l'] assms(1,4) by auto
next
  case (Work op h h' k')
  then show ?thesis using dev_ok_work [OF assms(2,3) Work(1,2), of h' g' l'] assms(1) by auto
next
  case (Unlock op r out)
  then obtain kr where "chardev_fops kq op = Some (r, out, kr)" "dev_ok kr g' (ls[i := l'])"
    using dev_ok_unlock [OF assms(2,3) Unlock(1), of g' l'] by (auto simp: effect_at_def)
  then show ?thesis using replays_snoc [OF assms(1), of op r out kr i] Unlock(2) by (auto simp: effect_at_def)
next
  case (Report op r out)
  then show ?thesis using dev_ok_outside [OF assms(2,3), of l' g'] assms(1) by auto
qed

lemma proc_step_inv:
  assumes inv: "drv_inv k0 qs g ls" and i: "i < length ls" and step: "proc_step i g (ls ! i) = Some (g', l')"
  shows "drv_inv k0 qs g' (ls[i := l'])"
proof -
  obtain kq where kq: "replays k0 (drv_hist g) kq" "dev_ok kq g ls" and ok: "\<forall>j < length ls. caller_ok (qs ! j) (mine j (drv_hist g)) (ls ! j)"
    using inv by (auto simp: drv_inv_def)
  have "entered_right (p_pc (ls ! i))" using ok i by (simp add: caller_ok_def)
  then have "\<exists>kr. replays k0 (drv_hist g') kr \<and> dev_ok kr g' (ls[i := l'])" using proc_step_dev_ok [OF kq i _ step] by blast
  moreover have "\<forall>j < length (ls[i := l']). caller_ok (qs ! j) (mine j (drv_hist g')) (ls[i := l'] ! j)"
    by (rule procs_ok_update [OF ok]) (use proc_step_caller_ok [OF _ step] proc_step_mine_other [OF step] ok i in auto)
  ultimately show ?thesis using inv by (simp add: drv_inv_def)
qed

section \<open>Every call returns\<close>

primrec pc_rank :: "ppc \<Rightarrow> nat" where
  "pc_rank P_idle = 0"
| "pc_rank (P_want op h) = 2 + hrank h"
| "pc_rank (P_in op h) = 1 + hrank h"
| "pc_rank (P_out op r out) = 1"

definition proc_rank :: "proc \<Rightarrow> nat" where
  "proc_rank l = 9 * length (p_todo l) + pc_rank (p_pc l)"

definition all_made :: "proc \<Rightarrow> bool" where
  "all_made l \<longleftrightarrow> p_todo l = [] \<and> p_pc l = P_idle"

lemma hrank_bound: "hrank h \<le> 6"
  by (cases h) simp_all

lemma hrank_pos: "0 < hrank h"
  by (cases h) simp_all

lemma proc_step_rank: "proc_step i g l = Some (g', l') \<Longrightarrow> proc_rank l' < proc_rank l"
proof (erule proc_step_cases, goal_cases)
  case (2 op ops h)
  then show ?case using hrank_bound [of h] by (simp add: proc_rank_def)
next
  case (4 op h h' k')
  then show ?case using handler_step_rank [of h "drv_k g"] by (simp add: proc_rank_def)
qed (auto simp: proc_rank_def)

lemma proc_step_enabled: "proc_step i g l = None \<Longrightarrow> all_made l \<or> (\<exists>op h. p_pc l = P_want op h \<and> lock (g_dev (drv_k g)))"
  by (auto simp: proc_step_def all_made_def mutex_lock_def split: ppc.splits list.splits sum.splits hpc.splits if_splits prod.splits)

lemma drv_progress:
  assumes "drv_inv k0 qs g ls" and "\<not> list_all all_made ls"
  shows "\<exists>i < length ls. proc_step i g (ls ! i) \<noteq> None"
proof (rule ccontr)
  assume stuck: "\<not> ?thesis"
  obtain kq where kq: "dev_ok kq g ls" using assms(1) by (auto simp: drv_inv_def)
  obtain i where i: "i < length ls" "\<not> all_made (ls ! i)" using assms(2) by (auto simp: list_all_length)
  then have "lock (g_dev (drv_k g))" using stuck proc_step_enabled by blast
  then obtain j op h where "j \<in> insiders ls" "p_pc (ls ! j) = P_in op h" using kq by (auto simp: dev_ok_def split: if_splits)
  moreover from this have "j < length ls" by (simp add: where_in_def)
  moreover from this have "proc_step j g (ls ! j) = None" using stuck by blast
  ultimately show False using proc_step_enabled [of j g "ls ! j"] by (auto simp: all_made_def)
qed

lemma drv_start_inv: "\<not> lock (g_dev k) \<Longrightarrow> drv_inv k qs (fst (drv_start k qs)) (snd (drv_start k qs))"
  by (auto simp: drv_inv_def drv_start_def caller_ok_def mine_def dev_ok_def where_in_def)

text \<open>The history only grows: a call that has returned comes before every call that has not begun.\<close>

lemma proc_step_history: "proc_step i g l = Some (g', l') \<Longrightarrow> prefix (drv_hist g) (drv_hist g')"
  by (erule proc_step_cases) (simp_all add: effect_at_def)

lemma drv_history_grows: "(pool_step proc_step)\<^sup>*\<^sup>* s t \<Longrightarrow> prefix (drv_hist (fst s)) (drv_hist (fst t))"
proof (induction rule: rtranclp_induct)
  case (step t u)
  then show ?case using proc_step_history by (fastforce simp: pool_step_def intro: prefix_order.trans)
qed simp

interpretation cdc: thread_pool "\<lambda>s. \<not> lock (g_dev k) \<and> s = drv_start k qs" proc_step "drv_inv k qs" proc_rank all_made for k qs
proof (unfold_locales, goal_cases)
  case (1 g ls)
  then show ?case using drv_start_inv [of k qs] by (metis fst_conv snd_conv)
next
  case (2 g ls i g' l')
  then show ?case by (rule proc_step_inv)
next
  case (3 g ls i g' l')
  then show ?case by (blast intro: proc_step_rank)
next
  case (4 g ls)
  then show ?case by (rule drv_progress)
qed

lemma drv_start_rank: "sum_list (map proc_rank (snd (drv_start k qs))) = 9 * sum_list (map length qs)"
  by (induction qs) (simp_all add: drv_start_def proc_rank_def comp_def)

section \<open>The driver is linearizable\<close>

definition drv_explained :: "kernel \<Rightarrow> chardev_op list list \<Rightarrow> drv \<times> proc list \<Rightarrow> bool" where
  "drv_explained k qs s \<longleftrightarrow>
     card (insiders (snd s)) \<le> 1
     \<and> (\<exists>kq. replays k (drv_hist (fst s)) kq \<and> (insiders (snd s) = {} \<longrightarrow> g_dev (drv_k (fst s)) = g_dev kq))
     \<and> (\<forall>i < length qs. mine i (drv_hist (fst s)) = p_got (snd s ! i) @ unreported (p_pc (snd s ! i))
          \<and> map fst (mine i (drv_hist (fst s))) @ current (p_pc (snd s ! i)) @ p_todo (snd s ! i) = qs ! i)"

lemma drv_inv_explained: "drv_inv k qs (fst s) (snd s) \<Longrightarrow> drv_explained k qs s"
  by (auto simp: drv_inv_def drv_explained_def caller_ok_def dev_ok_def split: if_splits)

text \<open>
  C2. Processes that call the driver's \<^verbatim>\<open>read\<close>, \<^verbatim>\<open>write\<close>, \<^verbatim>\<open>llseek\<close> and \<^verbatim>\<open>ioctl\<close> at the same time, interleaved between
  any two statements of the handlers, from a device whose mutex is free: at any moment at most one is between
  \<^verbatim>\<open>mutex_lock\<close> and \<^verbatim>\<open>mutex_unlock\<close>; the calls that took effect, in that order, are a run of the atomic handlers with the
  same results, and when nobody is inside the device is the one that run leaves; each process was told the results of
  its own calls, in the order in which it made them; the order is only ever extended; no run makes more than nine
  steps per call, and one that cannot go on has every call returned.
\<close>

theorem chardev_linearizable:
  assumes "\<not> lock (g_dev k)" and "(pool_step proc_step)\<^sup>*\<^sup>* (drv_start k qs) s"
  shows "drv_explained k qs s
    \<and> (\<forall>t. (pool_step proc_step)\<^sup>*\<^sup>* s t \<longrightarrow> prefix (drv_hist (fst s)) (drv_hist (fst t)))
    \<and> (\<forall>n t. (pool_step proc_step ^^ n) (drv_start k qs) t \<longrightarrow> n \<le> 9 * sum_list (map length qs))
    \<and> ((\<forall>t. \<not> pool_step proc_step s t) \<longrightarrow> list_all all_made (snd s))"
proof -
  have "drv_explained k qs s" using cdc.reach_inv [of k "drv_start k qs" qs, OF _ assms(2)] assms(1) by (simp add: drv_inv_explained)
  moreover have "n \<le> 9 * sum_list (map length qs)" if "(pool_step proc_step ^^ n) (drv_start k qs) t" for n t
    using cdc.run_length [of k "drv_start k qs" qs, OF _ that] assms(1) by (simp add: drv_start_rank)
  moreover have "list_all all_made (snd s)" if "\<forall>t. \<not> pool_step proc_step s t"
    using cdc.stuck_final [of k "drv_start k qs" qs, OF _ assms(2)] assms(1) that by blast
  ultimately show ?thesis using drv_history_grows by blast
qed

lemma fresh_kernel_free: "\<not> lock (g_dev (fresh_kernel b))"
  by (simp add: fresh_kernel_def fresh_dev_def)

text \<open>Two processes: one writes two bytes while the other reads; the writer takes the mutex first.\<close>

definition conc_demo :: "chardev_op list list" where
  "conc_demo = [[Op_write copy_mapped (\<lambda>i. ''ab'' ! i) 2], [Op_read copy_mapped 1]]"

theorem chardev_linearizable_witness:
  "drv_explained (fresh_kernel (replicate BUF_SIZE NUL)) conc_demo
     (pool_sched proc_step [1, 0, 0, 1, 0, 0] (drv_start (fresh_kernel (replicate BUF_SIZE NUL)) conc_demo))"
  using chardev_linearizable [OF fresh_kernel_free sched_reaches] by blast

end
