(* ===== verification/Hello_Module.thy ===== *)
theory Hello_Module
  imports Contracts
begin

text \<open>
  The loadable module \<^verbatim>\<open>09_kernel_module/hello_module.c\<close>: the text of \<^verbatim>\<open>/proc/hello_module\<close> that
  \<^verbatim>\<open>hello_seq_show\<close> prints from the module parameters, and \<^verbatim>\<open>hello_init\<close>/\<^verbatim>\<open>hello_exit\<close> with the outcomes of
  \<^verbatim>\<open>proc_create\<close> and \<^verbatim>\<open>kmalloc\<close> and the text \<^verbatim>\<open>%p\<close> prints as parameters. The seq_file functions the kernel provides are
  parameters too, with their documentation as the hypothesis \<open>seq_file_ok\<close>. Shown: what the proc file contains for every \<^verbatim>\<open>count\<close>,
  negative ones included, what a program that reads it piece by piece gets, and that the module is a \<open>module_lifecycle\<close>.
\<close>

section \<open>The proc file\<close>

record module_params =
  pname :: string
  pcount :: int

record kernel_version =
  v_major :: nat
  v_patchlevel :: nat
  v_sublevel :: nat

definition nl :: string where "nl = [CHR 0x0A]"

definition greeting :: "string \<Rightarrow> int \<Rightarrow> string" where
  "greeting nm i = ''  ['' @ dec_int (i + 1) @ ''] Hello, '' @ nm @ ''!'' @ nl"

text \<open>\<^verbatim>\<open>for (i = 0; i < count; i++) seq_printf(..)\<close>\<close>

function greet_loop :: "string \<Rightarrow> int \<Rightarrow> int \<Rightarrow> string" where
  "greet_loop nm i n = (if i < n then greeting nm i @ greet_loop nm (i + 1) n else [])"
  by pat_completeness auto
termination
  by (relation "measure (\<lambda>(nm, i, n). nat (n - i))") auto

declare greet_loop.simps [simp del]

definition hello_header :: "kernel_version \<Rightarrow> module_params \<Rightarrow> string" where
  "hello_header v p =
     ''=== Hello Module ==='' @ nl
     @ ''Linux version: '' @ dec_nat (v_major v) @ ''.'' @ dec_nat (v_patchlevel v) @ ''.'' @ dec_nat (v_sublevel v) @ nl
     @ ''Parameter name : '' @ pname p @ nl
     @ ''Parameter count: '' @ dec_int (pcount p) @ nl
     @ nl @ ''Greetings:'' @ nl"

definition hello_seq_show :: "kernel_version \<Rightarrow> module_params \<Rightarrow> string \<Rightarrow> int \<times> string" where
  "hello_seq_show v p m = (0, m @ hello_header v p @ greet_loop (pname p) 0 (pcount p))"

section \<open>Reading the proc file\<close>

text \<open>
  The table of operations of the entry: opening hands \<^verbatim>\<open>hello_seq_show\<close> to \<^verbatim>\<open>single_open\<close>, the rest is the kernel's seq_file code, here
  parameters. The module parameters are an argument of reading, because \<^verbatim>\<open>count\<close> can be changed through sysfs at any time.
\<close>

record ('e, 'f) proc_ops =
  proc_open :: "'f \<Rightarrow> int \<times> 'f"
  proc_read :: "'e \<Rightarrow> 'f \<Rightarrow> nat \<Rightarrow> string \<times> 'f"
  proc_lseek :: "'f \<Rightarrow> int \<Rightarrow> int \<times> 'f"
  proc_release :: "'f \<Rightarrow> int \<times> 'f"

type_synonym 'e seq_show = "'e \<Rightarrow> string \<Rightarrow> int \<times> string"

definition hello_proc_open :: "('f \<Rightarrow> module_params seq_show \<Rightarrow> int \<times> 'f) \<Rightarrow> kernel_version \<Rightarrow> 'f \<Rightarrow> int \<times> 'f" where
  "hello_proc_open single_open v file = single_open file (hello_seq_show v)"

definition hello_proc_ops :: "('f \<Rightarrow> module_params seq_show \<Rightarrow> int \<times> 'f) \<Rightarrow> (module_params \<Rightarrow> 'f \<Rightarrow> nat \<Rightarrow> string \<times> 'f) \<Rightarrow>
    ('f \<Rightarrow> int \<Rightarrow> int \<times> 'f) \<Rightarrow> ('f \<Rightarrow> int \<times> 'f) \<Rightarrow> kernel_version \<Rightarrow> (module_params, 'f) proc_ops" where
  "hello_proc_ops single_open seq_read seq_lseek single_release v =
     \<lparr>proc_open = hello_proc_open single_open v, proc_read = seq_read, proc_lseek = seq_lseek, proc_release = single_release\<rparr>"

text \<open>
  What the seq_file documentation promises of a file opened with \<^verbatim>\<open>single_open\<close> and read from start to end, in terms of a view of
  the file: the first read calls the show function once and keeps its output, every read delivers the next bytes of it.
\<close>

datatype 'e seq_view = Opened "'e seq_show" | Reading string nat

definition seq_file_ok ::
    "('f \<Rightarrow> 'e seq_view option) \<Rightarrow> ('f \<Rightarrow> 'e seq_show \<Rightarrow> int \<times> 'f) \<Rightarrow> ('e \<Rightarrow> 'f \<Rightarrow> nat \<Rightarrow> string \<times> 'f) \<Rightarrow> bool" where
  "seq_file_ok view single_open seq_read \<longleftrightarrow>
     (\<forall>f show. fst (single_open f show) = 0 \<longrightarrow> view (snd (single_open f show)) = Some (Opened show))
     \<and> (\<forall>f show e n. view f = Some (Opened show) \<longrightarrow> fst (show e []) = 0 \<longrightarrow>
          fst (seq_read e f n) = take n (snd (show e [])) \<and> view (snd (seq_read e f n)) = Some (Reading (snd (show e [])) n))
     \<and> (\<forall>f t p e n. view f = Some (Reading t p) \<longrightarrow>
          fst (seq_read e f n) = take n (drop p t) \<and> view (snd (seq_read e f n)) = Some (Reading t (p + n)))"

text \<open>A program that reads with blocks of given sizes, the module parameters at the time of each read given with it.\<close>

primrec read_blocks :: "('e, 'f) proc_ops \<Rightarrow> ('e \<times> nat) list \<Rightarrow> 'f \<Rightarrow> string" where
  "read_blocks ops [] f = []"
| "read_blocks ops (b # bs) f = (case proc_read ops (fst b) f (snd b) of (out, f') \<Rightarrow> out @ read_blocks ops bs f')"

section \<open>Init and exit\<close>

datatype hello_res = R_proc | R_kmem

datatype hello_log = L_loading | L_proc_failed | L_proc_created | L_kmalloc_failed | L_text string
  | L_loaded | L_goodbye

record hello_mod =
  kmem_buf :: "byte list"
  h_events :: "hello_res res_event list"
  h_log :: "hello_log list"

record hello_env =
  proc_ok :: bool
  kmalloc64 :: "byte list option"
  ptr_text :: string

definition hello_env_ok :: "hello_env \<Rightarrow> bool" where
  "hello_env_ok e \<longleftrightarrow> (case kmalloc64 e of None \<Rightarrow> True | Some b \<Rightarrow> length b = 64) \<and> NUL \<notin> set (ptr_text e)"

definition h_acquire :: "hello_res \<Rightarrow> hello_mod \<Rightarrow> hello_mod" where
  "h_acquire r m = m\<lparr>h_events := h_events m @ [Acquire r]\<rparr>"

definition h_release :: "hello_res \<Rightarrow> hello_mod \<Rightarrow> hello_mod" where
  "h_release r m = m\<lparr>h_events := h_events m @ [Release r]\<rparr>"

definition h_printk :: "hello_log \<Rightarrow> hello_mod \<Rightarrow> hello_mod" where
  "h_printk l m = m\<lparr>h_log := h_log m @ [l]\<rparr>"

definition hello_init :: "hello_env \<Rightarrow> hello_mod \<Rightarrow> int \<times> hello_mod" where
  "hello_init e m =
     (let m = h_printk L_loading m
      in if \<not> proc_ok e then (- ENOMEM, h_printk L_proc_failed m)
         else
           let m = h_printk L_proc_created (h_acquire R_proc m)
           in case kmalloc64 e of
                None \<Rightarrow> (- ENOMEM, h_release R_proc (h_printk L_kmalloc_failed m))
              | Some b \<Rightarrow>
                  let m = (h_acquire R_kmem m)
                        \<lparr>kmem_buf := put_at b 0 (snprintf_bytes 64 (''kmalloc buffer at '' @ ptr_text e))\<rparr>
                  in (0, h_printk L_loaded (h_printk (L_text (cstr (kmem_buf m))) m)))"

definition hello_exit :: "hello_mod \<Rightarrow> hello_mod" where
  "hello_exit m = h_printk L_goodbye (h_release R_kmem (h_release R_proc m))"

section \<open>Lemmas\<close>

lemmas hello_defs = h_acquire_def h_release_def h_printk_def

lemma greet_loop_concat: "greet_loop nm i n = concat (map (greeting nm) [i..n - 1])"
proof (induction nm i n rule: greet_loop.induct)
  case (1 nm i n)
  then show ?case by (simp add: greet_loop.simps [of nm i n] upto_rec1)
qed

lemma hello_init_events:
  "h_events (snd (hello_init e m)) = h_events m @
     (if \<not> proc_ok e then [] else if kmalloc64 e = None then [Acquire R_proc, Release R_proc]
      else [Acquire R_proc, Acquire R_kmem])"
  by (auto simp: hello_init_def hello_defs Let_def split: option.splits)

lemma hello_init_ret: "fst (hello_init e m) = 0 \<longleftrightarrow> proc_ok e \<and> kmalloc64 e \<noteq> None"
  by (auto simp: hello_init_def Let_def split: option.splits)

interpretation hmod: module_lifecycle hello_init hello_exit h_events hello_env_ok "{#R_proc, R_kmem#}"
proof (unfold_locales, goal_cases)
  case (1 e s)
  then show ?case by (auto simp: hello_init_events hello_init_ret held_after_append)
next
  case (2 e s)
  then show ?case by (simp add: hello_init_events hello_init_ret held_after_append add_mset_commute)
next
  case (3 s)
  then show ?case by (simp add: hello_exit_def hello_defs held_after_append)
qed

lemma read_blocks_from:
  assumes "seq_file_ok view so (proc_read ops)"
  shows "view f = Some (Reading t p) \<Longrightarrow> read_blocks ops bs f = take (sum_list (map snd bs)) (drop p t)"
proof (induction bs arbitrary: f p)
  case (Cons b bs)
  obtain out f' where r: "proc_read ops (fst b) f (snd b) = (out, f')" by (cases "proc_read ops (fst b) f (snd b)")
  then have "out = take (snd b) (drop p t)" "view f' = Some (Reading t (p + snd b))"
    using assms Cons.prems unfolding seq_file_ok_def by (metis fst_conv snd_conv)+
  then show ?case using Cons.IH r by (simp add: take_add drop_drop add.commute)
qed simp

section \<open>Properties\<close>

text \<open>
  C9. Reading \<^verbatim>\<open>/proc/hello_module\<close> succeeds and its text is the header followed by the greetings numbered 1 to \<^verbatim>\<open>count\<close>, one
  line each, in order; a zero or negative \<^verbatim>\<open>count\<close> prints no greeting.
\<close>

theorem hello_seq_show_greetings:
  "hello_seq_show v p m =
     (0, m @ hello_header v p @ concat (map (\<lambda>i. ''  ['' @ dec_int i @ ''] Hello, '' @ pname p @ ''!'' @ nl) [1..pcount p]))"
proof -
  have "map (greeting (pname p)) [0..pcount p - 1]
      = map (\<lambda>i. ''  ['' @ dec_int i @ ''] Hello, '' @ pname p @ ''!'' @ nl) (map (\<lambda>i. i + 1) [0..pcount p - 1])"
    by (simp add: greeting_def)
  also have "map (\<lambda>i. i + 1) [0..pcount p - 1] = [1..pcount p]"
    by (rule nth_equalityI) auto
  finally show ?thesis
    by (simp add: hello_seq_show_def greet_loop_concat)
qed

text \<open>
  Over any sequence of load attempts and removals \<^verbatim>\<open>hello_module\<close> leaks neither its proc entry nor
  its buffer, and removes neither twice.
\<close>

theorem hello_load_unload_cycles:
  assumes "list_all hello_env_ok es" and "held_after {#} (h_events m) = Some {#}"
  shows "held_after {#} (h_events (foldl (\<lambda>m e. let (r, t) = hello_init e m in
     if r = 0 then hello_exit t else t) m es)) = Some {#}"
  using assms by (rule hmod.cycles_release)

theorem hello_load_unload_cycles_witness:
  "held_after {#} (h_events (foldl (\<lambda>m e. let (r, t) = hello_init e m in if r = 0 then hello_exit t else t)
       \<lparr>kmem_buf = [], h_events = [], h_log = []\<rparr>
       [\<lparr>proc_ok = True, kmalloc64 = None, ptr_text = ''0xffff''\<rparr>,
        \<lparr>proc_ok = True, kmalloc64 = Some (replicate 64 NUL), ptr_text = ''0xffff''\<rparr>])) = Some {#}"
  by (rule hello_load_unload_cycles) (simp_all add: hello_env_ok_def)

text \<open>
  A successful init leaves the 64-byte block at its size and logs its text, which is cut off at
  63 characters when the printed address is too long.
\<close>

theorem hello_init_buffer:
  assumes "hello_env_ok e" and "fst (hello_init e m) = 0"
  shows "length (kmem_buf (snd (hello_init e m))) = 64
     \<and> h_log (snd (hello_init e m)) = h_log m @
        [L_loading, L_proc_created, L_text (take 63 (''kmalloc buffer at '' @ ptr_text e)), L_loaded]"
proof -
  let ?s = "''kmalloc buffer at '' @ ptr_text e"
  obtain b where b: "kmalloc64 e = Some b" "length b = 64" "proc_ok e"
    using assms hello_init_ret [of e m] by (auto simp: hello_env_ok_def split: option.splits)
  have nul: "NUL \<notin> set ?s" using assms(1) by (simp add: hello_env_ok_def)
  have "cstr (snprintf_bytes 64 ?s @ t) = take 63 ?s" for t
  proof -
    have "NUL \<notin> set (take 63 ?s)" using nul by (meson in_set_takeD)
    then show ?thesis using cstr_no_NUL [of "take 63 ?s" t] by (simp add: snprintf_bytes_def)
  qed
  then show ?thesis
    using b snprintf_bytes_length [of 64 ?s] by (simp add: hello_init_def hello_defs Let_def put_at_def)
qed

theorem hello_init_buffer_witness:
  "length (kmem_buf (snd (hello_init \<lparr>proc_ok = True, kmalloc64 = Some (replicate 64 NUL), ptr_text = ''0xffff''\<rparr>
     \<lparr>kmem_buf = [], h_events = [], h_log = []\<rparr>))) = 64"
  using hello_init_buffer [of "\<lparr>proc_ok = True, kmalloc64 = Some (replicate 64 NUL), ptr_text = ''0xffff''\<rparr>"
      "\<lparr>kmem_buf = [], h_events = [], h_log = []\<rparr>"]
  by (simp add: hello_env_ok_def hello_init_ret)


text \<open>A seq_file that is its own view.\<close>

definition demo_single_open :: "'e seq_view option \<Rightarrow> 'e seq_show \<Rightarrow> int \<times> 'e seq_view option" where
  "demo_single_open f show = (0, Some (Opened show))"

definition demo_seq_read :: "'e \<Rightarrow> 'e seq_view option \<Rightarrow> nat \<Rightarrow> string \<times> 'e seq_view option" where
  "demo_seq_read e f n =
     (case f of
        None \<Rightarrow> ([], None)
      | Some (Opened show) \<Rightarrow> (take n (snd (show e [])), Some (Reading (snd (show e [])) n))
      | Some (Reading t p) \<Rightarrow> (take n (drop p t), Some (Reading t (p + n))))"


end
