(* ===== verification/Ring_Queue.thy ===== *)
theory Ring_Queue
  imports Contracts
begin

text \<open>
  The bounded ring buffer of \<^verbatim>\<open>02_threads/thread_demo.c\<close>: the fields both queue structs of the file
  share and the statements \<^verbatim>\<open>queue_push\<close>/\<^verbatim>\<open>raw_queue_push\<close> and \<^verbatim>\<open>queue_pop\<close>/\<^verbatim>\<open>raw_queue_pop\<close> run on them, one
  definition per statement, so that the interleaved models can run them one at a time. The
  sequential bodies refine an unbounded list and form an \<open>item_stream\<close>.
\<close>

section \<open>The struct and the statements of push and pop\<close>

definition QUEUE_SIZE :: nat where "QUEUE_SIZE = 8"

definition SENTINEL :: int where "SENTINEL = - 1"

record queue =
  qdata :: "int list"
  qhead :: nat
  qtail :: nat
  qcount :: int

text \<open>\<^verbatim>\<open>q->data[q->tail] = val\<close>, \<^verbatim>\<open>q->tail = (q->tail + 1) % QUEUE_SIZE\<close>, \<^verbatim>\<open>q->count++\<close>\<close>

definition q_store :: "queue \<Rightarrow> int \<Rightarrow> queue" where
  "q_store q v = q\<lparr>qdata := (qdata q)[qtail q := v]\<rparr>"

definition q_adv_tail :: "queue \<Rightarrow> queue" where
  "q_adv_tail q = q\<lparr>qtail := (qtail q + 1) mod QUEUE_SIZE\<rparr>"

definition q_inc :: "queue \<Rightarrow> queue" where
  "q_inc q = q\<lparr>qcount := qcount q + 1\<rparr>"

text \<open>\<^verbatim>\<open>int val = q->data[q->head]\<close>, \<^verbatim>\<open>q->head = (q->head + 1) % QUEUE_SIZE\<close>, \<^verbatim>\<open>q->count--\<close>\<close>

definition q_load :: "queue \<Rightarrow> int" where
  "q_load q = qdata q ! qhead q"

definition q_adv_head :: "queue \<Rightarrow> queue" where
  "q_adv_head q = q\<lparr>qhead := (qhead q + 1) mod QUEUE_SIZE\<rparr>"

definition q_dec :: "queue \<Rightarrow> queue" where
  "q_dec q = q\<lparr>qcount := qcount q - 1\<rparr>"

definition queue_push_body :: "queue \<Rightarrow> int \<Rightarrow> queue" where
  "queue_push_body q v = q_inc (q_adv_tail (q_store q v))"

definition queue_pop_body :: "queue \<Rightarrow> int \<times> queue" where
  "queue_pop_body q = (q_load q, q_dec (q_adv_head q))"

definition queue0 :: queue where
  "queue0 = \<lparr>qdata = replicate QUEUE_SIZE 0, qhead = 0, qtail = 0, qcount = 0\<rparr>"

section \<open>Contents and invariant\<close>

definition ring_list :: "int list \<Rightarrow> nat \<Rightarrow> nat \<Rightarrow> int list" where
  "ring_list d h n = map (\<lambda>k. d ! ((h + k) mod QUEUE_SIZE)) [0..<n]"

definition q_list :: "queue \<Rightarrow> int list" where
  "q_list q = ring_list (qdata q) (qhead q) (nat (qcount q))"

definition q_shape :: "queue \<Rightarrow> bool" where
  "q_shape q \<longleftrightarrow> length (qdata q) = QUEUE_SIZE \<and> qhead q < QUEUE_SIZE \<and> qtail q < QUEUE_SIZE
     \<and> 0 \<le> qcount q \<and> qcount q \<le> int QUEUE_SIZE"

definition q_inv :: "queue \<Rightarrow> bool" where
  "q_inv q \<longleftrightarrow> q_shape q \<and> qtail q = (qhead q + nat (qcount q)) mod QUEUE_SIZE"

text \<open>A call that would have to wait leaves the queue as it is.\<close>

datatype q_op = Q_push int | Q_pop

fun q_step :: "queue \<Rightarrow> q_op \<Rightarrow> queue" where
  "q_step q (Q_push v) = (if qcount q = int QUEUE_SIZE then q else queue_push_body q v)"
| "q_step q Q_pop = (if qcount q = 0 then q else snd (queue_pop_body q))"

fun q_accepted :: "queue \<Rightarrow> q_op \<Rightarrow> int list" where
  "q_accepted q (Q_push v) = (if qcount q = int QUEUE_SIZE then [] else [v])"
| "q_accepted q Q_pop = []"

fun q_delivered :: "queue \<Rightarrow> q_op \<Rightarrow> int list" where
  "q_delivered q (Q_push v) = []"
| "q_delivered q Q_pop = (if qcount q = 0 then [] else [fst (queue_pop_body q)])"

section \<open>Lemmas\<close>

lemma QUEUE_SIZE_pos [simp]: "0 < QUEUE_SIZE" by (simp add: QUEUE_SIZE_def)

lemma ring_list_length [simp]: "length (ring_list d h n) = n"
  by (simp add: ring_list_def)

lemma ring_list_0 [simp]: "ring_list d h 0 = []"
  by (simp add: ring_list_def)

text \<open>Two offsets below the capacity name different slots.\<close>

lemma slot_less:
  assumes "k < n" and "n < QUEUE_SIZE"
  shows "(h + k) mod QUEUE_SIZE \<noteq> (h + n) mod QUEUE_SIZE"
proof
  assume "(h + k) mod QUEUE_SIZE = (h + n) mod QUEUE_SIZE"
  then have "QUEUE_SIZE dvd (h + n) - (h + k)"
    using assms(1) by (intro mod_eq_dvd_iff_nat [THEN iffD1]) auto
  then have "QUEUE_SIZE \<le> n - k" using assms(1) by (intro dvd_imp_le) auto
  with assms(2) show False by simp
qed

lemma ring_list_store:
  "n < QUEUE_SIZE \<Longrightarrow> t = (h + n) mod QUEUE_SIZE \<Longrightarrow> ring_list (d[t := v]) h n = ring_list d h n"
proof -
  assume n: "n < QUEUE_SIZE" and t: "t = (h + n) mod QUEUE_SIZE"
  have "(h + k) mod QUEUE_SIZE \<noteq> t" if "k < n" for k
    using slot_less [OF that n] t by simp
  then have "d[t := v] ! ((h + k) mod QUEUE_SIZE) = d ! ((h + k) mod QUEUE_SIZE)" if "k < n" for k
    using that by (metis nth_list_update_neq)
  then show ?thesis by (auto simp: ring_list_def)
qed

lemma ring_list_Suc: "ring_list d h (Suc n) = ring_list d h n @ [d ! ((h + n) mod QUEUE_SIZE)]"
  by (simp add: ring_list_def)

lemma ring_list_mod: "ring_list d (h mod QUEUE_SIZE) n = ring_list d h n"
  by (simp add: ring_list_def mod_add_left_eq)

lemma ring_list_Cons:
  "h < QUEUE_SIZE \<Longrightarrow> ring_list d h (Suc n) = d ! h # ring_list d ((h + 1) mod QUEUE_SIZE) n"
proof -
  assume "h < QUEUE_SIZE"
  then have "ring_list d h (Suc n) = d ! h # map (\<lambda>k. d ! ((h + Suc k) mod QUEUE_SIZE)) [0..<n]"
    by (simp add: ring_list_def upt_conv_Cons map_Suc_upt [symmetric] del: upt_Suc)
  then show ?thesis by (simp only: ring_list_mod) (simp add: ring_list_def)
qed

lemmas q_stmts = q_store_def q_adv_tail_def q_inc_def q_load_def q_adv_head_def q_dec_def

lemma push_refines:
  assumes "q_inv q" and "qcount q < int QUEUE_SIZE"
  shows "q_inv (queue_push_body q v) \<and> q_list (queue_push_body q v) = q_list q @ [v]"
proof -
  let ?n = "nat (qcount q)"
  have n: "?n < QUEUE_SIZE" "nat (qcount q + 1) = Suc ?n" "0 \<le> qcount q"
    using assms by (auto simp: q_inv_def q_shape_def)
  have t: "qtail q = (qhead q + ?n) mod QUEUE_SIZE" and tl: "qtail q < length (qdata q)"
    using assms(1) by (auto simp: q_inv_def q_shape_def)
  have "q_list (queue_push_body q v) = q_list q @ [v]"
    using n tl ring_list_store [OF n(1) t, of "qdata q" v] t
    by (simp add: q_list_def queue_push_body_def q_stmts ring_list_Suc)
  moreover have "q_inv (queue_push_body q v)"
    using assms n t by (simp add: q_inv_def q_shape_def queue_push_body_def q_stmts mod_Suc_eq)
  ultimately show ?thesis by simp
qed

lemma pop_refines:
  assumes "q_inv q" and "0 < qcount q"
  shows "q_inv (snd (queue_pop_body q)) \<and> q_list q = fst (queue_pop_body q) # q_list (snd (queue_pop_body q))"
proof -
  obtain n where n: "nat (qcount q) = Suc n" using assms(2) by (metis gr0_implies_Suc zero_less_nat_eq)
  then have n': "nat (qcount q - 1) = n" by simp
  have "q_list q = fst (queue_pop_body q) # q_list (snd (queue_pop_body q))"
    using assms(1) n n' by (simp add: q_list_def queue_pop_body_def q_stmts ring_list_Cons q_inv_def q_shape_def)
  moreover have "q_inv (snd (queue_pop_body q))"
    using assms n n' by (simp add: q_inv_def q_shape_def queue_pop_body_def q_stmts mod_Suc_eq mod_add_left_eq)
  ultimately show ?thesis by simp
qed

lemma queue0_inv: "q_inv queue0" "q_list queue0 = []"
  by (simp_all add: queue0_def q_inv_def q_shape_def q_list_def)

interpretation rq: item_stream q_step q_inv q_list q_accepted q_delivered "\<lambda>_. True"
proof (unfold_locales, goal_cases)
  case (1 q op)
  then show ?case using push_refines [of q] pop_refines [of q]
    by (cases op) (auto simp: q_inv_def q_shape_def)
next
  case (2 q op)
  then have "0 \<le> qcount q" "qcount q \<le> int QUEUE_SIZE" by (auto simp: q_inv_def q_shape_def)
  with 2 show ?case using push_refines [of q] pop_refines [of q] by (cases op) auto
qed

section \<open>Properties\<close>

text \<open>
  C11. The ring buffer with wrap-around is a queue: over any sequence of pushes and pops (a push on a
  full and a pop on an empty queue have to wait and change nothing) the popped values are, in
  order, a prefix of the pushed ones, and the rest is what the ring still holds.
\<close>

theorem ring_queue_fifo:
  "collect_ops q_step q_delivered queue0 ops @ q_list (run_ops q_step queue0 ops)
     = collect_ops q_step q_accepted queue0 ops"
  using rq.flow_run [of queue0 ops] by (simp add: queue0_inv list_all_iff)

end
