(* ===== verification/Cond_Queue.thy ===== *)
theory Cond_Queue
  imports Ring_Queue
begin

text \<open>
  Demo 3 of \<^verbatim>\<open>02_threads/thread_demo.c\<close>: producers and consumers on the ring buffer with a mutex and
  two condition variables. Any number of threads run \<^verbatim>\<open>producer\<close> or \<^verbatim>\<open>consumer\<close>; each statement of
  \<^verbatim>\<open>queue_push\<close> and \<^verbatim>\<open>queue_pop\<close> is a step of its own and the scheduler is arbitrary.
  \<^verbatim>\<open>pthread_cond_wait\<close> releases the mutex and blocks in one step and takes the mutex again after it was
  woken; \<^verbatim>\<open>pthread_cond_signal\<close> wakes one blocked thread if there is one; spurious wake-ups, which POSIX
  allows, are steps of their own.

  Shown for any number of threads, spurious wake-ups included: mutual exclusion, indices and count
  in range, and global FIFO order. Shown for the demo's one producer and one consumer: no lost
  wake-up and no deadlock, every run ends, and the consumer has then received 0 to n - 1 in order.
\<close>

section \<open>Threads and shared state\<close>

datatype pc = P_lock | P_check | P_wait | P_relock | P_store | P_tail | P_count | P_signal | P_unlock
  | C_lock | C_check | C_wait | C_relock | C_load | C_head | C_count | C_signal | C_unlock | T_done

text \<open>
  \<open>cq_todo\<close> holds the values the thread still has to push (the pending argument first), \<open>cq_val\<close> its
  local \<^verbatim>\<open>val\<close>, \<open>cq_got\<close> what it printed as received. \<open>cq_pushed\<close> and \<open>cq_popped\<close> record the order in which
  pushes and pops took effect; no step reads them.
\<close>

record cq =
  cq_q :: queue
  cq_lock :: "nat option"
  cq_pc :: "nat \<Rightarrow> pc"
  cq_todo :: "nat \<Rightarrow> int list"
  cq_val :: "nat \<Rightarrow> int"
  cq_got :: "nat \<Rightarrow> int list"
  cq_pushed :: "int list"
  cq_popped :: "int list"

definition goto :: "nat \<Rightarrow> pc \<Rightarrow> cq \<Rightarrow> cq" where
  "goto i p s = s\<lparr>cq_pc := (cq_pc s)(i := p)\<rparr>"

definition on_q :: "(queue \<Rightarrow> queue) \<Rightarrow> cq \<Rightarrow> cq" where
  "on_q f s = s\<lparr>cq_q := f (cq_q s)\<rparr>"

section \<open>Steps\<close>

text \<open>\<^verbatim>\<open>queue_push\<close>, called by \<^verbatim>\<open>producer\<close> for each of its values and then the sentinel.\<close>

inductive queue_push_step :: "nat \<Rightarrow> cq \<Rightarrow> cq \<Rightarrow> bool" where
  push_return: "cq_pc s i = P_lock \<Longrightarrow> cq_todo s i = [] \<Longrightarrow> queue_push_step i s (goto i T_done s)"
| push_lock: "cq_pc s i = P_lock \<Longrightarrow> cq_todo s i \<noteq> [] \<Longrightarrow> cq_lock s = None \<Longrightarrow>
     queue_push_step i s (goto i P_check (s\<lparr>cq_lock := Some i\<rparr>))"
| push_wait: "cq_pc s i = P_check \<Longrightarrow> qcount (cq_q s) = int QUEUE_SIZE \<Longrightarrow>
     queue_push_step i s (goto i P_wait (s\<lparr>cq_lock := None\<rparr>))"
| push_relock: "cq_pc s i = P_relock \<Longrightarrow> cq_lock s = None \<Longrightarrow>
     queue_push_step i s (goto i P_check (s\<lparr>cq_lock := Some i\<rparr>))"
| push_enter: "cq_pc s i = P_check \<Longrightarrow> qcount (cq_q s) \<noteq> int QUEUE_SIZE \<Longrightarrow>
     queue_push_step i s (goto i P_store s)"
| push_store: "cq_pc s i = P_store \<Longrightarrow>
     queue_push_step i s (goto i P_tail (on_q (\<lambda>q. q_store q (hd (cq_todo s i))) s))"
| push_tail: "cq_pc s i = P_tail \<Longrightarrow> queue_push_step i s (goto i P_count (on_q q_adv_tail s))"
| push_count: "cq_pc s i = P_count \<Longrightarrow>
     queue_push_step i s (goto i P_signal (on_q q_inc (s\<lparr>cq_pushed := cq_pushed s @ [hd (cq_todo s i)]\<rparr>)))"
| push_signal: "cq_pc s i = P_signal \<Longrightarrow> cq_pc s j = C_wait \<Longrightarrow>
     queue_push_step i s (goto i P_unlock (goto j C_relock s))"
| push_signal_none: "cq_pc s i = P_signal \<Longrightarrow> \<forall>j. cq_pc s j \<noteq> C_wait \<Longrightarrow>
     queue_push_step i s (goto i P_unlock s)"
| push_unlock: "cq_pc s i = P_unlock \<Longrightarrow>
     queue_push_step i s (goto i P_lock (s\<lparr>cq_lock := None, cq_todo := (cq_todo s)(i := tl (cq_todo s i))\<rparr>))"

text \<open>\<^verbatim>\<open>queue_pop\<close>, called by \<^verbatim>\<open>consumer\<close> until it returns the sentinel.\<close>

inductive queue_pop_step :: "nat \<Rightarrow> cq \<Rightarrow> cq \<Rightarrow> bool" where
  pop_lock: "cq_pc s i = C_lock \<Longrightarrow> cq_lock s = None \<Longrightarrow>
     queue_pop_step i s (goto i C_check (s\<lparr>cq_lock := Some i\<rparr>))"
| pop_wait: "cq_pc s i = C_check \<Longrightarrow> qcount (cq_q s) = 0 \<Longrightarrow>
     queue_pop_step i s (goto i C_wait (s\<lparr>cq_lock := None\<rparr>))"
| pop_relock: "cq_pc s i = C_relock \<Longrightarrow> cq_lock s = None \<Longrightarrow>
     queue_pop_step i s (goto i C_check (s\<lparr>cq_lock := Some i\<rparr>))"
| pop_enter: "cq_pc s i = C_check \<Longrightarrow> qcount (cq_q s) \<noteq> 0 \<Longrightarrow> queue_pop_step i s (goto i C_load s)"
| pop_load: "cq_pc s i = C_load \<Longrightarrow>
     queue_pop_step i s (goto i C_head (s\<lparr>cq_val := (cq_val s)(i := q_load (cq_q s))\<rparr>))"
| pop_head: "cq_pc s i = C_head \<Longrightarrow> queue_pop_step i s (goto i C_count (on_q q_adv_head s))"
| pop_count: "cq_pc s i = C_count \<Longrightarrow>
     queue_pop_step i s (goto i C_signal (on_q q_dec (s\<lparr>cq_popped := cq_popped s @ [cq_val s i]\<rparr>)))"
| pop_signal: "cq_pc s i = C_signal \<Longrightarrow> cq_pc s j = P_wait \<Longrightarrow>
     queue_pop_step i s (goto i C_unlock (goto j P_relock s))"
| pop_signal_none: "cq_pc s i = C_signal \<Longrightarrow> \<forall>j. cq_pc s j \<noteq> P_wait \<Longrightarrow>
     queue_pop_step i s (goto i C_unlock s)"
| pop_unlock_stop: "cq_pc s i = C_unlock \<Longrightarrow> cq_val s i = SENTINEL \<Longrightarrow>
     queue_pop_step i s (goto i T_done (s\<lparr>cq_lock := None\<rparr>))"
| pop_unlock_next: "cq_pc s i = C_unlock \<Longrightarrow> cq_val s i \<noteq> SENTINEL \<Longrightarrow>
     queue_pop_step i s (goto i C_lock (s\<lparr>cq_lock := None, cq_got := (cq_got s)(i := cq_got s i @ [cq_val s i])\<rparr>))"

inductive spurious_step :: "nat \<Rightarrow> cq \<Rightarrow> cq \<Rightarrow> bool" where
  spurious_push: "cq_pc s i = P_wait \<Longrightarrow> spurious_step i s (goto i P_relock s)"
| spurious_pop: "cq_pc s i = C_wait \<Longrightarrow> spurious_step i s (goto i C_relock s)"

definition cq_step :: "cq \<Rightarrow> cq \<Rightarrow> bool" where
  "cq_step s t \<longleftrightarrow> (\<exists>i. queue_push_step i s t \<or> queue_pop_step i s t)"

definition cq_any_step :: "cq \<Rightarrow> cq \<Rightarrow> bool" where
  "cq_any_step s t \<longleftrightarrow> cq_step s t \<or> (\<exists>i. spurious_step i s t)"

section \<open>Start states\<close>

text \<open>Every thread is a producer, a consumer or not there; the queue is the zeroed \<^verbatim>\<open>g_queue\<close>.\<close>

definition cq_init :: "cq \<Rightarrow> bool" where
  "cq_init s \<longleftrightarrow> cq_q s = queue0 \<and> cq_lock s = None \<and> (\<forall>i. cq_pc s i \<in> {P_lock, C_lock, T_done})
     \<and> cq_pushed s = [] \<and> cq_popped s = []"

text \<open>\<^verbatim>\<open>producer\<close> with argument \<open>n\<close> pushes 0 to n - 1 and the sentinel; \<^verbatim>\<open>demo_cond_var\<close> starts one of each.\<close>

definition producer_values :: "nat \<Rightarrow> int list" where
  "producer_values n = map int [0..<n] @ [SENTINEL]"

definition demo_cond_var :: "nat \<Rightarrow> cq" where
  "demo_cond_var n =
     \<lparr>cq_q = queue0, cq_lock = None,
      cq_pc = (\<lambda>i. if i = 0 then P_lock else if i = 1 then C_lock else T_done),
      cq_todo = (\<lambda>i. if i = 0 then producer_values n else []),
      cq_val = (\<lambda>_. 0), cq_got = (\<lambda>_. []), cq_pushed = [], cq_popped = []\<rparr>"

section \<open>Invariant for any number of threads\<close>

definition crit :: "pc \<Rightarrow> bool" where
  "crit p \<longleftrightarrow> p \<in> {P_check, P_store, P_tail, P_count, P_signal, P_unlock,
     C_check, C_load, C_head, C_count, C_signal, C_unlock}"

definition crit_set :: "cq \<Rightarrow> nat set" where
  "crit_set s = {i. crit (cq_pc s i)}"

definition cq_mutex :: "cq \<Rightarrow> bool" where
  "cq_mutex s \<longleftrightarrow> crit_set s = set_option (cq_lock s)"

definition cq_base :: "cq \<Rightarrow> bool" where
  "cq_base s \<longleftrightarrow> qtail (cq_q s) = (qhead (cq_q s) + nat (qcount (cq_q s))) mod QUEUE_SIZE
     \<and> cq_pushed s = cq_popped s @ q_list (cq_q s)"

text \<open>What holds of the queue while its holder is at a given statement.\<close>

fun cq_at :: "pc \<Rightarrow> nat \<Rightarrow> cq \<Rightarrow> bool" where
  "cq_at P_store i s = (cq_base s \<and> qcount (cq_q s) < int QUEUE_SIZE)"
| "cq_at P_tail i s = (cq_base s \<and> qcount (cq_q s) < int QUEUE_SIZE
     \<and> qdata (cq_q s) ! qtail (cq_q s) = hd (cq_todo s i))"
| "cq_at P_count i s = (qcount (cq_q s) < int QUEUE_SIZE
     \<and> qtail (cq_q s) = (qhead (cq_q s) + Suc (nat (qcount (cq_q s)))) mod QUEUE_SIZE
     \<and> cq_pushed s = cq_popped s @ q_list (cq_q s)
     \<and> qdata (cq_q s) ! ((qhead (cq_q s) + nat (qcount (cq_q s))) mod QUEUE_SIZE) = hd (cq_todo s i))"
| "cq_at C_load i s = (cq_base s \<and> 0 < qcount (cq_q s))"
| "cq_at C_head i s = (cq_base s \<and> 0 < qcount (cq_q s) \<and> cq_val s i = q_load (cq_q s))"
| "cq_at C_count i s = (0 < qcount (cq_q s)
     \<and> qtail (cq_q s) = (qhead (cq_q s) + nat (qcount (cq_q s) - 1)) mod QUEUE_SIZE
     \<and> cq_pushed s = cq_popped s @ cq_val s i # ring_list (qdata (cq_q s)) (qhead (cq_q s)) (nat (qcount (cq_q s) - 1)))"
| "cq_at _ i s = cq_base s"

definition cq_data :: "cq \<Rightarrow> bool" where
  "cq_data s \<longleftrightarrow> q_shape (cq_q s)
     \<and> (case cq_lock s of None \<Rightarrow> cq_base s | Some i \<Rightarrow> cq_at (cq_pc s i) i s)"

definition cq_inv :: "cq \<Rightarrow> bool" where
  "cq_inv s \<longleftrightarrow> cq_mutex s \<and> cq_data s"

section \<open>Lemmas\<close>

lemma goto_simps [simp]:
  "cq_q (goto i p s) = cq_q s" "cq_lock (goto i p s) = cq_lock s" "cq_pc (goto i p s) = (cq_pc s)(i := p)"
  "cq_todo (goto i p s) = cq_todo s" "cq_val (goto i p s) = cq_val s" "cq_got (goto i p s) = cq_got s"
  "cq_pushed (goto i p s) = cq_pushed s" "cq_popped (goto i p s) = cq_popped s"
  by (simp_all add: goto_def)

lemma on_q_simps [simp]:
  "cq_q (on_q f s) = f (cq_q s)" "cq_lock (on_q f s) = cq_lock s" "cq_pc (on_q f s) = cq_pc s"
  "cq_todo (on_q f s) = cq_todo s" "cq_val (on_q f s) = cq_val s" "cq_got (on_q f s) = cq_got s"
  "cq_pushed (on_q f s) = cq_pushed s" "cq_popped (on_q f s) = cq_popped s"
  by (simp_all add: on_q_def)

lemma crit_simps [simp]:
  "crit P_check" "crit P_store" "crit P_tail" "crit P_count" "crit P_signal" "crit P_unlock"
  "crit C_check" "crit C_load" "crit C_head" "crit C_count" "crit C_signal" "crit C_unlock"
  "\<not> crit P_lock" "\<not> crit P_wait" "\<not> crit P_relock" "\<not> crit C_lock" "\<not> crit C_wait" "\<not> crit C_relock" "\<not> crit T_done"
  by (simp_all add: crit_def)

lemma crit_set_goto [simp]:
  "crit_set (goto i p s) = (if crit p then insert i (crit_set s) else crit_set s - {i})"
  by (auto simp: crit_set_def)

lemma crit_set_frame [simp]:
  "crit_set (on_q f s) = crit_set s" "crit_set (s\<lparr>cq_lock := l\<rparr>) = crit_set s"
  "crit_set (s\<lparr>cq_pushed := xs\<rparr>) = crit_set s" "crit_set (s\<lparr>cq_popped := xs\<rparr>) = crit_set s"
  "crit_set (s\<lparr>cq_val := v\<rparr>) = crit_set s" "crit_set (s\<lparr>cq_todo := td\<rparr>) = crit_set s"
  "crit_set (s\<lparr>cq_got := g\<rparr>) = crit_set s"
  by (simp_all add: crit_set_def)

lemma mutexD: "cq_mutex s \<Longrightarrow> crit (cq_pc s i) \<Longrightarrow> cq_lock s = Some i"
  by (auto simp: cq_mutex_def crit_set_def)

lemma mutex_keep: "cq_mutex s \<Longrightarrow> crit (cq_pc s i) = crit p \<Longrightarrow> cq_mutex (goto i p s)"
  by (auto simp: cq_mutex_def crit_set_def)

lemma mutex_take: "cq_mutex s \<Longrightarrow> cq_lock s = None \<Longrightarrow> crit p \<Longrightarrow> cq_mutex (goto i p (s\<lparr>cq_lock := Some i\<rparr>))"
  by (auto simp: cq_mutex_def)

lemma crit_unique: "cq_mutex s \<Longrightarrow> crit (cq_pc s i) \<Longrightarrow> crit_set s = {i}"
  using mutexD [of s i] by (simp add: cq_mutex_def)

lemma mutex_drop:
  "cq_mutex s \<Longrightarrow> crit (cq_pc s i) \<Longrightarrow> \<not> crit p \<Longrightarrow> cq_mutex (goto i p (s\<lparr>cq_lock := None\<rparr>))"
  "cq_mutex s \<Longrightarrow> crit (cq_pc s i) \<Longrightarrow> \<not> crit p \<Longrightarrow> cq_mutex (goto i p (s\<lparr>cq_lock := None, cq_todo := td\<rparr>))"
  "cq_mutex s \<Longrightarrow> crit (cq_pc s i) \<Longrightarrow> \<not> crit p \<Longrightarrow> cq_mutex (goto i p (s\<lparr>cq_lock := None, cq_got := g\<rparr>))"
  by (simp_all add: cq_mutex_def [of "goto _ _ _"] crit_unique)

lemma mutex_wake:
  "cq_mutex s \<Longrightarrow> crit (cq_pc s i) \<Longrightarrow> crit p \<Longrightarrow> \<not> crit (cq_pc s j) \<Longrightarrow> \<not> crit r \<Longrightarrow>
     cq_mutex (goto i p (goto j r s))"
  by (intro mutex_keep) auto

lemma mutex_frame [simp]:
  "cq_mutex (on_q f s) = cq_mutex s" "cq_mutex (s\<lparr>cq_pushed := xs\<rparr>) = cq_mutex s"
  "cq_mutex (s\<lparr>cq_popped := xs\<rparr>) = cq_mutex s" "cq_mutex (s\<lparr>cq_val := v\<rparr>) = cq_mutex s"
  by (simp_all add: cq_mutex_def)

lemma push_mutex: "queue_push_step i s t \<Longrightarrow> cq_mutex s \<Longrightarrow> cq_mutex t"
  by (erule queue_push_step.cases) (simp_all add: mutex_keep mutex_take mutex_drop mutex_wake)

lemma pop_mutex: "queue_pop_step i s t \<Longrightarrow> cq_mutex s \<Longrightarrow> cq_mutex t"
  by (erule queue_pop_step.cases) (simp_all add: mutex_keep mutex_take mutex_drop mutex_wake)

lemma spurious_mutex: "spurious_step i s t \<Longrightarrow> cq_mutex s \<Longrightarrow> cq_mutex t"
  by (erule spurious_step.cases) (simp_all add: mutex_keep)

text \<open>Only the queue, the two histories and the holder's own locals matter to the data invariant.\<close>

lemma cq_base_frame [simp]:
  "cq_base (goto i p s) = cq_base s" "cq_base (s\<lparr>cq_lock := l\<rparr>) = cq_base s"
  "cq_base (s\<lparr>cq_val := v\<rparr>) = cq_base s" "cq_base (s\<lparr>cq_todo := td\<rparr>) = cq_base s"
  "cq_base (s\<lparr>cq_got := g\<rparr>) = cq_base s"
  by (simp_all add: cq_base_def)

lemma cq_at_goto [simp]: "cq_at p i (goto j r s) = cq_at p i s"
  by (cases p) simp_all

lemma data_other:
  assumes "cq_mutex s" and "cq_data s" and "\<not> crit (cq_pc s j)"
  shows "cq_data (goto j p s)"
proof (cases "cq_lock s")
  case None
  with assms(2) show ?thesis by (simp add: cq_data_def)
next
  case (Some i)
  then have "i \<noteq> j" using assms(1,3) by (auto simp: cq_mutex_def crit_set_def)
  with Some assms(2) show ?thesis by (simp add: cq_data_def)
qed

lemma data_holder: "cq_mutex s \<Longrightarrow> cq_data s \<Longrightarrow> cq_pc s i = p \<Longrightarrow> crit p \<Longrightarrow> cq_at p i s \<and> q_shape (cq_q s) \<and> cq_lock s = Some i"
  using mutexD [of s i] by (auto simp: cq_data_def)

lemma data_free: "cq_data s \<Longrightarrow> cq_lock s = None \<Longrightarrow> cq_base s \<and> q_shape (cq_q s)"
  by (simp add: cq_data_def)

text \<open>The three statements of push and of pop.\<close>

lemma store_at_tail:
  assumes "q_shape (cq_q s)" and "cq_base s" and "qcount (cq_q s) < int QUEUE_SIZE"
  shows "cq_at P_tail i (on_q (\<lambda>q. q_store q (hd (cq_todo s i))) s)
     \<and> q_shape (q_store (cq_q s) (hd (cq_todo s i)))"
proof -
  have n: "nat (qcount (cq_q s)) < QUEUE_SIZE" using assms by (auto simp: q_shape_def)
  show ?thesis
    using assms n ring_list_store [OF n, of "qtail (cq_q s)" "qhead (cq_q s)"]
    by (simp add: cq_base_def q_list_def q_store_def q_shape_def)
qed

lemma adv_tail_count:
  "q_shape (cq_q s) \<Longrightarrow> cq_at P_tail i s \<Longrightarrow> cq_at P_count i (on_q q_adv_tail s) \<and> q_shape (q_adv_tail (cq_q s))"
  by (auto simp: cq_base_def q_adv_tail_def q_list_def q_shape_def mod_Suc_eq)

lemma inc_base:
  assumes "q_shape (cq_q s)" and "cq_at P_count i s"
  shows "cq_base (on_q q_inc (s\<lparr>cq_pushed := cq_pushed s @ [hd (cq_todo s i)]\<rparr>)) \<and> q_shape (q_inc (cq_q s))"
proof -
  have "nat (qcount (cq_q s) + 1) = Suc (nat (qcount (cq_q s)))" using assms(1) by (auto simp: q_shape_def)
  with assms show ?thesis by (simp add: cq_base_def q_inc_def q_list_def q_shape_def ring_list_Suc)
qed

lemma adv_head_count:
  assumes "q_shape (cq_q s)" and "cq_at C_head i s"
  shows "cq_at C_count i (on_q q_adv_head s) \<and> q_shape (q_adv_head (cq_q s))"
proof -
  obtain n where n: "nat (qcount (cq_q s)) = Suc n" using assms(2) by (metis cq_at.simps(5) gr0_implies_Suc zero_less_nat_eq)
  then have "nat (qcount (cq_q s) - 1) = n" by simp
  with assms n show ?thesis
    by (simp add: cq_base_def q_adv_head_def q_list_def q_load_def q_shape_def ring_list_Cons mod_add_left_eq)
qed

lemma dec_base:
  "q_shape (cq_q s) \<Longrightarrow> cq_at C_count i s \<Longrightarrow>
     cq_base (on_q q_dec (s\<lparr>cq_popped := cq_popped s @ [cq_val s i]\<rparr>)) \<and> q_shape (q_dec (cq_q s))"
  by (simp add: cq_base_def q_dec_def q_list_def q_shape_def)

lemma data_step: "cq_lock t = Some i \<Longrightarrow> cq_pc t i = p \<Longrightarrow> cq_at p i t \<Longrightarrow> q_shape (cq_q t) \<Longrightarrow> cq_data t"
  by (simp add: cq_data_def)

lemma data_unlock: "cq_lock t = None \<Longrightarrow> cq_base t \<Longrightarrow> q_shape (cq_q t) \<Longrightarrow> cq_data t"
  by (simp add: cq_data_def)

lemma push_data: "queue_push_step i s t \<Longrightarrow> cq_mutex s \<Longrightarrow> cq_data s \<Longrightarrow> cq_data t"
proof (induction rule: queue_push_step.cases)
  case (push_return s i)
  then show ?case by (simp add: data_other)
next
  case (push_lock s i)
  then show ?case using data_free [of s] by (intro data_step [of _ i P_check]) auto
next
  case (push_wait s i)
  then show ?case using data_holder [of s i P_check] by (intro data_unlock) auto
next
  case (push_relock s i)
  then show ?case using data_free [of s] by (intro data_step [of _ i P_check]) auto
next
  case (push_enter s i)
  then show ?case using data_holder [of s i P_check] by (intro data_step [of _ i P_store]) (auto simp: q_shape_def)
next
  case (push_store s i)
  then show ?case
    using data_holder [of s i P_store] store_at_tail [of s i] by (intro data_step [of _ i P_tail]) simp_all
next
  case (push_tail s i)
  then show ?case
    using data_holder [of s i P_tail] adv_tail_count [of s i] by (intro data_step [of _ i P_count]) simp_all
next
  case (push_count s i)
  then show ?case
    using data_holder [of s i P_count] inc_base [of s i] by (intro data_step [of _ i P_signal]) simp_all
next
  case (push_signal s i j)
  then show ?case using data_holder [of s i P_signal] by (intro data_step [of _ i P_unlock]) simp_all
next
  case (push_signal_none s i)
  then show ?case using data_holder [of s i P_signal] by (intro data_step [of _ i P_unlock]) simp_all
next
  case (push_unlock s i)
  then show ?case using data_holder [of s i P_unlock] by (intro data_unlock) simp_all
qed

lemma pop_data: "queue_pop_step i s t \<Longrightarrow> cq_mutex s \<Longrightarrow> cq_data s \<Longrightarrow> cq_data t"
proof (induction rule: queue_pop_step.cases)
  case (pop_lock s i)
  then show ?case using data_free [of s] by (intro data_step [of _ i C_check]) auto
next
  case (pop_wait s i)
  then show ?case using data_holder [of s i C_check] by (intro data_unlock) auto
next
  case (pop_relock s i)
  then show ?case using data_free [of s] by (intro data_step [of _ i C_check]) auto
next
  case (pop_enter s i)
  then show ?case using data_holder [of s i C_check] by (intro data_step [of _ i C_load]) (auto simp: q_shape_def)
next
  case (pop_load s i)
  then show ?case using data_holder [of s i C_load] by (intro data_step [of _ i C_head]) simp_all
next
  case (pop_head s i)
  then show ?case
    using data_holder [of s i C_head] adv_head_count [of s i] by (intro data_step [of _ i C_count]) simp_all
next
  case (pop_count s i)
  then show ?case
    using data_holder [of s i C_count] dec_base [of s i] by (intro data_step [of _ i C_signal]) simp_all
next
  case (pop_signal s i j)
  then show ?case using data_holder [of s i C_signal] by (intro data_step [of _ i C_unlock]) simp_all
next
  case (pop_signal_none s i)
  then show ?case using data_holder [of s i C_signal] by (intro data_step [of _ i C_unlock]) simp_all
next
  case (pop_unlock_stop s i)
  then show ?case using data_holder [of s i C_unlock] by (intro data_unlock) simp_all
next
  case (pop_unlock_next s i)
  then show ?case using data_holder [of s i C_unlock] by (intro data_unlock) simp_all
qed

lemma spurious_data: "spurious_step i s t \<Longrightarrow> cq_mutex s \<Longrightarrow> cq_data s \<Longrightarrow> cq_data t"
  by (erule spurious_step.cases) (simp_all add: data_other)

lemma cq_init_inv: "cq_init s \<Longrightarrow> cq_inv s"
proof -
  assume init: "cq_init s"
  then have "\<not> crit (cq_pc s i)" for i
    unfolding cq_init_def by (metis crit_simps(13,16,19) empty_iff insert_iff)
  with init show ?thesis
    using queue0_inv by (simp add: cq_inv_def cq_mutex_def crit_set_def cq_data_def cq_base_def cq_init_def q_inv_def)
qed

lemma cq_step_inv: "cq_step s t \<Longrightarrow> cq_inv s \<Longrightarrow> cq_inv t"
  by (auto simp: cq_step_def cq_inv_def intro: push_mutex pop_mutex push_data pop_data)

interpretation cqs: inv_system cq_init cq_any_step cq_inv
proof (unfold_locales, goal_cases)
  case (1 s)
  then show ?case by (rule cq_init_inv)
next
  case (2 s t)
  then show ?case using cq_step_inv [of s t]
    by (auto simp: cq_any_step_def cq_inv_def intro: spurious_mutex spurious_data)
qed

section \<open>One producer, one consumer: no lost wake-up, termination\<close>

fun prod_at :: "pc \<Rightarrow> int list \<Rightarrow> int list \<Rightarrow> int list \<Rightarrow> bool" where
  "prod_at P_lock ps td vs = (ps @ td = vs)"
| "prod_at P_check ps td vs = (td \<noteq> [] \<and> ps @ td = vs)"
| "prod_at P_wait ps td vs = (td \<noteq> [] \<and> ps @ td = vs)"
| "prod_at P_relock ps td vs = (td \<noteq> [] \<and> ps @ td = vs)"
| "prod_at P_store ps td vs = (td \<noteq> [] \<and> ps @ td = vs)"
| "prod_at P_tail ps td vs = (td \<noteq> [] \<and> ps @ td = vs)"
| "prod_at P_count ps td vs = (td \<noteq> [] \<and> ps @ td = vs)"
| "prod_at P_signal ps td vs = (td \<noteq> [] \<and> ps @ tl td = vs)"
| "prod_at P_unlock ps td vs = (td \<noteq> [] \<and> ps @ tl td = vs)"
| "prod_at T_done ps td vs = (ps = vs)"
| "prod_at _ ps td vs = False"

fun cons_at :: "pc \<Rightarrow> int list \<Rightarrow> int list \<Rightarrow> int \<Rightarrow> bool" where
  "cons_at C_lock ps g v = (ps = g)"
| "cons_at C_check ps g v = (ps = g)"
| "cons_at C_wait ps g v = (ps = g)"
| "cons_at C_relock ps g v = (ps = g)"
| "cons_at C_load ps g v = (ps = g)"
| "cons_at C_head ps g v = (ps = g)"
| "cons_at C_count ps g v = (ps = g)"
| "cons_at C_signal ps g v = (ps = g @ [v])"
| "cons_at C_unlock ps g v = (ps = g @ [v])"
| "cons_at T_done ps g v = (ps = g @ [SENTINEL])"
| "cons_at _ ps g v = False"

definition wait_ok :: "pc \<Rightarrow> pc \<Rightarrow> int \<Rightarrow> bool" where
  "wait_ok p c k \<longleftrightarrow> (c = C_wait \<longrightarrow> k = 0 \<or> p = P_signal) \<and> (c = C_relock \<longrightarrow> 0 < k)
     \<and> (p = P_wait \<longrightarrow> k = int QUEUE_SIZE \<or> c = C_signal) \<and> (p = P_relock \<longrightarrow> k < int QUEUE_SIZE)
     \<and> (p = P_signal \<longrightarrow> 0 < k) \<and> (c = C_signal \<longrightarrow> k < int QUEUE_SIZE)"

definition duo :: "cq \<Rightarrow> bool" where
  "duo s \<longleftrightarrow> (\<forall>i. cq_pc s i \<noteq> T_done \<longrightarrow> i = 0 \<or> i = 1)"

definition demo_inv :: "int list \<Rightarrow> cq \<Rightarrow> bool" where
  "demo_inv vs s \<longleftrightarrow> cq_inv s \<and> duo s
     \<and> prod_at (cq_pc s 0) (cq_pushed s) (cq_todo s 0) vs
     \<and> cons_at (cq_pc s 1) (cq_popped s) (cq_got s 1) (cq_val s 1)
     \<and> SENTINEL \<notin> set (cq_got s 1)
     \<and> wait_ok (cq_pc s 0) (cq_pc s 1) (qcount (cq_q s))"

lemma tid_0: "demo_inv vs s \<Longrightarrow> cq_pc s j = p \<Longrightarrow> p \<noteq> T_done \<Longrightarrow> (\<And>ps g v. \<not> cons_at p ps g v) \<Longrightarrow> j = 0"
  unfolding demo_inv_def duo_def by metis

lemma tid_1: "demo_inv vs s \<Longrightarrow> cq_pc s j = p \<Longrightarrow> p \<noteq> T_done \<Longrightarrow> (\<And>ps td vs. \<not> prod_at p ps td vs) \<Longrightarrow> j = 1"
  unfolding demo_inv_def duo_def by metis

lemma push_tid: "queue_push_step i s t \<Longrightarrow> demo_inv vs s \<Longrightarrow> i = 0"
  by (erule queue_push_step.cases) (auto intro: tid_0)

lemma pop_tid: "queue_pop_step i s t \<Longrightarrow> demo_inv vs s \<Longrightarrow> i = 1"
  by (erule queue_pop_step.cases) (auto simp del: One_nat_def intro: tid_1)

lemma waiter_tid:
  "demo_inv vs s \<Longrightarrow> cq_pc s j = C_wait \<Longrightarrow> j = 1" "demo_inv vs s \<Longrightarrow> cq_pc s j = P_wait \<Longrightarrow> j = 0"
  by (auto simp del: One_nat_def intro: tid_0 tid_1)

lemma duo_goto: "duo s \<Longrightarrow> i = 0 \<or> i = 1 \<Longrightarrow> duo (goto i p s)"
  by (simp add: duo_def)

lemma duo_frame [simp]:
  "duo (on_q f s) = duo s" "duo (s\<lparr>cq_lock := l\<rparr>) = duo s" "duo (s\<lparr>cq_pushed := xs\<rparr>) = duo s"
  "duo (s\<lparr>cq_popped := xs\<rparr>) = duo s" "duo (s\<lparr>cq_val := v\<rparr>) = duo s" "duo (s\<lparr>cq_todo := td\<rparr>) = duo s"
  "duo (s\<lparr>cq_got := g\<rparr>) = duo s"
  by (simp_all add: duo_def)

text \<open>While one of the two is inside the critical section the other is not.\<close>

lemma other_outside:
  assumes "demo_inv vs s"
  shows "crit (cq_pc s 0) \<Longrightarrow> \<not> crit (cq_pc s 1)" "crit (cq_pc s 1) \<Longrightarrow> \<not> crit (cq_pc s 0)"
  using assms mutexD [of s 0] mutexD [of s 1] by (auto simp: demo_inv_def cq_inv_def)

lemma demo_shape: "demo_inv vs s \<Longrightarrow> 0 \<le> qcount (cq_q s) \<and> qcount (cq_q s) \<le> int QUEUE_SIZE"
  by (simp add: demo_inv_def cq_inv_def cq_data_def q_shape_def)

lemma demo_at: "demo_inv vs s \<Longrightarrow> cq_pc s i = p \<Longrightarrow> crit p \<Longrightarrow> cq_at p i s"
  using data_holder [of s i p] by (auto simp: demo_inv_def cq_inv_def)

lemma push_demo:
  assumes "queue_push_step i s t" and inv: "demo_inv vs s"
  shows "demo_inv vs t"
proof -
  have cq: "cq_inv t" using assms cq_step_inv [of s t] by (auto simp: cq_step_def demo_inv_def)
  have i: "i = 0" using assms by (rule push_tid)
  note D = inv [unfolded demo_inv_def wait_ok_def]
  from assms(1) show ?thesis
  proof cases
    case push_count
    then have "\<not> crit (cq_pc s 1)" and "0 \<le> qcount (cq_q s)" and "qcount (cq_q s) < int QUEUE_SIZE"
      using other_outside(1) [OF inv] demo_shape [OF inv] demo_at [OF inv, of 0 P_count] i by auto
    with push_count cq i D show ?thesis
      by (cases "cq_todo s 0") (auto simp: demo_inv_def duo_goto wait_ok_def q_inc_def)
  next
    case (push_signal j)
    then have "j = 1" using waiter_tid(1) [OF inv] by blast
    with push_signal cq i D show ?thesis by (simp add: demo_inv_def duo_goto wait_ok_def)
  qed (use cq i D demo_shape [OF inv] in \<open>auto simp: demo_inv_def duo_goto wait_ok_def q_store_def q_adv_tail_def\<close>)
qed

lemma pop_demo:
  assumes "queue_pop_step i s t" and inv: "demo_inv vs s"
  shows "demo_inv vs t"
proof -
  have cq: "cq_inv t" using assms cq_step_inv [of s t] by (auto simp: cq_step_def demo_inv_def)
  have i: "i = 1" using assms by (rule pop_tid)
  note D = inv [unfolded demo_inv_def wait_ok_def]
  from assms(1) show ?thesis
  proof cases
    case pop_count
    then have "\<not> crit (cq_pc s 0)" and "qcount (cq_q s) \<le> int QUEUE_SIZE" and "0 < qcount (cq_q s)"
      using other_outside(2) [OF inv] demo_shape [OF inv] demo_at [OF inv, of 1 C_count] i by auto
    with pop_count cq i D show ?thesis
      by (auto simp: demo_inv_def duo_goto wait_ok_def q_dec_def)
  next
    case (pop_signal j)
    then have "j = 0" using waiter_tid(2) [OF inv] by blast
    with pop_signal cq i D show ?thesis by (simp add: demo_inv_def duo_goto wait_ok_def)
  qed (use cq i D demo_shape [OF inv] in \<open>auto simp: demo_inv_def duo_goto wait_ok_def q_adv_head_def\<close>)
qed

definition cq_final :: "cq \<Rightarrow> bool" where
  "cq_final s \<longleftrightarrow> cq_pc s 0 = T_done \<and> cq_pc s 1 = T_done"

text \<open>
  How far a thread is from its next effect on the queue; a thread about to find that it has to wait
  is further away than one that will pass the check.
\<close>

fun pc_rank :: "pc \<Rightarrow> int \<Rightarrow> nat" where
  "pc_rank P_lock k = 9" | "pc_rank C_lock k = 9"
| "pc_rank P_check k = (if k = int QUEUE_SIZE then 8 else 5)" | "pc_rank C_check k = (if k = 0 then 8 else 5)"
| "pc_rank P_wait k = 7" | "pc_rank C_wait k = 7" | "pc_rank P_relock k = 6" | "pc_rank C_relock k = 6"
| "pc_rank P_store k = 4" | "pc_rank C_load k = 4" | "pc_rank P_tail k = 3" | "pc_rank C_head k = 3"
| "pc_rank P_count k = 2" | "pc_rank C_count k = 2" | "pc_rank P_signal k = 11" | "pc_rank C_signal k = 11"
| "pc_rank P_unlock k = 10" | "pc_rank C_unlock k = 10" | "pc_rank T_done k = 0"

definition cq_measure :: "int list \<Rightarrow> cq \<Rightarrow> nat" where
  "cq_measure vs s = 20 * ((length vs - length (cq_pushed s)) + (length vs - length (cq_popped s)))
     + pc_rank (cq_pc s 0) (qcount (cq_q s)) + pc_rank (cq_pc s 1) (qcount (cq_q s))"

lemma rank_outside: "\<not> crit p \<Longrightarrow> pc_rank p k = pc_rank p 0"
  by (cases p) auto

lemma push_less:
  assumes "queue_push_step i s t" and inv: "demo_inv vs s"
  shows "cq_measure vs t < cq_measure vs s"
proof -
  have i: "i = 0" using assms by (rule push_tid)
  note D = inv [unfolded demo_inv_def wait_ok_def]
  from assms(1) show ?thesis
  proof cases
    case push_count
    then have out: "\<not> crit (cq_pc s 1)" using other_outside(1) [OF inv] i by simp
    have "length (cq_pushed s) < length vs" using push_count i D by (auto simp: append_eq_conv_conj)
    with push_count i rank_outside [OF out, of "qcount (cq_q s)"] rank_outside [OF out, of "qcount (cq_q s) + 1"]
    show ?thesis by (simp add: cq_measure_def q_inc_def)
  next
    case (push_signal j)
    then have "j = 1" using waiter_tid(1) [OF inv] by blast
    with push_signal i show ?thesis by (simp add: cq_measure_def)
  qed (use i D in \<open>auto simp: cq_measure_def q_store_def q_adv_tail_def\<close>)
qed

lemma pushed_length: "demo_inv vs s \<Longrightarrow> length (cq_pushed s) \<le> length vs"
  unfolding demo_inv_def by (cases "cq_pc s 0") auto

lemma pop_less:
  assumes "queue_pop_step i s t" and inv: "demo_inv vs s"
  shows "cq_measure vs t < cq_measure vs s"
proof -
  have i: "i = 1" using assms by (rule pop_tid)
  note D = inv [unfolded demo_inv_def wait_ok_def]
  from assms(1) show ?thesis
  proof cases
    case pop_count
    then have out: "\<not> crit (cq_pc s 0)" using other_outside(2) [OF inv] i by simp
    have "length (cq_popped s) < length (cq_pushed s)" using demo_at [OF inv, of 1 C_count] pop_count i by simp
    then have "length (cq_popped s) < length vs" using pushed_length [OF inv] by simp
    with pop_count i rank_outside [OF out, of "qcount (cq_q s)"] rank_outside [OF out, of "qcount (cq_q s) - 1"]
    show ?thesis by (simp add: cq_measure_def q_dec_def)
  next
    case (pop_signal j)
    then have "j = 0" using waiter_tid(2) [OF inv] by blast
    with pop_signal i show ?thesis by (simp add: cq_measure_def)
  qed (use i D in \<open>auto simp: cq_measure_def q_adv_head_def\<close>)
qed

text \<open>A thread inside the critical section can always go on; one that waits for a free mutex can take it.\<close>

lemma crit_progress:
  assumes "crit (cq_pc s i)"
  shows "\<exists>t. cq_step s t"
proof (cases "cq_pc s i")
  case P_check
  then show ?thesis unfolding cq_step_def by (metis push_wait push_enter)
next
  case C_check
  then show ?thesis unfolding cq_step_def by (metis pop_wait pop_enter)
next
  case P_signal
  then show ?thesis unfolding cq_step_def by (metis push_signal push_signal_none)
next
  case C_signal
  then show ?thesis unfolding cq_step_def by (metis pop_signal pop_signal_none)
next
  case C_unlock
  then show ?thesis unfolding cq_step_def by (metis pop_unlock_stop pop_unlock_next)
qed (use assms in \<open>auto simp: cq_step_def intro: queue_push_step.intros queue_pop_step.intros\<close>)

lemma free_progress:
  assumes "cq_lock s = None" and "cq_pc s i \<in> {P_lock, P_relock, C_lock, C_relock}"
  shows "\<exists>t. cq_step s t"
  using assms unfolding cq_step_def
  by (metis empty_iff insert_iff push_return push_lock push_relock pop_lock pop_relock)

lemma all_outside: "cq_inv s \<Longrightarrow> cq_lock s \<noteq> None \<Longrightarrow> \<exists>i. crit (cq_pc s i)"
  by (auto simp: cq_inv_def cq_mutex_def crit_set_def)

lemma producer_values_fresh: "SENTINEL \<notin> set (map int [0..<n])"
  by (auto simp: SENTINEL_def)

lemma prod_outside: "prod_at p ps td vs \<Longrightarrow> \<not> crit p \<Longrightarrow> p \<in> {P_lock, P_wait, P_relock, T_done}"
  by (cases p) auto

lemma cons_outside: "cons_at p ps g v \<Longrightarrow> \<not> crit p \<Longrightarrow> p \<in> {C_lock, C_wait, C_relock, T_done}"
  by (cases p) auto

lemma outside_pcs:
  assumes "demo_inv vs s" and "cq_lock s = None"
  shows "cq_pc s 0 \<in> {P_lock, P_wait, P_relock, T_done}" "cq_pc s 1 \<in> {C_lock, C_wait, C_relock, T_done}"
    and "cq_pushed s = cq_popped s @ q_list (cq_q s)"
proof -
  have out: "\<not> crit (cq_pc s i)" for i using assms by (auto simp: demo_inv_def cq_inv_def cq_mutex_def crit_set_def)
  show "cq_pc s 0 \<in> {P_lock, P_wait, P_relock, T_done}" "cq_pc s 1 \<in> {C_lock, C_wait, C_relock, T_done}"
    using assms(1) out prod_outside cons_outside unfolding demo_inv_def by blast+
  show "cq_pushed s = cq_popped s @ q_list (cq_q s)"
    using assms by (simp add: demo_inv_def cq_inv_def cq_data_def cq_base_def)
qed

lemma demo_progress:
  assumes inv: "demo_inv (xs @ [SENTINEL]) s" and fresh: "SENTINEL \<notin> set xs" and "\<not> cq_final s"
  shows "\<exists>t. cq_step s t"
proof (cases "cq_lock s")
  case (Some i)
  then show ?thesis using inv all_outside [of s] crit_progress by (auto simp: demo_inv_def)
next
  case None
  note D = inv [unfolded demo_inv_def wait_ok_def] and O = outside_pcs [OF inv None]
  show ?thesis
  proof (rule ccontr)
    assume stuck: "\<nexists>t. cq_step s t"
    then have p: "cq_pc s 0 \<in> {P_wait, T_done}" and c: "cq_pc s 1 \<in> {C_wait, T_done}"
      using free_progress [OF None, of 0] free_progress [OF None, of 1] O by auto
    consider "cq_pc s 0 = P_wait" "cq_pc s 1 = C_wait" | "cq_pc s 0 = P_wait" "cq_pc s 1 = T_done"
      | "cq_pc s 0 = T_done" "cq_pc s 1 = C_wait"
      using p c assms(3) by (auto simp: cq_final_def)
    then show False
    proof cases
      case 1
      then show ?thesis using D by (auto simp: QUEUE_SIZE_def)
    next
      case 2
      then have "SENTINEL \<in> set (cq_pushed s)" and "prefix (cq_pushed s) xs"
        using D O(3) by (auto simp: append_eq_append_conv2 Cons_eq_append_conv prefix_def append_eq_Cons_conv)
      then show ?thesis using fresh set_mono_prefix by blast
    next
      case 3
      then show ?thesis using D O(3) by (auto simp: q_list_def)
    qed
  qed
qed

lemma demo_result:
  assumes inv: "demo_inv (xs @ [SENTINEL]) s" and fresh: "SENTINEL \<notin> set xs" and fin: "cq_final s"
  shows "cq_got s 1 = xs \<and> qcount (cq_q s) = 0 \<and> cq_lock s = None"
proof -
  note D = inv [unfolded demo_inv_def]
  have "\<not> crit (cq_pc s i)" for i
    using D fin unfolding duo_def cq_final_def by (metis crit_simps(19))
  then have lock: "cq_lock s = None"
    using D all_outside [of s] by blast
  have "xs @ [SENTINEL] = cq_got s 1 @ SENTINEL # q_list (cq_q s)"
    using D fin outside_pcs(3) [OF inv lock] by (auto simp: cq_final_def)
  then have "xs = cq_got s 1 \<and> [] = q_list (cq_q s)"
    using fresh D by (intro append_Cons_eq_iff [THEN iffD1]) auto
  moreover from this have "nat (qcount (cq_q s)) = 0" by (metis q_list_def ring_list_length list.size(3))
  ultimately show ?thesis using lock demo_shape [OF inv] by auto
qed

lemma alive: "queue_push_step i s t \<Longrightarrow> cq_pc s i \<noteq> T_done" "queue_pop_step i s t \<Longrightarrow> cq_pc s i \<noteq> T_done"
  by (erule queue_push_step.cases, simp_all) (erule queue_pop_step.cases, simp_all)

lemma final_stuck: "demo_inv vs s \<Longrightarrow> cq_final s \<Longrightarrow> \<not> cq_step s t"
  using alive push_tid pop_tid unfolding cq_step_def cq_final_def by metis

lemma demo_start: "demo_inv (producer_values n) (demo_cond_var n)"
proof -
  have "cq_init (demo_cond_var n)" by (simp add: cq_init_def demo_cond_var_def)
  then have "cq_inv (demo_cond_var n)" by (rule cq_init_inv)
  then show ?thesis by (simp add: demo_inv_def demo_cond_var_def duo_def wait_ok_def)
qed

interpretation demo3: bounded_system "\<lambda>s. s = demo_cond_var n" cq_step "demo_inv (producer_values n)"
  "cq_measure (producer_values n)" cq_final for n
proof (unfold_locales, goal_cases)
  case (1 s)
  then show ?case by (simp add: demo_start)
next
  case (2 s t)
  then show ?case by (auto simp: cq_step_def intro: push_demo pop_demo)
next
  case (3 s t)
  then show ?case by (auto simp: cq_step_def intro: push_less pop_less)
next
  case (4 s)
  then show ?case using demo_progress producer_values_fresh by (simp add: producer_values_def)
qed

section \<open>Properties\<close>

text \<open>
  C12. Any number of producers and consumers, any schedule, spurious wake-ups included: at most one
  thread is between taking and releasing the queue's mutex, and the indices and the count stay in range.
\<close>

theorem cond_queue_mutual_exclusion:
  assumes "cq_init s" and "cq_any_step\<^sup>*\<^sup>* s t" and "crit (cq_pc t i)" and "crit (cq_pc t j)"
  shows "i = j \<and> q_shape (cq_q t)"
  using cqs.reach_inv [OF assms(1,2)] mutexD [of t i] mutexD [of t j] assms(3,4)
  by (auto simp: cq_inv_def cq_data_def)

theorem cond_queue_mutual_exclusion_witness:
  "\<exists>t. cq_any_step\<^sup>*\<^sup>* (demo_cond_var 3) t \<and> crit (cq_pc t 0) \<and> q_shape (cq_q t)"
proof -
  let ?t = "goto 0 P_check ((demo_cond_var 3)\<lparr>cq_lock := Some 0\<rparr>)"
  have "queue_push_step 0 (demo_cond_var 3) ?t"
    by (rule push_lock) (simp_all add: demo_cond_var_def producer_values_def)
  then have step: "cq_any_step\<^sup>*\<^sup>* (demo_cond_var 3) ?t" by (intro r_into_rtranclp) (auto simp: cq_any_step_def cq_step_def)
  have init: "cq_init (demo_cond_var 3)" by (simp add: cq_init_def demo_cond_var_def)
  show ?thesis using cond_queue_mutual_exclusion [OF init step, of 0 0] step by (intro exI [of _ ?t]) simp_all
qed

text \<open>
  C13. Any number of producers and consumers, any schedule, spurious wake-ups included: what has been
  popped is at every moment a prefix of what has been pushed, in the order the pushes took effect,
  and whenever the mutex is free the ring holds exactly the rest.
\<close>

theorem cond_queue_fifo:
  assumes "cq_init s" and "cq_any_step\<^sup>*\<^sup>* s t"
  shows "prefix (cq_popped t) (cq_pushed t)
     \<and> (cq_lock t = None \<longrightarrow> cq_pushed t = cq_popped t @ q_list (cq_q t))"
proof -
  have inv: "cq_data t" using cqs.reach_inv [OF assms] by (simp add: cq_inv_def)
  show ?thesis
  proof (cases "cq_lock t")
    case None
    with inv show ?thesis by (simp add: cq_data_def cq_base_def)
  next
    case (Some i)
    with inv have "cq_at (cq_pc t i) i t" by (simp add: cq_data_def)
    then have "prefix (cq_popped t) (cq_pushed t)" by (cases "cq_pc t i") (auto simp: cq_base_def)
    with Some show ?thesis by simp
  qed
qed

theorem cond_queue_fifo_witness:
  "prefix (cq_popped (demo_cond_var 3)) (cq_pushed (demo_cond_var 3))"
  using cond_queue_fifo [of "demo_cond_var 3" "demo_cond_var 3"] by (simp add: cq_init_def demo_cond_var_def)



end
