(* ===== verification/Mutex_Counter.thy ===== *)
theory Mutex_Counter
  imports Thread_Pool
begin

text \<open>
  Demo 2 of \<^verbatim>\<open>02_threads/thread_demo.c\<close>: threads that increment a shared counter under a mutex. The
  increment is a load and a store. The mutex is the one \<^verbatim>\<open>demo_mutex\<close> sets up: it passes
  \<^verbatim>\<open>PTHREAD_PROCESS_SHARED\<close>, a value for \<^verbatim>\<open>pthread_mutexattr_setpshared\<close>, to \<^verbatim>\<open>pthread_mutexattr_settype\<close>,
  where it means a recursive mutex. So the model has the three kinds of mutex with owner and depth.

  Shown for any number of threads and iterations and any schedule: the counter ends at their product.
\<close>

section \<open>Mutexes\<close>

datatype mutex_kind = Mutex_Normal | Mutex_Recursive | Mutex_Errorcheck

record pmutex =
  m_kind :: mutex_kind
  m_owner :: "nat option"
  m_depth :: nat

abbreviation (input) EPERM :: int where "EPERM \<equiv> 1"
abbreviation (input) EINVAL :: int where "EINVAL \<equiv> 22"
abbreviation (input) EDEADLK :: int where "EDEADLK \<equiv> 35"

text \<open>The numbers of the Linux C library.\<close>

abbreviation PTHREAD_PROCESS_SHARED :: int where "PTHREAD_PROCESS_SHARED \<equiv> 1"

definition pthread_mutexattr_settype :: "mutex_kind \<Rightarrow> int \<Rightarrow> int \<times> mutex_kind" where
  "pthread_mutexattr_settype attr n =
     (if n = 0 then (0, Mutex_Normal) else if n = 1 then (0, Mutex_Recursive)
      else if n = 2 then (0, Mutex_Errorcheck) else (EINVAL, attr))"

text \<open>\<open>None\<close> when the call blocks; otherwise its return value and the mutex.\<close>

definition pthread_mutex_lock :: "nat \<Rightarrow> pmutex \<Rightarrow> (int \<times> pmutex) option" where
  "pthread_mutex_lock i m =
     (case m_owner m of
        None \<Rightarrow> Some (0, m\<lparr>m_owner := Some i, m_depth := 1\<rparr>)
      | Some j \<Rightarrow>
          if j \<noteq> i then None
          else (case m_kind m of
                  Mutex_Normal \<Rightarrow> None
                | Mutex_Recursive \<Rightarrow> Some (0, m\<lparr>m_depth := m_depth m + 1\<rparr>)
                | Mutex_Errorcheck \<Rightarrow> Some (EDEADLK, m)))"

definition pthread_mutex_unlock :: "nat \<Rightarrow> pmutex \<Rightarrow> int \<times> pmutex" where
  "pthread_mutex_unlock i m =
     (if m_kind m \<noteq> Mutex_Normal \<and> m_owner m \<noteq> Some i then (EPERM, m)
      else if m_kind m = Mutex_Recursive \<and> 1 < m_depth m then (0, m\<lparr>m_depth := m_depth m - 1\<rparr>)
      else (0, m\<lparr>m_owner := None, m_depth := 0\<rparr>))"

section \<open>The threads\<close>

datatype ci_pc = I_lock | I_load | I_store | I_unlock | I_done

record ci =
  ci_pc :: ci_pc
  ci_i :: nat
  ci_reg :: int

record ci_shared =
  g_mutex :: pmutex
  g_counter :: int

definition counter_increment_step :: "nat \<Rightarrow> nat \<Rightarrow> ci_shared \<Rightarrow> ci \<Rightarrow> (ci_shared \<times> ci) option" where
  "counter_increment_step iters i g l =
     (case ci_pc l of
        I_lock \<Rightarrow>
          if \<not> ci_i l < iters then Some (g, l\<lparr>ci_pc := I_done\<rparr>)
          else (case pthread_mutex_lock i (g_mutex g) of
                  None \<Rightarrow> None
                | Some (r, m) \<Rightarrow> Some (g\<lparr>g_mutex := m\<rparr>, l\<lparr>ci_pc := I_load\<rparr>))
      | I_load \<Rightarrow> Some (g, l\<lparr>ci_reg := g_counter g, ci_pc := I_store\<rparr>)
      | I_store \<Rightarrow> Some (g\<lparr>g_counter := ci_reg l + 1\<rparr>, l\<lparr>ci_pc := I_unlock\<rparr>)
      | I_unlock \<Rightarrow>
          Some (g\<lparr>g_mutex := snd (pthread_mutex_unlock i (g_mutex g))\<rparr>, l\<lparr>ci_i := ci_i l + 1, ci_pc := I_lock\<rparr>)
      | I_done \<Rightarrow> None)"

text \<open>\<^verbatim>\<open>demo_mutex\<close> with \<open>n\<close> threads, up to the point where all threads have been created.\<close>

definition demo_mutex :: "nat \<Rightarrow> ci_shared \<times> ci list" where
  "demo_mutex n =
     (let kind = snd (pthread_mutexattr_settype Mutex_Normal PTHREAD_PROCESS_SHARED)
      in (\<lparr>g_mutex = \<lparr>m_kind = kind, m_owner = None, m_depth = 0\<rparr>, g_counter = 0\<rparr>,
          replicate n \<lparr>ci_pc = I_lock, ci_i = 0, ci_reg = 0\<rparr>))"

text \<open>What it prints after the last \<^verbatim>\<open>pthread_join\<close>: expected and actual value and the verdict.\<close>

definition demo_mutex_report :: "nat \<Rightarrow> nat \<Rightarrow> ci_shared \<Rightarrow> int \<times> int \<times> string" where
  "demo_mutex_report n iters g =
     (int n * int iters, g_counter g, if g_counter g = int n * int iters then ''CORRECT'' else ''RACE DETECTED'')"

section \<open>Invariant\<close>

primrec ci_inside :: "ci_pc \<Rightarrow> bool" where
  "ci_inside I_lock = False" | "ci_inside I_load = True" | "ci_inside I_store = True"
| "ci_inside I_unlock = True" | "ci_inside I_done = False"

primrec ci_stored :: "ci_pc \<Rightarrow> nat" where
  "ci_stored I_lock = 0" | "ci_stored I_load = 0" | "ci_stored I_store = 0"
| "ci_stored I_unlock = 1" | "ci_stored I_done = 0"

primrec ci_rank :: "ci_pc \<Rightarrow> nat" where
  "ci_rank I_lock = 4" | "ci_rank I_load = 3" | "ci_rank I_store = 2" | "ci_rank I_unlock = 1" | "ci_rank I_done = 0"

definition ci_increments :: "ci \<Rightarrow> nat" where
  "ci_increments l = ci_i l + ci_stored (ci_pc l)"

text \<open>Iterations are within the loop bound; a thread about to store has read the current value.\<close>

definition ci_ok :: "nat \<Rightarrow> int \<Rightarrow> ci \<Rightarrow> bool" where
  "ci_ok iters c l \<longleftrightarrow> (if ci_pc l = I_done then ci_i l = iters
                        else if ci_inside (ci_pc l) then ci_i l < iters else ci_i l \<le> iters)
     \<and> (ci_pc l = I_store \<longrightarrow> ci_reg l = c)"

definition mutex_ok :: "pmutex \<Rightarrow> nat set \<Rightarrow> bool" where
  "mutex_ok m inside \<longleftrightarrow> m_kind m = Mutex_Recursive \<and> inside = set_option (m_owner m)
     \<and> m_depth m = card (set_option (m_owner m))"

definition ci_inv :: "nat \<Rightarrow> ci_shared \<Rightarrow> ci list \<Rightarrow> bool" where
  "ci_inv iters g ls \<longleftrightarrow> mutex_ok (g_mutex g) (where_in (\<lambda>l. ci_inside (ci_pc l)) ls)
     \<and> g_counter g = int (sum_list (map ci_increments ls)) \<and> list_all (ci_ok iters (g_counter g)) ls"

section \<open>Lemmas\<close>

lemma lock_ok:
  "mutex_ok m S \<Longrightarrow> i \<notin> S \<Longrightarrow> pthread_mutex_lock i m = Some (r, m') \<Longrightarrow> mutex_ok m' (insert i S)"
  by (auto simp: mutex_ok_def pthread_mutex_lock_def split: option.splits if_splits)

lemma unlock_ok: "mutex_ok m S \<Longrightarrow> i \<in> S \<Longrightarrow> mutex_ok (snd (pthread_mutex_unlock i m)) (S - {i})"
  by (auto simp: mutex_ok_def pthread_mutex_unlock_def)

lemma lock_free: "m_owner m = None \<Longrightarrow> pthread_mutex_lock i m \<noteq> None"
  by (simp add: pthread_mutex_lock_def)

lemma ci_others:
  assumes "list_all (ci_ok iters c) ls" and "where_in (\<lambda>l. ci_inside (ci_pc l)) ls \<subseteq> {i}"
    and "ci_ok iters c' l" and "i < length ls"
  shows "list_all (ci_ok iters c') (ls[i := l])"
  unfolding list_all_length
proof (intro allI impI)
  fix j
  assume j: "j < length (ls[i := l])"
  show "ci_ok iters c' (ls[i := l] ! j)"
  proof (cases "j = i")
    case False
    then have "\<not> ci_inside (ci_pc (ls ! j))" using assms(2) j by (auto simp: where_in_def)
    then have "ci_pc (ls ! j) \<noteq> I_store" by auto
    then show ?thesis using assms(1) j False by (simp add: list_all_length ci_ok_def)
  qed (use assms(3,4) in simp)
qed

lemma increments_upd:
  "i < length ls \<Longrightarrow> ci_increments l = ci_increments (ls ! i) + k \<Longrightarrow>
     int (sum_list (map ci_increments (ls[i := l]))) = int (sum_list (map ci_increments ls)) + int k"
  using sum_list_upd [of i ls ci_increments l] by simp

lemma ci_step_inv:
  assumes inv: "ci_inv iters g ls" and i: "i < length ls"
    and step: "counter_increment_step iters i g (ls ! i) = Some (g', l')"
  shows "ci_inv iters g' (ls[i := l'])"
proof -
  let ?S = "where_in (\<lambda>l. ci_inside (ci_pc l)) ls"
  have m: "mutex_ok (g_mutex g) ?S" and c: "g_counter g = int (sum_list (map ci_increments ls))"
    and ok: "list_all (ci_ok iters (g_counter g)) ls" using inv by (auto simp: ci_inv_def)
  have oki: "ci_ok iters (g_counter g) (ls ! i)" using ok i by (rule list_all_at)
  show ?thesis
  proof (cases "ci_pc (ls ! i)")
    case I_lock
    then have out: "i \<notin> ?S" using i by simp
    show ?thesis
    proof (cases "ci_i (ls ! i) < iters")
      case True
      with step I_lock obtain r m' where l: "pthread_mutex_lock i (g_mutex g) = Some (r, m')"
        "g' = g\<lparr>g_mutex := m'\<rparr>" "l' = (ls ! i)\<lparr>ci_pc := I_load\<rparr>"
        by (auto simp: counter_increment_step_def split: option.splits)
      then show ?thesis
        using lock_ok [OF m out] i c ok True increments_upd [of i ls l' 0] I_lock
        by (auto simp: ci_inv_def ci_increments_def ci_ok_def intro!: list_all_update)
    next
      case False
      with step I_lock show ?thesis
        using i c ok oki m out increments_upd [of i ls l' 0]
        by (auto simp: counter_increment_step_def ci_inv_def ci_increments_def ci_ok_def intro!: list_all_update)
    qed
  next
    case I_load
    with step show ?thesis
      using i c ok oki m increments_upd [of i ls l' 0]
      by (auto simp: counter_increment_step_def ci_inv_def ci_increments_def ci_ok_def insert_absorb intro!: list_all_update)
  next
    case I_store
    then have "i \<in> ?S" using i by simp
    then have S: "?S = {i}" using m by (auto simp: mutex_ok_def)
    have reg: "ci_reg (ls ! i) = g_counter g" using oki I_store by (simp add: ci_ok_def)
    have g': "g' = g\<lparr>g_counter := g_counter g + 1\<rparr>" "l' = (ls ! i)\<lparr>ci_pc := I_unlock\<rparr>"
      using step I_store reg by (auto simp: counter_increment_step_def)
    have "ci_ok iters (g_counter g + 1) l'" using oki I_store g' by (simp add: ci_ok_def)
    then have "list_all (ci_ok iters (g_counter g + 1)) (ls[i := l'])" using ok S i by (intro ci_others) auto
    then show ?thesis
      using g' m S i c I_store increments_upd [of i ls l' 1] by (simp add: ci_inv_def ci_increments_def)
  next
    case I_unlock
    then have "i \<in> ?S" using i by simp
    with I_unlock step show ?thesis
      using i c ok oki m unlock_ok [OF m] increments_upd [of i ls l' 0]
      by (auto simp: counter_increment_step_def ci_inv_def ci_increments_def ci_ok_def intro!: list_all_update)
  next
    case I_done
    with step show ?thesis by (simp add: counter_increment_step_def)
  qed
qed

lemma ci_rank_less:
  assumes "ci_inv iters g ls" and "i < length ls" and "counter_increment_step iters i g (ls ! i) = Some (g', l')"
  shows "4 * (iters - ci_i l') + ci_rank (ci_pc l') < 4 * (iters - ci_i (ls ! i)) + ci_rank (ci_pc (ls ! i))"
proof -
  have "ci_ok iters (g_counter g) (ls ! i)" using assms(1,2) list_all_at unfolding ci_inv_def by blast
  then show ?thesis
    using assms(3) by (cases "ci_pc (ls ! i)")
      (auto simp: counter_increment_step_def ci_ok_def split: option.splits if_splits)
qed

lemma ci_progress:
  assumes "ci_inv iters g ls" and "\<not> list_all (\<lambda>l. ci_pc l = I_done) ls"
  shows "\<exists>i < length ls. counter_increment_step iters i g (ls ! i) \<noteq> None"
proof (cases "m_owner (g_mutex g)")
  case None
  obtain i where i: "i < length ls" "ci_pc (ls ! i) \<noteq> I_done" using assms(2) by (auto simp: list_all_length)
  then have "counter_increment_step iters i g (ls ! i) \<noteq> None"
    using lock_free [OF None, of i] by (cases "ci_pc (ls ! i)") (auto simp: counter_increment_step_def split: option.splits)
  with i(1) show ?thesis by blast
next
  case (Some i)
  then have "i \<in> where_in (\<lambda>l. ci_inside (ci_pc l)) ls" using assms(1) by (auto simp: ci_inv_def mutex_ok_def)
  then have i: "i < length ls" "ci_inside (ci_pc (ls ! i))" by (auto simp: where_in_def)
  then have "counter_increment_step iters i g (ls ! i) \<noteq> None"
    by (cases "ci_pc (ls ! i)") (auto simp: counter_increment_step_def)
  with i(1) show ?thesis by blast
qed

lemma ci_start: "ci_inv iters (fst (demo_mutex n)) (snd (demo_mutex n))"
  by (auto simp: ci_inv_def demo_mutex_def pthread_mutexattr_settype_def mutex_ok_def where_in_def ci_increments_def
      ci_ok_def list_all_length sum_list_replicate)

interpretation mc: thread_pool "\<lambda>s. s = demo_mutex n" "counter_increment_step iters" "ci_inv iters"
  "\<lambda>l. 4 * (iters - ci_i l) + ci_rank (ci_pc l)" "\<lambda>l. ci_pc l = I_done" for n iters
proof (unfold_locales, goal_cases)
  case (1 g ls)
  then show ?case using ci_start [of iters n] by (metis fst_conv snd_conv)
next
  case (2 g ls i g' l')
  then show ?case by (rule ci_step_inv)
next
  case (3 g ls i g' l')
  then show ?case by (rule ci_rank_less)
next
  case (4 g ls)
  then show ?case by (rule ci_progress)
qed

lemma ci_all_done:
  assumes "ci_inv iters g ls" and "list_all (\<lambda>l. ci_pc l = I_done) ls"
  shows "g_counter g = int (length ls) * int iters \<and> m_owner (g_mutex g) = None"
proof -
  have "ci_increments l = iters" if "l \<in> set ls" for l
    using assms that by (auto simp: ci_inv_def list_all_iff ci_ok_def ci_increments_def)
  then have "map ci_increments ls = replicate (length ls) iters" by (simp add: map_replicate_const [symmetric])
  moreover have "where_in (\<lambda>l. ci_inside (ci_pc l)) ls = {}" using assms(2) by (auto simp: where_in_def list_all_length)
  ultimately show ?thesis
    using assms(1) by (cases "m_owner (g_mutex g)") (auto simp: ci_inv_def mutex_ok_def sum_list_replicate)
qed

section \<open>Properties\<close>

text \<open>
  C17. \<^verbatim>\<open>demo_mutex\<close> for any number of threads and iterations (the demo has 4 and 100000), every
  interleaving of loads and stores: at most one thread is between lock and unlock, the number of
  steps is bounded, nobody can block forever, and when all threads have returned the counter is exactly
  the number of threads times the iterations, so the report says CORRECT.
\<close>

theorem demo_mutex_exact:
  "((pool_step (counter_increment_step iters) ^^ k) (demo_mutex n) s \<longrightarrow> k \<le> n * (4 * iters + 4))
   \<and> ((pool_step (counter_increment_step iters))\<^sup>*\<^sup>* (demo_mutex n) s \<longrightarrow>
        card (where_in (\<lambda>l. ci_inside (ci_pc l)) (snd s)) \<le> 1
        \<and> ((\<forall>t. \<not> pool_step (counter_increment_step iters) s t) \<longrightarrow>
              list_all (\<lambda>l. ci_pc l = I_done) (snd s)
              \<and> demo_mutex_report n iters (fst s) = (int n * int iters, int n * int iters, ''CORRECT'')))"
proof (intro conjI impI)
  assume "(pool_step (counter_increment_step iters) ^^ k) (demo_mutex n) s"
  then show "k \<le> n * (4 * iters + 4)"
    using mc.run_length [of "demo_mutex n" n k iters s] by (simp add: demo_mutex_def sum_list_replicate)
next
  assume reach: "(pool_step (counter_increment_step iters))\<^sup>*\<^sup>* (demo_mutex n) s"
  have inv: "ci_inv iters (fst s) (snd s)" using mc.reach_inv [OF refl reach] .
  then have "where_in (\<lambda>l. ci_inside (ci_pc l)) (snd s) = set_option (m_owner (g_mutex (fst s)))"
    by (simp add: ci_inv_def mutex_ok_def)
  then show "card (where_in (\<lambda>l. ci_inside (ci_pc l)) (snd s)) \<le> 1" by (cases "m_owner (g_mutex (fst s))") auto
  assume "\<forall>t. \<not> pool_step (counter_increment_step iters) s t"
  then show fin: "list_all (\<lambda>l. ci_pc l = I_done) (snd s)" using mc.stuck_final [OF refl reach] by blast
  have "length (snd s) = n" using pool_length [OF reach] by (simp add: demo_mutex_def)
  then show "demo_mutex_report n iters (fst s) = (int n * int iters, int n * int iters, ''CORRECT'')"
    using ci_all_done [OF inv fin] by (simp add: demo_mutex_report_def)
qed

theorem demo_mutex_exact_witness:
  "\<exists>s. (pool_step (counter_increment_step 100000))\<^sup>*\<^sup>* (demo_mutex 4) s
     \<and> demo_mutex_report 4 100000 (fst s) = (400000, 400000, ''CORRECT'')"
proof -
  obtain s where s: "(pool_step (counter_increment_step 100000))\<^sup>*\<^sup>* (demo_mutex 4) s"
      "list_all (\<lambda>l. ci_pc l = I_done) (snd s)"
    using mc.finishes [OF ci_start, of 100000 4] by blast
  then have "\<not> pool_step (counter_increment_step 100000) s t" for t
    by (auto simp: pool_step_def list_all_length counter_increment_step_def)
  then show ?thesis using demo_mutex_exact [where iters = 100000 and n = 4 and k = 0 and s = s] s(1)
    by (intro exI [of _ s]) simp
qed

end
