(* ===== verification/Cond_Var2.thy ===== *)
theory Cond_Var2
  imports Contracts
begin

text \<open>
  \<^verbatim>\<open>demo_cond_var2\<close> of \<^verbatim>\<open>02_threads/thread_demo.c\<close>, the condition-variable demo that \<^verbatim>\<open>main\<close> runs: a counter
  between one producer and one consumer that each take the mutex once around their whole loop, so
  that only \<^verbatim>\<open>pthread_cond_wait\<close> hands it over. \<open>p2_sleep\<close> and \<open>c2_sleep\<close> tell whether the thread is still
  blocked on its condition variable; \<open>spare\<close> is the number of spurious wake-ups still to come, an
  arbitrary number at the start. A thread step is \<open>None\<close> when the thread is blocked or has returned.

  Shown: the count stays between 0 and 11, and for every finite number of spurious wake-ups every run
  ends with both threads returned and the count back at zero.
\<close>

section \<open>State and steps\<close>

datatype v_pc = V_lock | V_check | V_wait | V_body | V_signal | V_unlock | V_done

datatype v_thread = Prod2 | Cons2

record mh =
  mh_lock :: "v_thread option"
  mh_count :: int
  p2_pc :: v_pc
  p2_i :: nat
  p2_sleep :: bool
  c2_pc :: v_pc
  c2_i :: nat
  c2_sleep :: bool
  spare :: nat

definition producer2_step :: "nat \<Rightarrow> mh \<Rightarrow> mh option" where
  "producer2_step n s =
     (case p2_pc s of
        V_lock \<Rightarrow> if mh_lock s = None then Some (s\<lparr>mh_lock := Some Prod2, p2_pc := V_check\<rparr>) else None
      | V_check \<Rightarrow>
          if \<not> p2_i s < n then Some (s\<lparr>p2_pc := V_unlock\<rparr>)
          else if 10 < mh_count s then Some (s\<lparr>mh_lock := None, p2_sleep := True, p2_pc := V_wait\<rparr>)
          else Some (s\<lparr>p2_pc := V_body\<rparr>)
      | V_wait \<Rightarrow>
          if p2_sleep s
          then (if 0 < spare s then Some (s\<lparr>spare := spare s - 1, p2_sleep := False\<rparr>) else None)
          else if mh_lock s = None then Some (s\<lparr>mh_lock := Some Prod2, p2_pc := V_check\<rparr>) else None
      | V_body \<Rightarrow> Some (s\<lparr>mh_count := mh_count s + 1, p2_pc := V_signal\<rparr>)
      | V_signal \<Rightarrow> Some (s\<lparr>c2_sleep := False, p2_i := p2_i s + 1, p2_pc := V_check\<rparr>)
      | V_unlock \<Rightarrow> Some (s\<lparr>mh_lock := None, p2_pc := V_done\<rparr>)
      | V_done \<Rightarrow> None)"

definition consumer2_step :: "nat \<Rightarrow> mh \<Rightarrow> mh option" where
  "consumer2_step n s =
     (case c2_pc s of
        V_lock \<Rightarrow> if mh_lock s = None then Some (s\<lparr>mh_lock := Some Cons2, c2_pc := V_check\<rparr>) else None
      | V_check \<Rightarrow>
          if \<not> c2_i s < n then Some (s\<lparr>c2_pc := V_unlock\<rparr>)
          else if mh_count s = 0 then Some (s\<lparr>mh_lock := None, c2_sleep := True, c2_pc := V_wait\<rparr>)
          else Some (s\<lparr>c2_pc := V_body\<rparr>)
      | V_wait \<Rightarrow>
          if c2_sleep s
          then (if 0 < spare s then Some (s\<lparr>spare := spare s - 1, c2_sleep := False\<rparr>) else None)
          else if mh_lock s = None then Some (s\<lparr>mh_lock := Some Cons2, c2_pc := V_check\<rparr>) else None
      | V_body \<Rightarrow> Some (s\<lparr>mh_count := mh_count s - 1, c2_pc := V_signal\<rparr>)
      | V_signal \<Rightarrow> Some (s\<lparr>p2_sleep := False, c2_i := c2_i s + 1, c2_pc := V_check\<rparr>)
      | V_unlock \<Rightarrow> Some (s\<lparr>mh_lock := None, c2_pc := V_done\<rparr>)
      | V_done \<Rightarrow> None)"

definition cv2_step :: "nat \<Rightarrow> mh \<Rightarrow> mh \<Rightarrow> bool" where
  "cv2_step n s t \<longleftrightarrow> producer2_step n s = Some t \<or> consumer2_step n s = Some t"

text \<open>Both threads created, with \<open>k\<close> spurious wake-ups to come.\<close>

definition demo_cond_var2 :: "nat \<Rightarrow> mh" where
  "demo_cond_var2 k =
     \<lparr>mh_lock = None, mh_count = 0, p2_pc = V_lock, p2_i = 0, p2_sleep = False,
      c2_pc = V_lock, c2_i = 0, c2_sleep = False, spare = k\<rparr>"

section \<open>Invariant\<close>

primrec v_holds :: "v_pc \<Rightarrow> bool" where
  "v_holds V_lock = False" | "v_holds V_check = True" | "v_holds V_wait = False" | "v_holds V_body = True"
| "v_holds V_signal = True" | "v_holds V_unlock = True" | "v_holds V_done = False"

primrec v_half :: "v_pc \<Rightarrow> int" where
  "v_half V_lock = 0" | "v_half V_check = 0" | "v_half V_wait = 0" | "v_half V_body = 0"
| "v_half V_signal = 1" | "v_half V_unlock = 0" | "v_half V_done = 0"

text \<open>How far a thread is in its loop, and what the count allows it at each statement.\<close>

primrec v_loop :: "v_pc \<Rightarrow> nat \<Rightarrow> nat \<Rightarrow> bool" where
  "v_loop V_lock i n = (i \<le> n)" | "v_loop V_check i n = (i \<le> n)" | "v_loop V_wait i n = (i < n)"
| "v_loop V_body i n = (i < n)" | "v_loop V_signal i n = (i < n)" | "v_loop V_unlock i n = (i = n)"
| "v_loop V_done i n = (i = n)"

definition mh_lock_ok :: "v_thread option \<Rightarrow> v_pc \<Rightarrow> v_pc \<Rightarrow> bool" where
  "mh_lock_ok l p c \<longleftrightarrow> (case l of None \<Rightarrow> \<not> v_holds p \<and> \<not> v_holds c
     | Some Prod2 \<Rightarrow> v_holds p \<and> \<not> v_holds c | Some Cons2 \<Rightarrow> \<not> v_holds p \<and> v_holds c)"

definition mh_count_ok :: "int \<Rightarrow> v_pc \<Rightarrow> nat \<Rightarrow> v_pc \<Rightarrow> nat \<Rightarrow> bool" where
  "mh_count_ok k p i c j \<longleftrightarrow> k = int i + v_half p - (int j + v_half c) \<and> 0 \<le> k \<and> k \<le> 11
     \<and> (p = V_body \<longrightarrow> k \<le> 10) \<and> (c = V_body \<longrightarrow> 1 \<le> k)"

text \<open>A thread still asleep has its reason to be, or the other one is about to signal.\<close>

definition mh_sleep_ok :: "int \<Rightarrow> v_pc \<Rightarrow> bool \<Rightarrow> v_pc \<Rightarrow> bool \<Rightarrow> bool" where
  "mh_sleep_ok k p a c b \<longleftrightarrow> (a \<longrightarrow> p = V_wait \<and> (10 < k \<or> c = V_signal)) \<and> (b \<longrightarrow> c = V_wait \<and> (k = 0 \<or> p = V_signal))"

definition mh_inv :: "nat \<Rightarrow> mh \<Rightarrow> bool" where
  "mh_inv n s \<longleftrightarrow> mh_lock_ok (mh_lock s) (p2_pc s) (c2_pc s)
     \<and> v_loop (p2_pc s) (p2_i s) n \<and> v_loop (c2_pc s) (c2_i s) n
     \<and> mh_count_ok (mh_count s) (p2_pc s) (p2_i s) (c2_pc s) (c2_i s)
     \<and> mh_sleep_ok (mh_count s) (p2_pc s) (p2_sleep s) (c2_pc s) (c2_sleep s)"

definition cv2_final :: "mh \<Rightarrow> bool" where
  "cv2_final s \<longleftrightarrow> p2_pc s = V_done \<and> c2_pc s = V_done"

text \<open>A wake-up costs its waker more than the sleeper gains by it.\<close>

fun v_rank :: "v_pc \<Rightarrow> bool \<Rightarrow> nat" where
  "v_rank V_lock a = 4" | "v_rank V_check a = 3" | "v_rank V_wait a = (if a then 0 else 4)"
| "v_rank V_body a = 2" | "v_rank V_signal a = 1" | "v_rank V_unlock a = 2" | "v_rank V_done a = 0"

definition cv2_measure :: "nat \<Rightarrow> mh \<Rightarrow> nat" where
  "cv2_measure n s = 7 * (n - p2_i s) + v_rank (p2_pc s) (p2_sleep s)
     + 7 * (n - c2_i s) + v_rank (c2_pc s) (c2_sleep s) + 5 * spare s"

section \<open>Lemmas\<close>

lemma producer2_lock:
  "producer2_step n s = Some t \<Longrightarrow> mh_lock_ok (mh_lock s) (p2_pc s) (c2_pc s) \<Longrightarrow> mh_lock_ok (mh_lock t) (p2_pc t) (c2_pc t)"
  by (cases "p2_pc s"; cases "mh_lock s") (auto simp: producer2_step_def mh_lock_ok_def split: if_splits v_thread.splits)

lemma producer2_loop:
  "producer2_step n s = Some t \<Longrightarrow> v_loop (p2_pc s) (p2_i s) n \<Longrightarrow>
     v_loop (p2_pc t) (p2_i t) n \<and> c2_pc t = c2_pc s \<and> c2_i t = c2_i s"
  by (cases "p2_pc s") (auto simp: producer2_step_def split: if_splits)

lemma producer2_count:
  "producer2_step n s = Some t \<Longrightarrow> mh_count_ok (mh_count s) (p2_pc s) (p2_i s) (c2_pc s) (c2_i s) \<Longrightarrow>
     mh_count_ok (mh_count t) (p2_pc t) (p2_i t) (c2_pc t) (c2_i t)"
  by (cases "p2_pc s") (simp_all add: producer2_step_def mh_count_ok_def split: if_splits, auto)

lemma producer2_sleep:
  "producer2_step n s = Some t \<Longrightarrow> mh_sleep_ok (mh_count s) (p2_pc s) (p2_sleep s) (c2_pc s) (c2_sleep s) \<Longrightarrow>
     mh_sleep_ok (mh_count t) (p2_pc t) (p2_sleep t) (c2_pc t) (c2_sleep t)"
  by (cases "p2_pc s"; cases "c2_sleep s") (simp_all add: producer2_step_def mh_sleep_ok_def split: if_splits, auto)

lemma producer2_inv: "producer2_step n s = Some t \<Longrightarrow> mh_inv n s \<Longrightarrow> mh_inv n t"
  unfolding mh_inv_def using producer2_lock producer2_loop producer2_count producer2_sleep by metis

lemma consumer2_lock:
  "consumer2_step n s = Some t \<Longrightarrow> mh_lock_ok (mh_lock s) (p2_pc s) (c2_pc s) \<Longrightarrow> mh_lock_ok (mh_lock t) (p2_pc t) (c2_pc t)"
  by (cases "c2_pc s"; cases "mh_lock s") (auto simp: consumer2_step_def mh_lock_ok_def split: if_splits v_thread.splits)

lemma consumer2_loop:
  "consumer2_step n s = Some t \<Longrightarrow> v_loop (c2_pc s) (c2_i s) n \<Longrightarrow>
     v_loop (c2_pc t) (c2_i t) n \<and> p2_pc t = p2_pc s \<and> p2_i t = p2_i s"
  by (cases "c2_pc s") (auto simp: consumer2_step_def split: if_splits)

lemma consumer2_count:
  "consumer2_step n s = Some t \<Longrightarrow> mh_count_ok (mh_count s) (p2_pc s) (p2_i s) (c2_pc s) (c2_i s) \<Longrightarrow>
     mh_count_ok (mh_count t) (p2_pc t) (p2_i t) (c2_pc t) (c2_i t)"
  by (cases "c2_pc s") (simp_all add: consumer2_step_def mh_count_ok_def split: if_splits, auto)

lemma consumer2_sleep:
  "consumer2_step n s = Some t \<Longrightarrow> mh_sleep_ok (mh_count s) (p2_pc s) (p2_sleep s) (c2_pc s) (c2_sleep s) \<Longrightarrow>
     mh_sleep_ok (mh_count t) (p2_pc t) (p2_sleep t) (c2_pc t) (c2_sleep t)"
  by (cases "c2_pc s"; cases "p2_sleep s") (simp_all add: consumer2_step_def mh_sleep_ok_def split: if_splits, auto)

lemma consumer2_inv: "consumer2_step n s = Some t \<Longrightarrow> mh_inv n s \<Longrightarrow> mh_inv n t"
  unfolding mh_inv_def using consumer2_lock consumer2_loop consumer2_count consumer2_sleep by metis

lemma v_rank_wake: "v_rank pc False \<le> v_rank pc a + 4"
  by (cases pc) auto

lemma producer2_less: "producer2_step n s = Some t \<Longrightarrow> mh_inv n s \<Longrightarrow> cv2_measure n t < cv2_measure n s"
  using v_rank_wake [of "c2_pc s" "c2_sleep s"]
  by (cases "p2_pc s") (auto simp: producer2_step_def mh_inv_def cv2_measure_def split: if_splits)

lemma consumer2_less: "consumer2_step n s = Some t \<Longrightarrow> mh_inv n s \<Longrightarrow> cv2_measure n t < cv2_measure n s"
  using v_rank_wake [of "p2_pc s" "p2_sleep s"]
  by (cases "c2_pc s") (auto simp: consumer2_step_def mh_inv_def cv2_measure_def split: if_splits)

text \<open>Who holds the mutex is not blocked; with the mutex free only sleepers and finished threads are.\<close>

lemma producer2_blocked:
  "producer2_step n s = None \<longleftrightarrow> p2_pc s = V_done \<or> (p2_pc s = V_wait \<and> p2_sleep s \<and> spare s = 0)
     \<or> (mh_lock s \<noteq> None \<and> (p2_pc s = V_lock \<or> (p2_pc s = V_wait \<and> \<not> p2_sleep s)))"
  by (cases "p2_pc s") (auto simp: producer2_step_def)

lemma consumer2_blocked:
  "consumer2_step n s = None \<longleftrightarrow> c2_pc s = V_done \<or> (c2_pc s = V_wait \<and> c2_sleep s \<and> spare s = 0)
     \<or> (mh_lock s \<noteq> None \<and> (c2_pc s = V_lock \<or> (c2_pc s = V_wait \<and> \<not> c2_sleep s)))"
  by (cases "c2_pc s") (auto simp: consumer2_step_def)

lemma cv2_progress:
  assumes inv: "mh_inv n s" and "\<not> cv2_final s"
  shows "\<exists>t. cv2_step n s t"
proof (rule ccontr)
  assume "\<nexists>t. cv2_step n s t"
  then have b: "producer2_step n s = None" "consumer2_step n s = None"
    unfolding cv2_step_def by (metis option.exhaust)+
  have "\<not> v_holds (p2_pc s)" "\<not> v_holds (c2_pc s)"
    using b unfolding producer2_blocked consumer2_blocked by auto
  then have "mh_lock s = None" using inv by (auto simp: mh_inv_def mh_lock_ok_def split: option.splits v_thread.splits)
  then have "p2_pc s = V_done \<or> p2_pc s = V_wait \<and> p2_sleep s" "c2_pc s = V_done \<or> c2_pc s = V_wait \<and> c2_sleep s"
    using b unfolding producer2_blocked consumer2_blocked by auto
  with inv \<open>\<not> cv2_final s\<close> show False
    by (elim disjE) (auto simp: mh_inv_def mh_count_ok_def mh_sleep_ok_def cv2_final_def)
qed

lemma cv2_start: "mh_inv n (demo_cond_var2 k)"
  by (simp add: mh_inv_def demo_cond_var2_def mh_lock_ok_def mh_count_ok_def mh_sleep_ok_def)

interpretation cv2: bounded_system "\<lambda>s. s = demo_cond_var2 k" "cv2_step n" "mh_inv n" "cv2_measure n" cv2_final for k n
proof (unfold_locales, goal_cases)
  case (1 s)
  then show ?case by (simp add: cv2_start)
next
  case (2 s t)
  then show ?case by (auto simp: cv2_step_def intro: producer2_inv consumer2_inv)
next
  case (3 s t)
  then show ?case by (auto simp: cv2_step_def intro: producer2_less consumer2_less)
next
  case (4 s)
  then show ?case by (rule cv2_progress)
qed

section \<open>Property\<close>

text \<open>
  C18. \<^verbatim>\<open>demo_cond_var2\<close> with loops of any length \<open>n\<close> (100 in the code), any schedule and any finite number
  \<open>k\<close> of spurious wake-ups: the count stays between 0 and 11; a run has at most \<open>14 n + 5 k + 8\<close> steps;
  and when no thread can move, both have returned, the mutex is free and the count is zero.
\<close>

theorem cond_var2_completes:
  "((cv2_step n ^^ j) (demo_cond_var2 k) s \<longrightarrow> j \<le> 14 * n + 5 * k + 8)
   \<and> ((cv2_step n)\<^sup>*\<^sup>* (demo_cond_var2 k) s \<longrightarrow>
        0 \<le> mh_count s \<and> mh_count s \<le> 11
        \<and> ((\<forall>t. \<not> cv2_step n s t) \<longrightarrow> cv2_final s \<and> mh_lock s = None \<and> mh_count s = 0))"
proof (intro conjI impI)
  assume "(cv2_step n ^^ j) (demo_cond_var2 k) s"
  then show "j \<le> 14 * n + 5 * k + 8"
    using cv2.run_length [of "demo_cond_var2 k" k j n s] by (simp add: cv2_measure_def demo_cond_var2_def)
next
  assume reach: "(cv2_step n)\<^sup>*\<^sup>* (demo_cond_var2 k) s"
  have inv: "mh_inv n s" using cv2.reach_inv [OF refl reach] .
  then show "0 \<le> mh_count s" "mh_count s \<le> 11" by (auto simp: mh_inv_def mh_count_ok_def)
  assume "\<forall>t. \<not> cv2_step n s t"
  then show fin: "cv2_final s" using cv2.stuck_final [OF refl reach] by blast
  then show "mh_lock s = None" "mh_count s = 0"
    using inv by (auto simp: mh_inv_def mh_lock_ok_def mh_count_ok_def cv2_final_def split: option.splits v_thread.splits)
qed

theorem cond_var2_completes_witness:
  "\<exists>s. (cv2_step 100)\<^sup>*\<^sup>* (demo_cond_var2 3) s \<and> cv2_final s \<and> mh_count s = 0"
proof -
  obtain s where s: "(cv2_step 100)\<^sup>*\<^sup>* (demo_cond_var2 3) s" "cv2_final s"
    using cv2.finishes [OF cv2_start, of 100 3] by blast
  then have "\<not> cv2_step 100 s t" for t
    by (simp add: cv2_step_def cv2_final_def producer2_step_def consumer2_step_def)
  then show ?thesis using cond_var2_completes [where n = 100 and j = 0 and k = 3 and s = s] s
    by (intro exI [of _ s]) simp
qed

end
