(* ===== verification/Sem_Queue.thy ===== *)
theory Sem_Queue
  imports Ring_Queue
begin

text \<open>
  Demo 3.1 of \<^verbatim>\<open>02_threads/thread_demo.c\<close>: the same ring buffer between one producer and one consumer
  with two counting semaphores and no mutex. \<^verbatim>\<open>producer_sem\<close> and \<^verbatim>\<open>consumer_sem\<close> are step functions, one
  step per access to shared state; \<^verbatim>\<open>count++\<close> and \<^verbatim>\<open>count--\<close> are a read and a write each, as nothing makes
  them atomic. \<open>None\<close> means that the thread is blocked in \<^verbatim>\<open>sem_wait\<close> or has returned.

  Shown for every interleaving: the values arrive in order, slots are never overwritten before they
  are read, at most five items are in flight, no deadlock, termination. Also shown: the field \<^verbatim>\<open>count\<close>,
  which both threads write without synchronisation, can end up wrong.
\<close>

section \<open>Threads\<close>

datatype sp_pc = S_wait | S_store | S_tail | S_rd | S_wr | S_post | S_done
datatype sc_pc = R_wait | R_load | R_head | R_rd | R_wr | R_post | R_done

text \<open>\<open>sp_i\<close> and \<open>sc_i\<close> count the completed calls of \<^verbatim>\<open>raw_queue_push\<close> and \<^verbatim>\<open>raw_queue_pop\<close>.\<close>

record sq =
  sq_q :: queue
  sem_not_full :: nat
  sem_not_empty :: nat
  sp_pc :: sp_pc
  sp_i :: nat
  sp_reg :: int
  sc_pc :: sc_pc
  sc_i :: nat
  sc_reg :: int
  sc_val :: int
  sc_got :: "int list"

definition producer_list :: "nat \<Rightarrow> int list" where
  "producer_list n = map int [0..<n] @ [SENTINEL]"

definition producer_sem_step :: "int list \<Rightarrow> sq \<Rightarrow> sq option" where
  "producer_sem_step vs s =
     (case sp_pc s of
        S_wait \<Rightarrow> if 0 < sem_not_full s
                  then Some (s\<lparr>sem_not_full := sem_not_full s - 1, sp_pc := S_store\<rparr>) else None
      | S_store \<Rightarrow> Some (s\<lparr>sq_q := q_store (sq_q s) (vs ! sp_i s), sp_pc := S_tail\<rparr>)
      | S_tail \<Rightarrow> Some (s\<lparr>sq_q := q_adv_tail (sq_q s), sp_pc := S_rd\<rparr>)
      | S_rd \<Rightarrow> Some (s\<lparr>sp_reg := qcount (sq_q s), sp_pc := S_wr\<rparr>)
      | S_wr \<Rightarrow> Some (s\<lparr>sq_q := (sq_q s)\<lparr>qcount := sp_reg s + 1\<rparr>, sp_pc := S_post\<rparr>)
      | S_post \<Rightarrow> Some (s\<lparr>sem_not_empty := sem_not_empty s + 1, sp_i := sp_i s + 1,
                          sp_pc := (if sp_i s + 1 < length vs then S_wait else S_done)\<rparr>)
      | S_done \<Rightarrow> None)"

definition consumer_sem_step :: "sq \<Rightarrow> sq option" where
  "consumer_sem_step s =
     (case sc_pc s of
        R_wait \<Rightarrow> if 0 < sem_not_empty s
                  then Some (s\<lparr>sem_not_empty := sem_not_empty s - 1, sc_pc := R_load\<rparr>) else None
      | R_load \<Rightarrow> Some (s\<lparr>sc_val := q_load (sq_q s), sc_pc := R_head\<rparr>)
      | R_head \<Rightarrow> Some (s\<lparr>sq_q := q_adv_head (sq_q s), sc_pc := R_rd\<rparr>)
      | R_rd \<Rightarrow> Some (s\<lparr>sc_reg := qcount (sq_q s), sc_pc := R_wr\<rparr>)
      | R_wr \<Rightarrow> Some (s\<lparr>sq_q := (sq_q s)\<lparr>qcount := sc_reg s - 1\<rparr>, sc_pc := R_post\<rparr>)
      | R_post \<Rightarrow> Some (s\<lparr>sem_not_full := sem_not_full s + 1, sc_i := sc_i s + 1, sc_got := sc_got s @ [sc_val s],
                          sc_pc := (if sc_val s = SENTINEL then R_done else R_wait)\<rparr>)
      | R_done \<Rightarrow> None)"

definition demo_sem_prod_consumer :: sq where
  "demo_sem_prod_consumer =
     \<lparr>sq_q = queue0, sem_not_full = 5, sem_not_empty = 0, sp_pc = S_wait, sp_i = 0, sp_reg = 0,
      sc_pc = R_wait, sc_i = 0, sc_reg = 0, sc_val = 0, sc_got = []\<rparr>"

definition sq_step :: "int list \<Rightarrow> sq \<Rightarrow> sq \<Rightarrow> bool" where
  "sq_step vs s t \<longleftrightarrow> producer_sem_step vs s = Some t \<or> consumer_sem_step s = Some t"

text \<open>A schedule says which thread moves; a thread that cannot move leaves the state as it is.\<close>

primrec sq_sched :: "int list \<Rightarrow> bool list \<Rightarrow> sq \<Rightarrow> sq" where
  "sq_sched vs [] s = s"
| "sq_sched vs (b # bs) s =
     sq_sched vs bs (case (if b then producer_sem_step vs s else consumer_sem_step s) of Some t \<Rightarrow> t | None \<Rightarrow> s)"

section \<open>Invariant\<close>

text \<open>Whether a thread is inside a call, has stored its value, has advanced its index.\<close>

primrec sp_in :: "sp_pc \<Rightarrow> nat" where
  "sp_in S_wait = 0" | "sp_in S_store = 1" | "sp_in S_tail = 1" | "sp_in S_rd = 1" | "sp_in S_wr = 1" | "sp_in S_post = 1" | "sp_in S_done = 0"

primrec sp_stored :: "sp_pc \<Rightarrow> nat" where
  "sp_stored S_wait = 0" | "sp_stored S_store = 0" | "sp_stored S_tail = 1" | "sp_stored S_rd = 1" | "sp_stored S_wr = 1" | "sp_stored S_post = 1" | "sp_stored S_done = 0"

primrec sp_moved :: "sp_pc \<Rightarrow> nat" where
  "sp_moved S_wait = 0" | "sp_moved S_store = 0" | "sp_moved S_tail = 0" | "sp_moved S_rd = 1" | "sp_moved S_wr = 1" | "sp_moved S_post = 1" | "sp_moved S_done = 0"

primrec sc_in :: "sc_pc \<Rightarrow> nat" where
  "sc_in R_wait = 0" | "sc_in R_load = 1" | "sc_in R_head = 1" | "sc_in R_rd = 1" | "sc_in R_wr = 1" | "sc_in R_post = 1" | "sc_in R_done = 0"

primrec sc_moved :: "sc_pc \<Rightarrow> nat" where
  "sc_moved R_wait = 0" | "sc_moved R_load = 0" | "sc_moved R_head = 0" | "sc_moved R_rd = 1" | "sc_moved R_wr = 1" | "sc_moved R_post = 1" | "sc_moved R_done = 0"

definition sq_sems :: "sq \<Rightarrow> bool" where
  "sq_sems s \<longleftrightarrow> sem_not_empty s + sc_i s + sc_in (sc_pc s) = sp_i s
     \<and> sem_not_full s + sem_not_empty s + sp_in (sp_pc s) + sc_in (sc_pc s) = 5"

definition slots_ok :: "int list \<Rightarrow> int list \<Rightarrow> nat \<Rightarrow> nat \<Rightarrow> bool" where
  "slots_ok vs d lo hi \<longleftrightarrow> (\<forall>k. lo \<le> k \<longrightarrow> k < hi \<longrightarrow> d ! (k mod QUEUE_SIZE) = vs ! k)"

definition sq_ring :: "int list \<Rightarrow> sq \<Rightarrow> bool" where
  "sq_ring vs s \<longleftrightarrow> length (qdata (sq_q s)) = QUEUE_SIZE
     \<and> qtail (sq_q s) = (sp_i s + sp_moved (sp_pc s)) mod QUEUE_SIZE \<and> qhead (sq_q s) = (sc_i s + sc_moved (sc_pc s)) mod QUEUE_SIZE
     \<and> slots_ok vs (qdata (sq_q s)) (sc_i s) (sp_i s + sp_stored (sp_pc s))"

definition sp_hist :: "int list \<Rightarrow> sp_pc \<Rightarrow> nat \<Rightarrow> bool" where
  "sp_hist vs pc i \<longleftrightarrow> (if pc = S_done then i = length vs else i < length vs)"

definition sc_hist :: "int list \<Rightarrow> sc_pc \<Rightarrow> nat \<Rightarrow> int \<Rightarrow> int list \<Rightarrow> bool" where
  "sc_hist vs pc i v got \<longleftrightarrow> (if pc = R_done then i = length vs else i < length vs) \<and> got = take i vs
     \<and> (pc \<in> {R_head, R_rd, R_wr, R_post} \<longrightarrow> v = vs ! i)"

definition sq_hist :: "int list \<Rightarrow> sq \<Rightarrow> bool" where
  "sq_hist vs s \<longleftrightarrow> sp_hist vs (sp_pc s) (sp_i s) \<and> sc_hist vs (sc_pc s) (sc_i s) (sc_val s) (sc_got s)"

definition sq_inv :: "int list \<Rightarrow> sq \<Rightarrow> bool" where
  "sq_inv vs s \<longleftrightarrow> sq_sems s \<and> sq_ring vs s \<and> sq_hist vs s"

definition sq_final :: "sq \<Rightarrow> bool" where
  "sq_final s \<longleftrightarrow> sp_pc s = S_done \<and> sc_pc s = R_done"

fun sp_rank :: "sp_pc \<Rightarrow> nat" where
  "sp_rank S_wait = 5" | "sp_rank S_store = 4" | "sp_rank S_tail = 3" | "sp_rank S_rd = 2"
| "sp_rank S_wr = 1" | "sp_rank S_post = 0" | "sp_rank S_done = 0"

fun sc_rank :: "sc_pc \<Rightarrow> nat" where
  "sc_rank R_wait = 5" | "sc_rank R_load = 4" | "sc_rank R_head = 3" | "sc_rank R_rd = 2"
| "sc_rank R_wr = 1" | "sc_rank R_post = 0" | "sc_rank R_done = 0"

definition sq_measure :: "int list \<Rightarrow> sq \<Rightarrow> nat" where
  "sq_measure vs s = 6 * (length vs - sp_i s) + sp_rank (sp_pc s) + 6 * (length vs - sc_i s) + sc_rank (sc_pc s)"

section \<open>Lemmas\<close>

lemma in_flight: "sq_sems s \<Longrightarrow> sp_i s - sc_i s \<le> 5 \<and> sc_i s \<le> sp_i s \<and> (sp_pc s = S_store \<longrightarrow> sp_i s - sc_i s < 5)"
  by (cases "sp_pc s") (auto simp: sq_sems_def)

lemma mod_ring_neq: "k < n \<Longrightarrow> n - k < QUEUE_SIZE \<Longrightarrow> k mod QUEUE_SIZE \<noteq> n mod QUEUE_SIZE"
  using slot_less [of 0 "n - k" k] by simp

lemma producer_sems: "producer_sem_step vs s = Some t \<Longrightarrow> sq_sems s \<Longrightarrow> sq_sems t"
  by (cases "sp_pc s") (auto simp: producer_sem_step_def sq_sems_def split: if_splits)

lemma consumer_sems: "consumer_sem_step s = Some t \<Longrightarrow> sq_sems s \<Longrightarrow> sq_sems t"
  by (cases "sc_pc s") (auto simp: consumer_sem_step_def sq_sems_def split: if_splits)

lemma slots_store:
  assumes "slots_ok vs d lo n" and "n - lo < QUEUE_SIZE" and "length d = QUEUE_SIZE"
  shows "slots_ok vs (d[n mod QUEUE_SIZE := vs ! n]) lo (Suc n)"
  unfolding slots_ok_def
proof (intro allI impI)
  fix k
  assume k: "lo \<le> k" "k < Suc n"
  show "d[n mod QUEUE_SIZE := vs ! n] ! (k mod QUEUE_SIZE) = vs ! k"
  proof (cases "k = n")
    case True
    then show ?thesis using assms(3) by simp
  next
    case False
    then have "k mod QUEUE_SIZE \<noteq> n mod QUEUE_SIZE"
      using k assms(2) by (intro mod_ring_neq) auto
    then show ?thesis using assms(1) k False by (simp add: slots_ok_def)
  qed
qed

lemma slots_mono: "slots_ok vs d lo hi \<Longrightarrow> slots_ok vs d (Suc lo) hi"
  by (simp add: slots_ok_def)

lemma slots_read: "slots_ok vs d lo hi \<Longrightarrow> lo < hi \<Longrightarrow> d ! (lo mod QUEUE_SIZE) = vs ! lo"
  by (simp add: slots_ok_def)

lemma producer_ring: "producer_sem_step vs s = Some t \<Longrightarrow> sq_sems s \<Longrightarrow> sq_ring vs s \<Longrightarrow> sq_ring vs t"
proof (cases "sp_pc s")
  case S_store
  assume asm: "producer_sem_step vs s = Some t" "sq_sems s" "sq_ring vs s"
  have "sp_i s - sc_i s < QUEUE_SIZE" using in_flight [OF asm(2)] S_store by (simp add: QUEUE_SIZE_def)
  then show ?thesis
    using asm S_store slots_store [of vs "qdata (sq_q s)" "sc_i s" "sp_i s"]
    by (auto simp: producer_sem_step_def sq_ring_def q_store_def)
next
  case S_tail
  then show "producer_sem_step vs s = Some t \<Longrightarrow> sq_ring vs s \<Longrightarrow> ?thesis"
    by (auto simp: producer_sem_step_def sq_ring_def q_adv_tail_def mod_Suc_eq)
qed (auto simp: producer_sem_step_def sq_ring_def split: if_splits)

lemma consumer_ring: "consumer_sem_step s = Some t \<Longrightarrow> sq_ring vs s \<Longrightarrow> sq_ring vs t"
proof (cases "sc_pc s")
  case R_head
  then show "consumer_sem_step s = Some t \<Longrightarrow> sq_ring vs s \<Longrightarrow> ?thesis"
    by (auto simp: consumer_sem_step_def sq_ring_def q_adv_head_def mod_Suc_eq)
qed (auto simp: consumer_sem_step_def sq_ring_def slots_mono split: if_splits)

definition ends_with_sentinel :: "int list \<Rightarrow> bool" where
  "ends_with_sentinel vs \<longleftrightarrow> vs \<noteq> [] \<and> (\<forall>k < length vs. vs ! k = SENTINEL \<longleftrightarrow> Suc k = length vs)"

lemma producer_list_ends: "ends_with_sentinel (producer_list n)"
  unfolding ends_with_sentinel_def
proof (intro conjI allI impI)
  show "producer_list n \<noteq> []" by (simp add: producer_list_def)
next
  fix k
  assume "k < length (producer_list n)"
  then have "k < n \<or> k = n" by (auto simp: producer_list_def)
  then show "producer_list n ! k = SENTINEL \<longleftrightarrow> Suc k = length (producer_list n)"
    by (elim disjE) (simp_all add: producer_list_def nth_append SENTINEL_def)
qed

lemma sp_hist_post: "sp_hist vs S_post i \<Longrightarrow> sp_hist vs (if Suc i < length vs then S_wait else S_done) (Suc i)"
  by (simp add: sp_hist_def)

lemma sp_hist_pcs [simp]: "pc \<noteq> S_done \<Longrightarrow> sp_hist vs pc i = (i < length vs)" "sp_hist vs S_done i = (i = length vs)"
  by (auto simp: sp_hist_def)

lemma producer_hist: "producer_sem_step vs s = Some t \<Longrightarrow> sq_hist vs s \<Longrightarrow> sq_hist vs t"
proof (cases "sp_pc s")
  case S_post
  assume "producer_sem_step vs s = Some t" and "sq_hist vs s"
  then show ?thesis
    using S_post sp_hist_post [of vs "sp_i s"] by (auto simp: producer_sem_step_def sq_hist_def simp del: sp_hist_pcs)
qed (auto simp: producer_sem_step_def sq_hist_def split: if_splits)

lemma hist_le: "sq_hist vs s \<Longrightarrow> sp_i s \<le> length vs" "sq_hist vs s \<Longrightarrow> sc_i s \<le> length vs"
  by (auto simp: sq_hist_def sp_hist_def sc_hist_def split: if_splits)

lemma consumer_bound:
  assumes "sq_sems s" and "sq_hist vs s" and "sc_in (sc_pc s) = 1"
  shows "sc_i s < sp_i s" "sc_i s < length vs"
  using assms hist_le(1) [of vs s] by (auto simp: sq_sems_def)

lemma consumer_hist:
  assumes step: "consumer_sem_step s = Some t" and inv: "sq_inv vs s" and vs: "ends_with_sentinel vs"
  shows "sq_hist vs t"
proof (cases "sc_pc s")
  case R_load
  then have "q_load (sq_q s) = vs ! sc_i s"
    using inv consumer_bound [of s vs] slots_read [of vs "qdata (sq_q s)" "sc_i s" "sp_i s + sp_stored (sp_pc s)"]
    by (simp add: sq_inv_def sq_ring_def q_load_def)
  then show ?thesis using step inv R_load by (auto simp: consumer_sem_step_def sq_inv_def sq_hist_def sc_hist_def)
next
  case R_post
  then have b: "sc_i s < length vs" using inv consumer_bound(2) [of s vs] by (simp add: sq_inv_def)
  have v: "sc_val s = vs ! sc_i s" using inv R_post by (simp add: sq_inv_def sq_hist_def sc_hist_def)
  have "sc_val s = SENTINEL \<longleftrightarrow> Suc (sc_i s) = length vs"
    using vs b unfolding v ends_with_sentinel_def by blast
  moreover have "take (Suc (sc_i s)) vs = take (sc_i s) vs @ [sc_val s]"
    using b v by (simp add: take_Suc_conv_app_nth)
  ultimately show ?thesis
    using step inv R_post b by (auto simp: consumer_sem_step_def sq_inv_def sq_hist_def sc_hist_def)
qed (use step inv in \<open>auto simp: consumer_sem_step_def sq_inv_def sq_hist_def sc_hist_def split: if_splits\<close>)

lemma sq_step_inv: "sq_step vs s t \<Longrightarrow> sq_inv vs s \<Longrightarrow> ends_with_sentinel vs \<Longrightarrow> sq_inv vs t"
  using producer_sems producer_ring producer_hist consumer_sems consumer_ring consumer_hist
  unfolding sq_step_def sq_inv_def by metis

lemma sq_start: "ends_with_sentinel vs \<Longrightarrow> sq_inv vs demo_sem_prod_consumer"
  by (auto simp: sq_inv_def sq_sems_def sq_ring_def sq_hist_def sp_hist_def sc_hist_def demo_sem_prod_consumer_def
      queue0_def slots_ok_def ends_with_sentinel_def)

lemma producer_less: "producer_sem_step vs s = Some t \<Longrightarrow> sq_inv vs s \<Longrightarrow> sq_measure vs t < sq_measure vs s"
  by (cases "sp_pc s") (auto simp: producer_sem_step_def sq_measure_def sq_inv_def sq_hist_def sp_hist_def split: if_splits)

lemma consumer_less:
  assumes "consumer_sem_step s = Some t" and "sq_inv vs s"
  shows "sq_measure vs t < sq_measure vs s"
  using assms consumer_bound(2) [of s vs]
  by (cases "sc_pc s") (auto simp: consumer_sem_step_def sq_measure_def sq_inv_def split: if_splits)

lemma producer_blocked: "producer_sem_step vs s = None \<longleftrightarrow> sp_pc s = S_done \<or> (sp_pc s = S_wait \<and> sem_not_full s = 0)"
  by (cases "sp_pc s") (auto simp: producer_sem_step_def)

lemma consumer_blocked: "consumer_sem_step s = None \<longleftrightarrow> sc_pc s = R_done \<or> (sc_pc s = R_wait \<and> sem_not_empty s = 0)"
  by (cases "sc_pc s") (auto simp: consumer_sem_step_def)

lemma sq_progress: "sq_inv vs s \<Longrightarrow> \<not> sq_final s \<Longrightarrow> \<exists>t. sq_step vs s t"
proof (rule ccontr)
  assume inv: "sq_inv vs s" and "\<not> sq_final s" and "\<nexists>t. sq_step vs s t"
  then have "producer_sem_step vs s = None" "consumer_sem_step s = None"
    by (auto simp: sq_step_def) (metis option.exhaust)+
  with inv \<open>\<not> sq_final s\<close> show False
    unfolding producer_blocked consumer_blocked sq_inv_def sq_sems_def sq_hist_def sp_hist_def sc_hist_def sq_final_def
    by (auto split: if_splits)
qed

interpretation demo31: bounded_system "\<lambda>s. s = demo_sem_prod_consumer" "sq_step (producer_list n)"
  "sq_inv (producer_list n)" "sq_measure (producer_list n)" sq_final for n
proof (unfold_locales, goal_cases)
  case (1 s)
  then show ?case by (simp add: sq_start producer_list_ends)
next
  case (2 s t)
  then show ?case by (rule sq_step_inv [OF _ _ producer_list_ends])
next
  case (3 s t)
  then show ?case by (auto simp: sq_step_def intro: producer_less consumer_less)
next
  case (4 s)
  then show ?case by (rule sq_progress)
qed

lemma sched_reach: "(sq_step vs)\<^sup>*\<^sup>* s (sq_sched vs bs s)"
proof (induction bs arbitrary: s)
  case Nil
  then show ?case by simp
next
  case (Cons b bs)
  let ?t = "case (if b then producer_sem_step vs s else consumer_sem_step s) of Some t \<Rightarrow> t | None \<Rightarrow> s"
  have "(sq_step vs)\<^sup>*\<^sup>* s ?t" by (auto simp: sq_step_def split: option.splits)
  then show ?case using Cons.IH [of ?t] by simp
qed

text \<open>
  Between calls the error in \<^verbatim>\<open>count\<close> is the difference to the number of items in the queue. Calls that do
  not overlap keep it.
\<close>

definition quiet :: "sq \<Rightarrow> bool" where
  "quiet s \<longleftrightarrow> sp_pc s \<in> {S_wait, S_done} \<and> sc_pc s \<in> {R_wait, R_done}"

definition drift :: "sq \<Rightarrow> int" where
  "drift s = qcount (sq_q s) - (int (sp_i s) - int (sc_i s))"

lemmas sem_steps = producer_sem_step_def consumer_sem_step_def

lemma push_call:
  assumes "quiet s" and "sp_pc s = S_wait" and "0 < sem_not_full s"
  shows "\<exists>t. (sq_step vs)\<^sup>*\<^sup>* s t \<and> quiet t \<and> drift t = drift s \<and> sp_i t = Suc (sp_i s) \<and> sc_i t = sc_i s"
proof -
  let ?t = "sq_sched vs [True, True, True, True, True, True] s"
  have "quiet ?t \<and> drift ?t = drift s \<and> sp_i ?t = Suc (sp_i s) \<and> sc_i ?t = sc_i s"
    using assms by (simp add: sem_steps quiet_def drift_def q_store_def q_adv_tail_def)
  then show ?thesis using sched_reach by blast
qed

lemma pop_call:
  assumes "quiet s" and "sc_pc s = R_wait" and "0 < sem_not_empty s"
  shows "\<exists>t. (sq_step vs)\<^sup>*\<^sup>* s t \<and> quiet t \<and> drift t = drift s \<and> sp_i t = sp_i s \<and> sc_i t = Suc (sc_i s)"
proof -
  let ?t = "sq_sched vs [False, False, False, False, False, False] s"
  have "quiet ?t \<and> drift ?t = drift s \<and> sp_i ?t = sp_i s \<and> sc_i ?t = Suc (sc_i s)"
    using assms by (simp add: sem_steps quiet_def drift_def q_adv_head_def)
  then show ?thesis using sched_reach by blast
qed

lemma reach_sq_inv: "(sq_step vs)\<^sup>*\<^sup>* s t \<Longrightarrow> sq_inv vs s \<Longrightarrow> ends_with_sentinel vs \<Longrightarrow> sq_inv vs t"
  by (induction rule: rtranclp_induct) (auto intro: sq_step_inv)

lemma quiet_call:
  assumes "sq_inv vs s" and "quiet s" and "\<not> sq_final s"
  shows "\<exists>t. (sq_step vs)\<^sup>*\<^sup>* s t \<and> quiet t \<and> drift t = drift s \<and> sp_i s + sc_i s < sp_i t + sc_i t"
proof -
  obtain t where "sq_step vs s t" using sq_progress [OF assms(1,3)] by blast
  then have "sp_pc s = S_wait \<and> 0 < sem_not_full s \<or> sc_pc s = R_wait \<and> 0 < sem_not_empty s"
    using assms(2) by (auto simp: sq_step_def sem_steps quiet_def split: if_splits)
  then show ?thesis
  proof
    assume "sp_pc s = S_wait \<and> 0 < sem_not_full s"
    then show ?thesis using push_call [OF assms(2), of vs] by auto
  next
    assume "sc_pc s = R_wait \<and> 0 < sem_not_empty s"
    then show ?thesis using pop_call [OF assms(2), of vs] by auto
  qed
qed

lemma quiet_finish:
  assumes "sq_inv vs s" and "quiet s" and "ends_with_sentinel vs"
  shows "\<exists>t. (sq_step vs)\<^sup>*\<^sup>* s t \<and> sq_final t \<and> drift t = drift s"
  using assms(1,2)
proof (induction "2 * length vs - (sp_i s + sc_i s)" arbitrary: s rule: less_induct)
  case less
  show ?case
  proof (cases "sq_final s")
    case False
    then obtain t where t: "(sq_step vs)\<^sup>*\<^sup>* s t" "quiet t" "drift t = drift s" "sp_i s + sc_i s < sp_i t + sc_i t"
      using quiet_call less.prems by blast
    have inv: "sq_inv vs t" using t(1) less.prems(1) assms(3) by (rule reach_sq_inv)
    then have "sp_i t \<le> length vs" "sc_i t \<le> sp_i t" using in_flight [of t] hist_le [of vs t] by (auto simp: sq_inv_def)
    then have "2 * length vs - (sp_i t + sc_i t) < 2 * length vs - (sp_i s + sc_i s)" using t(4) by linarith
    then obtain u where "(sq_step vs)\<^sup>*\<^sup>* t u" "sq_final u" "drift u = drift t"
      using less.hyps [OF _ inv t(2)] by blast
    then show ?thesis using t by (metis rtranclp_trans)
  qed blast
qed

text \<open>The second push reads \<^verbatim>\<open>count\<close> before the first pop does and writes it after.\<close>

lemma push_first_half:
  assumes "sp_pc s = S_wait" "0 < sem_not_full s"
  shows "\<exists>t. (sq_step vs)\<^sup>*\<^sup>* s t \<and> sp_pc t = S_wr \<and> sp_reg t = qcount (sq_q s) \<and> sp_i t = sp_i s
     \<and> sc_pc t = sc_pc s \<and> sc_i t = sc_i s \<and> sem_not_empty t = sem_not_empty s"
proof -
  let ?t = "sq_sched vs [True, True, True, True] s"
  have "sp_pc ?t = S_wr \<and> sp_reg ?t = qcount (sq_q s) \<and> sp_i ?t = sp_i s \<and> sc_pc ?t = sc_pc s
     \<and> sc_i ?t = sc_i s \<and> sem_not_empty ?t = sem_not_empty s"
    using assms by (simp add: producer_sem_step_def q_store_def q_adv_tail_def)
  then show ?thesis using sched_reach by blast
qed

lemma pop_all:
  assumes "sc_pc s = R_wait" "0 < sem_not_empty s"
  shows "\<exists>t. (sq_step vs)\<^sup>*\<^sup>* s t \<and> sp_pc t = sp_pc s \<and> sp_reg t = sp_reg s \<and> sp_i t = sp_i s
     \<and> sc_pc t \<in> {R_wait, R_done} \<and> sc_i t = Suc (sc_i s)"
proof -
  let ?t = "sq_sched vs [False, False, False, False, False, False] s"
  have "sp_pc ?t = sp_pc s \<and> sp_reg ?t = sp_reg s \<and> sp_i ?t = sp_i s \<and> sc_pc ?t \<in> {R_wait, R_done}
     \<and> sc_i ?t = Suc (sc_i s)"
    using assms by (simp add: consumer_sem_step_def q_adv_head_def)
  then show ?thesis using sched_reach by blast
qed

lemma push_second_half:
  assumes "sp_pc s = S_wr"
  shows "\<exists>t. (sq_step vs)\<^sup>*\<^sup>* s t \<and> sp_pc t \<in> {S_wait, S_done} \<and> qcount (sq_q t) = sp_reg s + 1
     \<and> sp_i t = Suc (sp_i s) \<and> sc_pc t = sc_pc s \<and> sc_i t = sc_i s"
proof -
  let ?t = "sq_sched vs [True, True] s"
  have "sp_pc ?t \<in> {S_wait, S_done} \<and> qcount (sq_q ?t) = sp_reg s + 1 \<and> sp_i ?t = Suc (sp_i s)
     \<and> sc_pc ?t = sc_pc s \<and> sc_i ?t = sc_i s"
    using assms by (simp add: producer_sem_step_def)
  then show ?thesis using sched_reach by blast
qed

lemma overlap:
  assumes "sp_pc s = S_wait" "0 < sem_not_full s" "sc_pc s = R_wait" "0 < sem_not_empty s"
  shows "\<exists>t. (sq_step vs)\<^sup>*\<^sup>* s t \<and> quiet t \<and> drift t = drift s + 1"
proof -
  obtain t where t: "(sq_step vs)\<^sup>*\<^sup>* s t" "sp_pc t = S_wr" "sp_reg t = qcount (sq_q s)" "sp_i t = sp_i s"
      "sc_pc t = R_wait" "sc_i t = sc_i s" "0 < sem_not_empty t"
    using push_first_half [of s vs] assms by auto
  obtain u where u: "(sq_step vs)\<^sup>*\<^sup>* t u" "sp_pc u = S_wr" "sp_reg u = qcount (sq_q s)" "sp_i u = sp_i s"
      "sc_pc u \<in> {R_wait, R_done}" "sc_i u = Suc (sc_i s)"
    using pop_all [of t vs] t by metis
  obtain w where w: "(sq_step vs)\<^sup>*\<^sup>* u w" "sp_pc w \<in> {S_wait, S_done}" "qcount (sq_q w) = sp_reg u + 1"
      "sp_i w = Suc (sp_i u)" "sc_pc w = sc_pc u" "sc_i w = sc_i u"
    using push_second_half [OF u(2), of vs] by blast
  have "(sq_step vs)\<^sup>*\<^sup>* s w" using t(1) u(1) w(1) by (meson rtranclp_trans)
  moreover have "quiet w" unfolding quiet_def using w(2,5) u(5) by simp
  moreover have "drift w = drift s + 1" unfolding drift_def using w(3,4,6) u(3,4,6) by simp
  ultimately show ?thesis by blast
qed

lemma race_prefix:
  assumes "2 \<le> length vs"
  shows "\<exists>s. (sq_step vs)\<^sup>*\<^sup>* demo_sem_prod_consumer s \<and> quiet s \<and> drift s = 1"
proof -
  let ?s = "sq_sched vs [True, True, True, True, True, True] demo_sem_prod_consumer"
  have s: "sp_pc ?s = S_wait \<and> 0 < sem_not_full ?s \<and> sc_pc ?s = R_wait \<and> 0 < sem_not_empty ?s \<and> drift ?s = 0"
    using assms by (simp add: sem_steps drift_def q_stmts demo_sem_prod_consumer_def queue0_def)
  then obtain t where "(sq_step vs)\<^sup>*\<^sup>* ?s t" "quiet t" "drift t = drift ?s + 1"
    using overlap [of ?s vs] by blast
  then show ?thesis using s sched_reach [of vs demo_sem_prod_consumer "[True, True, True, True, True, True]"]
    by (metis add_0 rtranclp_trans)
qed

section \<open>Properties\<close>

text \<open>
  C15. \<^verbatim>\<open>demo_sem_prod_consumer\<close> without a mutex, every interleaving of single accesses: the consumer's
  output is at every moment a prefix of 0, 1, ..., n - 1, sentinel; the semaphores keep at most five
  items in flight, so a slot is never stored to before it was read.
\<close>

theorem sem_queue_safe:
  assumes "(sq_step (producer_list n))\<^sup>*\<^sup>* demo_sem_prod_consumer s"
  shows "prefix (sc_got s) (producer_list n) \<and> sp_i s - sc_i s \<le> 5
     \<and> sem_not_full s + sem_not_empty s \<le> 5"
proof -
  have inv: "sq_inv (producer_list n) s" using assms demo31.reach_inv [of demo_sem_prod_consumer n s] by simp
  then show ?thesis
    using in_flight [of s] by (auto simp: sq_inv_def sq_hist_def sc_hist_def sq_sems_def take_is_prefix)
qed

theorem sem_queue_safe_witness:
  "prefix (sc_got demo_sem_prod_consumer) (producer_list 10)"
  using sem_queue_safe [of 10 demo_sem_prod_consumer] by simp

text \<open>
  C16. \<^verbatim>\<open>demo_sem_prod_consumer\<close> always ends: the number of steps is bounded, and a state in which no
  thread can move is one where both have returned and everything has been received in order.
\<close>

theorem sem_queue_completes:
  "((sq_step (producer_list n) ^^ k) demo_sem_prod_consumer s \<longrightarrow> k \<le> 12 * n + 22)
   \<and> ((sq_step (producer_list n))\<^sup>*\<^sup>* demo_sem_prod_consumer s \<and> (\<forall>u. \<not> sq_step (producer_list n) s u) \<longrightarrow>
        sq_final s \<and> sc_got s = producer_list n)"
proof (intro conjI impI)
  assume "(sq_step (producer_list n) ^^ k) demo_sem_prod_consumer s"
  then have "k \<le> sq_measure (producer_list n) demo_sem_prod_consumer"
    using demo31.run_length [of demo_sem_prod_consumer k n s] by simp
  then show "k \<le> 12 * n + 22" by (simp add: sq_measure_def demo_sem_prod_consumer_def producer_list_def)
next
  assume stop: "(sq_step (producer_list n))\<^sup>*\<^sup>* demo_sem_prod_consumer s \<and> (\<forall>u. \<not> sq_step (producer_list n) s u)"
  then show fin: "sq_final s" using demo31.stuck_final [of demo_sem_prod_consumer n s] by auto
  have "sq_inv (producer_list n) s" using stop demo31.reach_inv [of demo_sem_prod_consumer n s] by simp
  with fin show "sc_got s = producer_list n" by (simp add: sq_inv_def sq_hist_def sc_hist_def sq_final_def)
qed

theorem sem_queue_completes_witness:
  "(sq_step (producer_list 0) ^^ 1) demo_sem_prod_consumer (the (producer_sem_step (producer_list 0) demo_sem_prod_consumer))
   \<and> (1 :: nat) \<le> 12 * 0 + 22"
proof -
  have "(sq_step (producer_list 0) ^^ 1) demo_sem_prod_consumer (the (producer_sem_step (producer_list 0) demo_sem_prod_consumer))"
    by (simp only: relpowp_1) (simp add: sq_step_def producer_sem_step_def demo_sem_prod_consumer_def)
  then show ?thesis using sem_queue_completes [THEN conjunct1] by simp
qed

text \<open>
  The field \<^verbatim>\<open>count\<close> is a data race: for every n \<open>\<ge>\<close> 1 (the demo uses 10) there is a schedule after which
  both threads have returned and everything was received, but \<^verbatim>\<open>count\<close> is 1, not 0.
\<close>

theorem sem_queue_count_race:
  assumes "1 \<le> n"
  shows "\<exists>s. (sq_step (producer_list n))\<^sup>*\<^sup>* demo_sem_prod_consumer s
     \<and> sq_final s \<and> sc_got s = producer_list n \<and> qcount (sq_q s) = 1"
proof -
  let ?vs = "producer_list n"
  have vs: "ends_with_sentinel ?vs" "2 \<le> length ?vs" using assms producer_list_ends by (auto simp: producer_list_def)
  obtain s where s: "(sq_step ?vs)\<^sup>*\<^sup>* demo_sem_prod_consumer s" "quiet s" "drift s = 1"
    using race_prefix [OF vs(2)] by blast
  have inv: "sq_inv ?vs s" using s(1) demo31.reach_inv [of demo_sem_prod_consumer n s] by simp
  obtain t where t: "(sq_step ?vs)\<^sup>*\<^sup>* s t" "sq_final t" "drift t = 1"
    using quiet_finish [OF inv s(2) vs(1)] s(3) by auto
  have reach: "(sq_step ?vs)\<^sup>*\<^sup>* demo_sem_prod_consumer t" using s(1) t(1) by (rule rtranclp_trans)
  have "sq_inv ?vs t" using reach demo31.reach_inv [of demo_sem_prod_consumer n t] by simp
  then have "sc_got t = ?vs" "qcount (sq_q t) = 1"
    using t(2,3) by (auto simp: sq_inv_def sq_hist_def sp_hist_def sc_hist_def sq_final_def drift_def)
  with reach t(2) show ?thesis by blast
qed

theorem sem_queue_count_race_witness:
  "\<exists>s. (sq_step (producer_list 10))\<^sup>*\<^sup>* demo_sem_prod_consumer s \<and> sq_final s \<and> qcount (sq_q s) = 1"
  using sem_queue_count_race [of 10] by auto

end
