(* ===== verification/Rwlock_Tls.thy ===== *)
theory Rwlock_Tls
  imports Thread_Pool
begin

text \<open>
  The remaining demos of \<^verbatim>\<open>02_threads/thread_demo.c\<close> as thread pools: the read-write lock (demo 4), the
  thread-local counter (demo 5) and create/join (demo 1).

  Shown: a writer is alone inside the lock, a writer prints the value it has just set and a reader a
  value some writer set, for any number of readers and writers; every thread counts its own thread-local
  variable to five; the main thread prints the return value of every worker in order, or stops at the
  first call that fails.
\<close>

section \<open>Read-write lock\<close>

record rwlock =
  rw_readers :: nat
  rw_writer :: bool

datatype rw_role = Reader | Writer
datatype rw_pc = RW_lock | RW_set | RW_print | RW_unlock | RW_done

text \<open>\<open>rw_out\<close> is the value the thread printed.\<close>

record rwt =
  rw_role :: rw_role
  rw_id :: int
  rw_pc :: rw_pc
  rw_out :: "int option"

record rw_shared =
  g_rwlock :: rwlock
  g_shared_val :: int

definition reader_step :: "rw_shared \<Rightarrow> rwt \<Rightarrow> (rw_shared \<times> rwt) option" where
  "reader_step g l =
     (case rw_pc l of
        RW_lock \<Rightarrow> if rw_writer (g_rwlock g) then None
                   else Some (g\<lparr>g_rwlock := (g_rwlock g)\<lparr>rw_readers := rw_readers (g_rwlock g) + 1\<rparr>\<rparr>, l\<lparr>rw_pc := RW_print\<rparr>)
      | RW_print \<Rightarrow> Some (g, l\<lparr>rw_out := Some (g_shared_val g), rw_pc := RW_unlock\<rparr>)
      | RW_unlock \<Rightarrow> Some (g\<lparr>g_rwlock := (g_rwlock g)\<lparr>rw_readers := rw_readers (g_rwlock g) - 1\<rparr>\<rparr>, l\<lparr>rw_pc := RW_done\<rparr>)
      | _ \<Rightarrow> None)"

definition writer_step :: "rw_shared \<Rightarrow> rwt \<Rightarrow> (rw_shared \<times> rwt) option" where
  "writer_step g l =
     (case rw_pc l of
        RW_lock \<Rightarrow> if rw_writer (g_rwlock g) \<or> 0 < rw_readers (g_rwlock g) then None
                   else Some (g\<lparr>g_rwlock := (g_rwlock g)\<lparr>rw_writer := True\<rparr>\<rparr>, l\<lparr>rw_pc := RW_set\<rparr>)
      | RW_set \<Rightarrow> Some (g\<lparr>g_shared_val := rw_id l * 100\<rparr>, l\<lparr>rw_pc := RW_print\<rparr>)
      | RW_print \<Rightarrow> Some (g, l\<lparr>rw_out := Some (g_shared_val g), rw_pc := RW_unlock\<rparr>)
      | RW_unlock \<Rightarrow> Some (g\<lparr>g_rwlock := (g_rwlock g)\<lparr>rw_writer := False\<rparr>\<rparr>, l\<lparr>rw_pc := RW_done\<rparr>)
      | RW_done \<Rightarrow> None)"

definition rw_step :: "nat \<Rightarrow> rw_shared \<Rightarrow> rwt \<Rightarrow> (rw_shared \<times> rwt) option" where
  "rw_step i g l = (case rw_role l of Reader \<Rightarrow> reader_step g l | Writer \<Rightarrow> writer_step g l)"

text \<open>\<^verbatim>\<open>demo_rwlock\<close> for writers with the ids \<open>ws\<close> and readers with the ids \<open>rs\<close>, all created.\<close>

definition demo_rwlock :: "int list \<Rightarrow> int list \<Rightarrow> rw_shared \<times> rwt list" where
  "demo_rwlock ws rs =
     (\<lparr>g_rwlock = \<lparr>rw_readers = 0, rw_writer = False\<rparr>, g_shared_val = 0\<rparr>,
      map (\<lambda>w. \<lparr>rw_role = Writer, rw_id = w, rw_pc = RW_lock, rw_out = None\<rparr>) ws
      @ map (\<lambda>r. \<lparr>rw_role = Reader, rw_id = r, rw_pc = RW_lock, rw_out = None\<rparr>) rs)"

definition rw_inside :: "rw_role \<Rightarrow> rwt \<Rightarrow> bool" where
  "rw_inside r l \<longleftrightarrow> rw_role l = r \<and> rw_pc l \<in> {RW_set, RW_print, RW_unlock}"

definition rwlock_ok :: "rwlock \<Rightarrow> nat set \<Rightarrow> nat set \<Rightarrow> bool" where
  "rwlock_ok k R W \<longleftrightarrow> finite R \<and> rw_readers k = card R \<and> (if rw_writer k then (\<exists>i. W = {i}) \<and> R = {} else W = {})"

definition rw_ok :: "int set \<Rightarrow> int \<Rightarrow> rwt \<Rightarrow> bool" where
  "rw_ok V v l \<longleftrightarrow>
     (case rw_role l of
        Reader \<Rightarrow> rw_pc l \<noteq> RW_set \<and> (rw_pc l \<in> {RW_unlock, RW_done} \<longrightarrow> rw_out l \<in> Some ` V)
      | Writer \<Rightarrow> rw_id l * 100 \<in> V \<and> (rw_pc l = RW_print \<longrightarrow> v = rw_id l * 100)
          \<and> (rw_pc l \<in> {RW_unlock, RW_done} \<longrightarrow> rw_out l = Some (rw_id l * 100)))"

definition rw_inv :: "int set \<Rightarrow> rw_shared \<Rightarrow> rwt list \<Rightarrow> bool" where
  "rw_inv V g ls \<longleftrightarrow> rwlock_ok (g_rwlock g) (where_in (rw_inside Reader) ls) (where_in (rw_inside Writer) ls)
     \<and> g_shared_val g \<in> V \<and> list_all (rw_ok V (g_shared_val g)) ls"

fun rw_rank :: "rw_pc \<Rightarrow> nat" where
  "rw_rank RW_lock = 4" | "rw_rank RW_set = 3" | "rw_rank RW_print = 2" | "rw_rank RW_unlock = 1" | "rw_rank RW_done = 0"

definition rw_values :: "int list \<Rightarrow> int set" where
  "rw_values ws = insert 0 ((\<lambda>w. w * 100) ` set ws)"

lemma rwlock_rd: "rwlock_ok k R W \<Longrightarrow> \<not> rw_writer k \<Longrightarrow> i \<notin> R \<Longrightarrow> rwlock_ok (k\<lparr>rw_readers := rw_readers k + 1\<rparr>) (insert i R) W"
  by (auto simp: rwlock_ok_def)

lemma rwlock_rd_unlock: "rwlock_ok k R W \<Longrightarrow> i \<in> R \<Longrightarrow> rwlock_ok (k\<lparr>rw_readers := rw_readers k - 1\<rparr>) (R - {i}) W"
  by (auto simp: rwlock_ok_def split: if_splits)

lemma rwlock_wr:
  "rwlock_ok k R W \<Longrightarrow> \<not> rw_writer k \<Longrightarrow> rw_readers k = 0 \<Longrightarrow> rwlock_ok (k\<lparr>rw_writer := True\<rparr>) R (insert i W)"
  by (auto simp: rwlock_ok_def)

lemma rwlock_wr_unlock: "rwlock_ok k R W \<Longrightarrow> i \<in> W \<Longrightarrow> rwlock_ok (k\<lparr>rw_writer := False\<rparr>) R (W - {i})"
  by (auto simp: rwlock_ok_def split: if_splits)

lemma rw_ok_other: "rw_ok V v l \<Longrightarrow> \<not> rw_inside Writer l \<Longrightarrow> rw_ok V v' l"
  by (auto simp: rw_ok_def rw_inside_def split: rw_role.splits)

lemma rw_set_all:
  assumes "list_all (rw_ok V v) ls" and "where_in (rw_inside Writer) ls = {i}" and "rw_ok V v' l" and "i < length ls"
  shows "list_all (rw_ok V v') (ls[i := l])"
  unfolding list_all_length
proof (intro allI impI)
  fix j
  assume j: "j < length (ls[i := l])"
  show "rw_ok V v' (ls[i := l] ! j)"
  proof (cases "j = i")
    case False
    then have "\<not> rw_inside Writer (ls ! j)" using assms(2) j by (auto simp: where_in_def)
    then show ?thesis using rw_ok_other [of V v "ls ! j" v'] assms(1) j False by (simp add: list_all_length)
  qed (use assms(3,4) in simp)
qed

lemma reader_inv:
  assumes inv: "rw_inv V g ls" and i: "i < length ls" and r: "rw_role (ls ! i) = Reader"
    and step: "reader_step g (ls ! i) = Some (g', l')"
  shows "rw_inv V g' (ls[i := l'])"
proof -
  let ?R = "where_in (rw_inside Reader) ls" and ?W = "where_in (rw_inside Writer) ls"
  have k: "rwlock_ok (g_rwlock g) ?R ?W" and v: "g_shared_val g \<in> V" and ok: "list_all (rw_ok V (g_shared_val g)) ls"
    using inv by (auto simp: rw_inv_def)
  have oki: "rw_ok V (g_shared_val g) (ls ! i)" using ok i by (rule list_all_at)
  have w: "i \<notin> ?W" using i r by (simp add: rw_inside_def)
  show ?thesis
  proof (cases "rw_pc (ls ! i)")
    case RW_lock
    then have "i \<notin> ?R" using i by (simp add: rw_inside_def)
    then show ?thesis
      using RW_lock step r i k v ok w rwlock_rd [OF k]
      by (auto simp: reader_step_def rw_inv_def rw_ok_def rw_inside_def intro!: list_all_update split: if_splits)
  next
    case RW_print
    then have "i \<in> ?R" using i r by (simp add: rw_inside_def)
    then show ?thesis
      using RW_print step r i k v ok w
      by (auto simp: reader_step_def rw_inv_def rw_ok_def rw_inside_def insert_absorb intro!: list_all_update)
  next
    case RW_unlock
    then have "i \<in> ?R" using i r by (simp add: rw_inside_def)
    then show ?thesis
      using RW_unlock step r i k v ok oki w rwlock_rd_unlock [OF k]
      by (auto simp: reader_step_def rw_inv_def rw_ok_def rw_inside_def intro!: list_all_update)
  qed (use step in \<open>simp_all add: reader_step_def\<close>)
qed

lemma writer_inv:
  assumes inv: "rw_inv V g ls" and i: "i < length ls" and r: "rw_role (ls ! i) = Writer"
    and step: "writer_step g (ls ! i) = Some (g', l')"
  shows "rw_inv V g' (ls[i := l'])"
proof -
  let ?R = "where_in (rw_inside Reader) ls" and ?W = "where_in (rw_inside Writer) ls"
  have k: "rwlock_ok (g_rwlock g) ?R ?W" and v: "g_shared_val g \<in> V" and ok: "list_all (rw_ok V (g_shared_val g)) ls"
    using inv by (auto simp: rw_inv_def)
  have oki: "rw_ok V (g_shared_val g) (ls ! i)" using ok i by (rule list_all_at)
  have w: "i \<notin> ?R" using i r by (simp add: rw_inside_def)
  have only: "?W = {i}" if "i \<in> ?W" using k that by (auto simp: rwlock_ok_def split: if_splits)
  show ?thesis
  proof (cases "rw_pc (ls ! i)")
    case RW_lock
    then show ?thesis
      using step r i k v ok oki w rwlock_wr [OF k]
      by (auto simp: writer_step_def rw_inv_def rw_ok_def rw_inside_def intro!: list_all_update split: if_splits)
  next
    case RW_set
    then have W: "?W = {i}" using i r only by (simp add: rw_inside_def)
    have g': "g' = g\<lparr>g_shared_val := rw_id (ls ! i) * 100\<rparr>" "l' = (ls ! i)\<lparr>rw_pc := RW_print\<rparr>"
      using step RW_set by (auto simp: writer_step_def)
    have "rw_ok V (rw_id (ls ! i) * 100) l'" using oki r g' by (simp add: rw_ok_def)
    then have "list_all (rw_ok V (rw_id (ls ! i) * 100)) (ls[i := l'])" using ok W i by (intro rw_set_all)
    then show ?thesis using g' k W w i r oki by (simp add: rw_inv_def rw_inside_def rw_ok_def)
  next
    case RW_print
    then have "i \<in> ?W" using i r by (simp add: rw_inside_def)
    then show ?thesis
      using RW_print step r i k v ok oki w
      by (auto simp: writer_step_def rw_inv_def rw_ok_def rw_inside_def insert_absorb intro!: list_all_update)
  next
    case RW_unlock
    then have "i \<in> ?W" using i r by (simp add: rw_inside_def)
    then show ?thesis
      using RW_unlock step r i k v ok oki w rwlock_wr_unlock [OF k]
      by (auto simp: writer_step_def rw_inv_def rw_ok_def rw_inside_def intro!: list_all_update)
  qed (use step in \<open>simp_all add: writer_step_def\<close>)
qed

lemma rw_progress:
  assumes inv: "rw_inv V g ls" and "\<not> list_all (\<lambda>l. rw_pc l = RW_done) ls"
  shows "\<exists>i < length ls. rw_step i g (ls ! i) \<noteq> None"
proof -
  have inside: "rw_step i g (ls ! i) \<noteq> None" if "i \<in> where_in (rw_inside r) ls" for i r
  proof -
    have "i < length ls" using that by (simp add: where_in_def)
    then have "rw_ok V (g_shared_val g) (ls ! i)" using inv list_all_at unfolding rw_inv_def by blast
    then show ?thesis
      using that by (auto simp: where_in_def rw_inside_def rw_step_def reader_step_def writer_step_def rw_ok_def split: rw_role.splits)
  qed
  show ?thesis
  proof (cases "rw_writer (g_rwlock g) \<or> 0 < rw_readers (g_rwlock g)")
    case True
    then obtain i r where "i \<in> where_in (rw_inside r) ls"
      using inv by (fastforce simp: rw_inv_def rwlock_ok_def card_gt_0_iff)
    then show ?thesis using inside by (auto simp: where_in_def)
  next
    case False
    obtain i where i: "i < length ls" "rw_pc (ls ! i) \<noteq> RW_done" using assms(2) by (auto simp: list_all_length)
    then have "rw_pc (ls ! i) = RW_lock \<Longrightarrow> rw_step i g (ls ! i) \<noteq> None"
      using False by (simp add: rw_step_def reader_step_def writer_step_def split: rw_role.splits)
    moreover have "i \<in> where_in (rw_inside (rw_role (ls ! i))) ls" if "rw_pc (ls ! i) \<noteq> RW_lock"
      using i that by (cases "rw_pc (ls ! i)") (auto simp: rw_inside_def where_in_def)
    ultimately show ?thesis using i(1) inside by blast
  qed
qed

lemma rw_start: "rw_inv (rw_values ws) (fst (demo_rwlock ws rs)) (snd (demo_rwlock ws rs))"
proof -
  have "\<not> rw_inside r l" if "l \<in> set (snd (demo_rwlock ws rs))" for r l
    using that by (auto simp: demo_rwlock_def rw_inside_def)
  then have "where_in (rw_inside r) (snd (demo_rwlock ws rs)) = {}" for r by (auto simp: where_in_def)
  then show ?thesis
    by (auto simp: rw_inv_def rwlock_ok_def rw_ok_def list_all_iff rw_values_def demo_rwlock_def)
qed

interpretation rwp: thread_pool "\<lambda>s. s = demo_rwlock ws rs" rw_step "rw_inv (rw_values ws)"
  "\<lambda>l. rw_rank (rw_pc l)" "\<lambda>l. rw_pc l = RW_done" for ws rs
proof (unfold_locales, goal_cases)
  case (1 g ls)
  then show ?case using rw_start [of ws rs] by (metis fst_conv snd_conv)
next
  case (2 g ls i g' l')
  then show ?case by (cases "rw_role (ls ! i)") (auto simp: rw_step_def intro: reader_inv writer_inv)
next
  case (3 g ls i g' l')
  then show ?case
    by (cases "rw_role (ls ! i)"; cases "rw_pc (ls ! i)")
      (auto simp: rw_step_def reader_step_def writer_step_def split: if_splits)
next
  case (4 g ls)
  then show ?case by (rule rw_progress)
qed

text \<open>
  C20. \<^verbatim>\<open>demo_rwlock\<close> for any readers and writers (the demo has writers 98 and 99 and readers 1 to 3), any
  schedule: a writer inside the lock is alone in it; and when no thread can move, all have returned, every
  writer has printed exactly the value it set, and every reader the initial 0 or a value some writer set.
\<close>

theorem demo_rwlock_correct:
  assumes "(pool_step rw_step)\<^sup>*\<^sup>* (demo_rwlock ws rs) s"
  shows "(where_in (rw_inside Writer) (snd s) \<noteq> {} \<longrightarrow>
            where_in (rw_inside Reader) (snd s) = {} \<and> card (where_in (rw_inside Writer) (snd s)) = 1)
     \<and> ((\<forall>t. \<not> pool_step rw_step s t) \<longrightarrow>
          (\<forall>l \<in> set (snd s). rw_pc l = RW_done
             \<and> (case rw_role l of Writer \<Rightarrow> rw_out l = Some (rw_id l * 100)
                | Reader \<Rightarrow> rw_out l \<in> Some ` insert 0 ((\<lambda>w. w * 100) ` set ws))))"
proof (intro conjI impI)
  have inv: "rw_inv (rw_values ws) (fst s) (snd s)" using rwp.reach_inv [OF refl assms] .
  assume "where_in (rw_inside Writer) (snd s) \<noteq> {}"
  then show "where_in (rw_inside Reader) (snd s) = {}" "card (where_in (rw_inside Writer) (snd s)) = 1"
    using inv by (auto simp: rw_inv_def rwlock_ok_def split: if_splits)
next
  have inv: "rw_inv (rw_values ws) (fst s) (snd s)" using rwp.reach_inv [OF refl assms] .
  assume "\<forall>t. \<not> pool_step rw_step s t"
  then have "list_all (\<lambda>l. rw_pc l = RW_done) (snd s)" using rwp.stuck_final [OF refl assms] by blast
  then show "\<forall>l \<in> set (snd s). rw_pc l = RW_done
       \<and> (case rw_role l of Writer \<Rightarrow> rw_out l = Some (rw_id l * 100)
          | Reader \<Rightarrow> rw_out l \<in> Some ` insert 0 ((\<lambda>w. w * 100) ` set ws))"
    using inv by (auto simp: rw_inv_def list_all_iff rw_ok_def rw_values_def split: rw_role.splits)
qed

theorem demo_rwlock_correct_witness:
  "\<exists>s. (pool_step rw_step)\<^sup>*\<^sup>* (demo_rwlock [98, 99] [1, 2, 3]) s
     \<and> (\<forall>l \<in> set (snd s). rw_role l = Writer \<longrightarrow> rw_out l = Some (rw_id l * 100))"
proof -
  obtain s where s: "(pool_step rw_step)\<^sup>*\<^sup>* (demo_rwlock [98, 99] [1, 2, 3]) s" "list_all (\<lambda>l. rw_pc l = RW_done) (snd s)"
    using rwp.finishes [OF rw_start, of "[98, 99]" "[1, 2, 3]"] by blast
  then have "\<not> pool_step rw_step s t" for t
    by (auto simp: pool_step_def list_all_length rw_step_def reader_step_def writer_step_def split: rw_role.splits)
  then show ?thesis using demo_rwlock_correct [OF s(1)] s(1) by (intro exI [of _ s]) fastforce
qed

section \<open>Thread-local storage\<close>

text \<open>\<open>tls_counters\<close> has one copy of \<^verbatim>\<open>tls_counter\<close> per thread; thread \<open>i\<close> uses the \<open>i\<close>-th.\<close>

datatype tls_pc = L_load | L_store | L_print | L_done

record tlst =
  tls_pc :: tls_pc
  tls_id :: int
  tls_i :: nat
  tls_reg :: int
  tls_out :: "(int \<times> int) option"

definition tls_worker_step :: "nat \<Rightarrow> int list \<Rightarrow> tlst \<Rightarrow> (int list \<times> tlst) option" where
  "tls_worker_step i tls_counters l =
     (case tls_pc l of
        L_load \<Rightarrow> if tls_i l < 5 then Some (tls_counters, l\<lparr>tls_reg := tls_counters ! i, tls_pc := L_store\<rparr>)
                  else Some (tls_counters, l\<lparr>tls_pc := L_print\<rparr>)
      | L_store \<Rightarrow> Some (tls_counters[i := tls_reg l + 1], l\<lparr>tls_i := tls_i l + 1, tls_pc := L_load\<rparr>)
      | L_print \<Rightarrow> Some (tls_counters, l\<lparr>tls_out := Some (tls_id l, tls_counters ! i), tls_pc := L_done\<rparr>)
      | L_done \<Rightarrow> None)"

definition demo_tls :: "nat \<Rightarrow> int list \<times> tlst list" where
  "demo_tls n = (replicate n 0,
     map (\<lambda>i. \<lparr>tls_pc = L_load, tls_id = int i + 1, tls_i = 0, tls_reg = 0, tls_out = None\<rparr>) [0..<n])"

definition tls_ok :: "int \<Rightarrow> nat \<Rightarrow> tlst \<Rightarrow> bool" where
  "tls_ok c i l \<longleftrightarrow> c = int (tls_i l) \<and> tls_id l = int i + 1
     \<and> (case tls_pc l of L_load \<Rightarrow> tls_i l \<le> 5 | L_store \<Rightarrow> tls_i l < 5 \<and> tls_reg l = c
        | L_print \<Rightarrow> tls_i l = 5 | L_done \<Rightarrow> tls_out l = Some (int i + 1, 5))"

definition tls_inv :: "int list \<Rightarrow> tlst list \<Rightarrow> bool" where
  "tls_inv cs ls \<longleftrightarrow> length cs = length ls \<and> (\<forall>i < length ls. tls_ok (cs ! i) i (ls ! i))"

fun tls_rank :: "tls_pc \<Rightarrow> nat" where
  "tls_rank L_load = 2" | "tls_rank L_store = 1" | "tls_rank L_print = 1" | "tls_rank L_done = 0"

lemma tls_own:
  "i < length ls \<Longrightarrow> i < length cs \<Longrightarrow> tls_ok (cs ! i) i (ls ! i) \<Longrightarrow> tls_worker_step i cs (ls ! i) = Some (cs', l') \<Longrightarrow>
     length cs' = length cs \<and> tls_ok (cs' ! i) i l' \<and> (\<forall>j. j \<noteq> i \<longrightarrow> cs' ! j = cs ! j)"
  by (cases "tls_pc (ls ! i)") (auto simp: tls_worker_step_def tls_ok_def split: if_splits)

lemma tls_step_inv:
  assumes "tls_inv cs ls" and "i < length ls" and "tls_worker_step i cs (ls ! i) = Some (cs', l')"
  shows "tls_inv cs' (ls[i := l'])"
proof -
  have "length cs' = length cs \<and> tls_ok (cs' ! i) i l' \<and> (\<forall>j. j \<noteq> i \<longrightarrow> cs' ! j = cs ! j)"
    using assms by (intro tls_own) (auto simp: tls_inv_def)
  with assms(1,2) show ?thesis by (auto simp: tls_inv_def nth_list_update)
qed

lemma tls_start: "tls_inv (fst (demo_tls n)) (snd (demo_tls n))"
  by (simp add: tls_inv_def demo_tls_def tls_ok_def)

interpretation tlsp: thread_pool "\<lambda>s. s = demo_tls n" tls_worker_step tls_inv
  "\<lambda>l. 2 * (5 - tls_i l) + tls_rank (tls_pc l)" "\<lambda>l. tls_pc l = L_done" for n
proof (unfold_locales, goal_cases)
  case (1 g ls)
  then show ?case using tls_start [of n] by (metis fst_conv snd_conv)
next
  case (2 g ls i g' l')
  then show ?case by (rule tls_step_inv)
next
  case (3 g ls i g' l')
  then have "tls_ok (g ! i) i (ls ! i)" by (simp add: tls_inv_def)
  with 3(3) show ?case by (cases "tls_pc (ls ! i)") (auto simp: tls_worker_step_def tls_ok_def split: if_splits)
next
  case (4 g ls)
  then obtain i where "i < length ls" "tls_pc (ls ! i) \<noteq> L_done" by (auto simp: list_all_length)
  then show ?case by (intro exI [of _ i]) (cases "tls_pc (ls ! i)", auto simp: tls_worker_step_def)
qed

text \<open>
  \<^verbatim>\<open>demo_tls\<close> with any number of threads (3 in the demo), which increment \<^verbatim>\<open>tls_counter\<close> without any lock:
  a state in which no thread can move is reached only with every thread having printed its id and 5.
\<close>

theorem demo_tls_independent:
  assumes "(pool_step tls_worker_step)\<^sup>*\<^sup>* (demo_tls n) s" and "\<forall>t. \<not> pool_step tls_worker_step s t"
  shows "map tls_out (snd s) = map (\<lambda>i. Some (int i + 1, 5)) [0..<n]"
proof -
  have inv: "tls_inv (fst s) (snd s)" using tlsp.reach_inv [OF refl assms(1)] .
  have fin: "list_all (\<lambda>l. tls_pc l = L_done) (snd s)" using tlsp.stuck_final [OF refl assms(1)] assms(2) by blast
  have "length (snd s) = n" using pool_length [OF assms(1)] by (simp add: demo_tls_def)
  then show ?thesis
    using inv fin by (intro nth_equalityI) (auto simp: tls_inv_def tls_ok_def list_all_length)
qed

theorem demo_tls_independent_witness:
  "\<exists>s. (pool_step tls_worker_step)\<^sup>*\<^sup>* (demo_tls 3) s \<and> map tls_out (snd s) = [Some (1, 5), Some (2, 5), Some (3, 5)]"
proof -
  obtain s where s: "(pool_step tls_worker_step)\<^sup>*\<^sup>* (demo_tls 3) s" "list_all (\<lambda>l. tls_pc l = L_done) (snd s)"
    using tlsp.finishes [OF tls_start, of 3] by blast
  then have "\<forall>t. \<not> pool_step tls_worker_step s t"
    by (auto simp: pool_step_def list_all_length tls_worker_step_def)
  then show ?thesis using demo_tls_independent [OF s(1)] s(1) by (intro exI [of _ s]) (simp add: upt_conv_Cons numeral_3_eq_3)
qed

section \<open>Create and join\<close>

text \<open>
  \<^verbatim>\<open>demo_basic_threads\<close> with \<open>n\<close> threads; \<open>cerr\<close> and \<open>jerr\<close> are what \<^verbatim>\<open>pthread_create\<close> and \<^verbatim>\<open>pthread_join\<close> return
  for each thread. Printed lines of the main thread; \<open>False\<close> when it called \<^verbatim>\<open>exit(1)\<close>.
\<close>

datatype basic_line = Error_Creating nat int | Returned nat int

definition basic_worker :: "int \<Rightarrow> int" where
  "basic_worker ident = ident * 10"

function basic_create :: "(nat \<Rightarrow> int) \<Rightarrow> nat \<Rightarrow> nat \<Rightarrow> basic_line list \<times> bool" where
  "basic_create cerr n i =
     (if i < n then (if cerr i \<noteq> 0 then ([Error_Creating i (cerr i)], False) else basic_create cerr n (i + 1))
      else ([], True))"
  by auto
termination by (relation "measure (\<lambda>(_, n, i). n - i)") auto

function basic_join :: "(nat \<Rightarrow> int) \<Rightarrow> nat \<Rightarrow> nat \<Rightarrow> basic_line list \<times> bool" where
  "basic_join jerr n i =
     (if i < n
      then (if jerr i \<noteq> 0 then ([Error_Creating i (jerr i)], False)
            else case basic_join jerr n (i + 1) of (ls, ok) \<Rightarrow> (Returned i (basic_worker (int i)) # ls, ok))
      else ([], True))"
  by auto
termination by (relation "measure (\<lambda>(_, n, i). n - i)") auto

declare basic_create.simps [simp del] basic_join.simps [simp del]

definition demo_basic_threads :: "(nat \<Rightarrow> int) \<Rightarrow> (nat \<Rightarrow> int) \<Rightarrow> nat \<Rightarrow> basic_line list \<times> bool" where
  "demo_basic_threads cerr jerr n =
     (case basic_create cerr n 0 of (ls, ok) \<Rightarrow> if ok then basic_join jerr n 0 else (ls, False))"

lemma basic_create_ok: "(\<And>k. i \<le> k \<Longrightarrow> k < n \<Longrightarrow> cerr k = 0) \<Longrightarrow> basic_create cerr n i = ([], True)"
  by (induction cerr n i rule: basic_create.induct) (simp add: basic_create.simps)

lemma basic_join_prefix:
  "(\<And>k. i \<le> k \<Longrightarrow> k < m \<Longrightarrow> jerr k = 0) \<Longrightarrow> i \<le> m \<Longrightarrow> m \<le> n \<Longrightarrow>
     basic_join jerr n i = (map (\<lambda>k. Returned k (int k * 10)) [i..<m] @ fst (basic_join jerr n m), snd (basic_join jerr n m))"
proof (induction "m - i" arbitrary: i)
  case 0
  then show ?case by simp
next
  case (Suc d)
  have i: "i < m" "jerr i = 0" using Suc.hyps(2) Suc.prems(1) [of i] by auto
  have "basic_join jerr n (Suc i) =
      (map (\<lambda>k. Returned k (int k * 10)) [Suc i..<m] @ fst (basic_join jerr n m), snd (basic_join jerr n m))"
    using Suc.hyps Suc.prems i by (intro Suc.hyps(1)) auto
  moreover have "basic_join jerr n i =
      (case basic_join jerr n (Suc i) of (ls, ok) \<Rightarrow> (Returned i (int i * 10) # ls, ok))"
    using i Suc.prems(3) by (subst basic_join.simps) (simp add: basic_worker_def)
  ultimately show ?case using i by (simp add: upt_conv_Cons)
qed

text \<open>
  \<^verbatim>\<open>demo_basic_threads\<close>: when all calls succeed, the main thread prints every worker's return value, ten
  times its number, in order; when joining thread \<open>m\<close> is the first call that fails, it prints the lines
  before it and an error, which says "creating" although it was joining, and exits.
\<close>

theorem demo_basic_threads_lines:
  assumes "\<And>k. k < n \<Longrightarrow> cerr k = 0" and "\<And>k. k < m \<Longrightarrow> jerr k = 0" and "m \<le> n" and "m < n \<longrightarrow> jerr m \<noteq> 0"
  shows "demo_basic_threads cerr jerr n =
     (map (\<lambda>k. Returned k (int k * 10)) [0..<m] @ (if m < n then [Error_Creating m (jerr m)] else []), m = n)"
proof -
  have "basic_join jerr n m = (if m < n then [Error_Creating m (jerr m)] else [], m = n)"
    using assms(3,4) by (auto simp: basic_join.simps [of jerr n m])
  then show ?thesis
    using assms basic_create_ok [of 0 n cerr] basic_join_prefix [of 0 m jerr n] by (simp add: demo_basic_threads_def)
qed

theorem demo_basic_threads_lines_witness:
  "demo_basic_threads (\<lambda>_. 0) (\<lambda>_. 0) 4 = ([Returned 0 0, Returned 1 10, Returned 2 20, Returned 3 30], True)"
  using demo_basic_threads_lines [of 4 "\<lambda>_. 0" 4 "\<lambda>_. 0"] by (simp add: upt_rec)

end
