(* ===== verification/Thread_Main.thy ===== *)
theory Thread_Main
  imports Mutex_Counter Cond_Var2 Sem_Queue Rwlock_Tls
begin

text \<open>
  \<^verbatim>\<open>main\<close> of \<^verbatim>\<open>02_threads/thread_demo.c\<close>: the demos one after the other, each with the main thread that creates the
  threads, waits for them with \<^verbatim>\<open>pthread_join\<close> and leaves with \<^verbatim>\<open>exit(1)\<close> when one of these calls fails (the macro \<^verbatim>\<open>CHECK\<close>). A thread
  runs from its creation on, while the main thread creates the next ones.

  Shown: every run of the whole program is finite and ends, and what its main thread has printed then. The locale \<open>spawned\<close> has what
  a demo must provide; the locale \<open>seq_system\<close> puts the demos in sequence.
\<close>

section \<open>The main thread of a demo\<close>

datatype main_pc = M_create nat | M_join "nat list" | M_over | M_exit

record 's dst =
  d_pc :: main_pc
  d_out :: "string list"
  d_sh :: 's

text \<open>What the calls of \<^verbatim>\<open>pthread_create\<close> and \<^verbatim>\<open>pthread_join\<close> return for each thread.\<close>

record checks =
  ck_create :: "nat \<Rightarrow> int"
  ck_join :: "nat \<Rightarrow> int"

definition failure :: "(int \<Rightarrow> string) \<Rightarrow> string \<Rightarrow> int \<Rightarrow> string" where
  "failure strerror fn e = fn @ '' failed: '' @ strerror e"

definition CHECK :: "(int \<Rightarrow> string) \<Rightarrow> string \<Rightarrow> int \<Rightarrow> 's dst \<Rightarrow> 's dst \<Rightarrow> 's dst" where
  "CHECK strerror fn e ok d =
     (if e \<noteq> 0 then d\<lparr>d_pc := M_exit, d_out := d_out d @ [failure strerror fn e]\<rparr> else ok)"

text \<open>
  A step of the main thread of a demo with \<open>n\<close> threads that are joined in the order \<open>js\<close>. A join that succeeds waits until the
  thread has returned (\<open>ret\<close>).
\<close>

definition main_step :: "(int \<Rightarrow> string) \<Rightarrow> (nat \<Rightarrow> 's \<Rightarrow> bool) \<Rightarrow> nat \<Rightarrow> nat list \<Rightarrow> checks \<Rightarrow> 's dst \<Rightarrow> 's dst option" where
  "main_step strerror ret n js ck d =
     (case d_pc d of
        M_create c \<Rightarrow>
          if c < n then Some (CHECK strerror ''pthread_create'' (ck_create ck c) (d\<lparr>d_pc := M_create (c + 1)\<rparr>) d)
          else Some (d\<lparr>d_pc := M_join js\<rparr>)
      | M_join k \<Rightarrow>
          (case k of
             [] \<Rightarrow> Some (d\<lparr>d_pc := M_over\<rparr>)
           | j # k' \<Rightarrow>
               if ck_join ck j = 0 \<and> \<not> ret j (d_sh d) then None
               else Some (CHECK strerror ''pthread_join'' (ck_join ck j) (d\<lparr>d_pc := M_join k'\<rparr>) d))
      | M_over \<Rightarrow> None
      | M_exit \<Rightarrow> None)"

text \<open>How many threads have been created and not been ended by \<^verbatim>\<open>exit\<close>.\<close>

fun running :: "nat \<Rightarrow> main_pc \<Rightarrow> nat" where
  "running n (M_create c) = c" | "running n (M_join k) = n" | "running n M_over = n" | "running n M_exit = 0"

definition demo_step ::
    "(int \<Rightarrow> string) \<Rightarrow> (nat \<Rightarrow> 's \<Rightarrow> 's option) \<Rightarrow> (nat \<Rightarrow> 's \<Rightarrow> bool) \<Rightarrow> nat \<Rightarrow> nat list \<Rightarrow> checks \<Rightarrow> 's dst \<Rightarrow> 's dst \<Rightarrow> bool" where
  "demo_step strerror ts ret n js ck d d' \<longleftrightarrow>
     main_step strerror ret n js ck d = Some d'
     \<or> (\<exists>i < running n (d_pc d). \<exists>s. ts i (d_sh d) = Some s \<and> d' = d\<lparr>d_sh := s\<rparr>)"

definition demo_begin :: "string list \<Rightarrow> 's \<Rightarrow> 's dst" where
  "demo_begin out s = \<lparr>d_pc = M_create 0, d_out = out, d_sh = s\<rparr>"

section \<open>What a demo provides\<close>

locale spawned =
  fixes ts :: "nat \<Rightarrow> 's \<Rightarrow> 's option" and ret :: "nat \<Rightarrow> 's \<Rightarrow> bool" and n :: nat and js :: "nat list"
    and sinv :: "'s \<Rightarrow> bool" and work :: "'s \<Rightarrow> nat" and s0 :: 's
  assumes begin_inv: "sinv s0"
    and ts_inv: "sinv s \<Longrightarrow> i < n \<Longrightarrow> ts i s = Some t \<Longrightarrow> sinv t"
    and ts_work: "sinv s \<Longrightarrow> i < n \<Longrightarrow> ts i s = Some t \<Longrightarrow> work t < work s"
    and ts_ret: "sinv s \<Longrightarrow> i < n \<Longrightarrow> ts i s = Some t \<Longrightarrow> j < n \<Longrightarrow> ret j s \<Longrightarrow> ret j t"
    and ts_progress: "sinv s \<Longrightarrow> i < n \<Longrightarrow> \<not> ret i s \<Longrightarrow> \<exists>j < n. ts j s \<noteq> None"
    and joins: "set js = {..<n}"

text \<open>
  The message a demo ends with when one of its calls fails: that of the first \<^verbatim>\<open>pthread_create\<close> to fail, else of the first
  \<^verbatim>\<open>pthread_join\<close>.
\<close>

definition demo_fails :: "(int \<Rightarrow> string) \<Rightarrow> nat \<Rightarrow> nat list \<Rightarrow> checks \<Rightarrow> string option" where
  "demo_fails strerror n js ck =
     (case find (\<lambda>i. ck_create ck i \<noteq> 0) [0..<n] of
        Some i \<Rightarrow> Some (failure strerror ''pthread_create'' (ck_create ck i))
      | None \<Rightarrow> map_option (\<lambda>j. failure strerror ''pthread_join'' (ck_join ck j)) (find (\<lambda>j. ck_join ck j \<noteq> 0) js))"

lemma fails_create:
  "c < n \<Longrightarrow> \<forall>i < c. ck_create ck i = 0 \<Longrightarrow> ck_create ck c \<noteq> 0 \<Longrightarrow>
     demo_fails strerror n js ck = Some (failure strerror ''pthread_create'' (ck_create ck c))"
  using find_Some_iff [of "\<lambda>i. ck_create ck i \<noteq> 0" "[0..<n]" c] by (auto simp: demo_fails_def)

lemma fails_join:
  assumes "\<forall>i < n. ck_create ck i = 0" and "\<forall>i \<in> set before. ck_join ck i = 0" and "ck_join ck j \<noteq> 0"
  shows "demo_fails strerror n (before @ j # k) ck = Some (failure strerror ''pthread_join'' (ck_join ck j))"
proof -
  have "find (\<lambda>i. ck_create ck i \<noteq> 0) [0..<n] = None" using assms(1) by (simp add: find_None_iff)
  moreover have "find (\<lambda>j. ck_join ck j \<noteq> 0) (before @ j # k) = Some j"
    using assms(2,3) by (induction before) auto
  ultimately show ?thesis by (simp add: demo_fails_def)
qed

lemma fails_none: "\<forall>i < n. ck_create ck i = 0 \<Longrightarrow> \<forall>i \<in> set js. ck_join ck i = 0 \<Longrightarrow> demo_fails strerror n js ck = None"
  using find_None_iff [of "\<lambda>i. ck_create ck i \<noteq> 0" "[0..<n]"] find_None_iff [of "\<lambda>i. ck_join ck i \<noteq> 0" js] by (auto simp: demo_fails_def)

definition demo_ok ::
    "(int \<Rightarrow> string) \<Rightarrow> (nat \<Rightarrow> 's \<Rightarrow> bool) \<Rightarrow> nat \<Rightarrow> nat list \<Rightarrow> checks \<Rightarrow> ('s \<Rightarrow> bool) \<Rightarrow> string list \<Rightarrow> 's dst \<Rightarrow> bool" where
  "demo_ok strerror ret n js ck sinv out0 d \<longleftrightarrow> sinv (d_sh d)
     \<and> (case d_pc d of
          M_create c \<Rightarrow> c \<le> n \<and> (\<forall>i < c. ck_create ck i = 0) \<and> d_out d = out0
        | M_join k \<Rightarrow> (\<forall>i < n. ck_create ck i = 0 \<and> (i \<notin> set k \<longrightarrow> ret i (d_sh d)))
                       \<and> (\<exists>before. js = before @ k \<and> (\<forall>i \<in> set before. ck_join ck i = 0)) \<and> d_out d = out0
        | M_over \<Rightarrow> demo_fails strerror n js ck = None \<and> (\<forall>i < n. ret i (d_sh d)) \<and> d_out d = out0
        | M_exit \<Rightarrow> \<exists>l. demo_fails strerror n js ck = Some l \<and> d_out d = out0 @ [l])"

fun main_rank :: "nat \<Rightarrow> nat list \<Rightarrow> main_pc \<Rightarrow> nat" where
  "main_rank n js (M_create c) = (n - c) + length js + 3"
| "main_rank n js (M_join k) = length k + 1"
| "main_rank n js M_over = 0"
| "main_rank n js M_exit = 0"

definition demo_work :: "nat \<Rightarrow> nat list \<Rightarrow> ('s \<Rightarrow> nat) \<Rightarrow> 's dst \<Rightarrow> nat" where
  "demo_work n js work d = work (d_sh d) + main_rank n js (d_pc d)"

definition demo_ended :: "'s dst \<Rightarrow> bool" where
  "demo_ended d \<longleftrightarrow> d_pc d = M_over \<or> d_pc d = M_exit"

context spawned
begin

lemma CHECK_ok:
  assumes "sinv (d_sh d)" and "d_out d = out0" and "e = 0 \<Longrightarrow> demo_ok strerror ret n js ck sinv out0 ok"
    and "e \<noteq> 0 \<Longrightarrow> demo_fails strerror n js ck = Some (failure strerror fn e)"
  shows "demo_ok strerror ret n js ck sinv out0 (CHECK strerror fn e ok d)"
  using assms by (auto simp: demo_ok_def CHECK_def)

lemma CHECK_work:
  "demo_work n js work ok < demo_work n js work d \<Longrightarrow> 0 < main_rank n js (d_pc d) \<Longrightarrow>
     demo_work n js work (CHECK strerror fn e ok d) < demo_work n js work d"
  by (simp add: CHECK_def demo_work_def)

lemma main_step_ok:
  assumes step: "main_step strerror ret n js ck d = Some d'" and ok: "demo_ok strerror ret n js ck sinv out0 d"
  shows "demo_ok strerror ret n js ck sinv out0 d' \<and> demo_work n js work d' < demo_work n js work d"
proof (cases "d_pc d")
  case (M_create c)
  show ?thesis
  proof (cases "c < n")
    case True
    have d': "d' = CHECK strerror ''pthread_create'' (ck_create ck c) (d\<lparr>d_pc := M_create (c + 1)\<rparr>) d"
      using step True by (simp add: main_step_def M_create)
    have o: "sinv (d_sh d)" "d_out d = out0" "\<forall>i < c. ck_create ck i = 0" using ok by (simp_all add: demo_ok_def M_create)
    have "demo_ok strerror ret n js ck sinv out0 d'"
      unfolding d' using o True fails_create [OF True o(3)] by (intro CHECK_ok) (auto simp: demo_ok_def less_Suc_eq)
    moreover have "demo_work n js work d' < demo_work n js work d"
      unfolding d' using True by (intro CHECK_work) (simp_all add: demo_work_def M_create)
    ultimately show ?thesis ..
  next
    case False
    then have "d' = d\<lparr>d_pc := M_join js\<rparr>" using step by (simp add: main_step_def M_create)
    moreover have "c = n" using False ok by (simp add: demo_ok_def M_create)
    ultimately show ?thesis using ok by (simp add: demo_ok_def demo_work_def M_create joins)
  qed
next
  case (M_join k)
  show ?thesis
  proof (cases k)
    case Nil
    then show ?thesis using step ok by (auto simp: main_step_def M_join demo_ok_def demo_work_def intro!: fails_none)
  next
    case (Cons j k')
    have d': "d' = CHECK strerror ''pthread_join'' (ck_join ck j) (d\<lparr>d_pc := M_join k'\<rparr>) d" and r: "ck_join ck j = 0 \<Longrightarrow> ret j (d_sh d)"
      using step by (auto simp: main_step_def M_join Cons split: if_splits)
    obtain before where o: "sinv (d_sh d)" "d_out d = out0" "\<forall>i < n. ck_create ck i = 0" "js = before @ j # k'" "\<forall>i \<in> set before. ck_join ck i = 0"
      using ok by (auto simp: demo_ok_def M_join Cons)
    have "demo_ok strerror ret n js ck sinv out0 (d\<lparr>d_pc := M_join k'\<rparr>)" if "ck_join ck j = 0"
      using ok r [OF that] o that by (auto simp: demo_ok_def M_join Cons intro!: exI [of _ "before @ [j]"])
    then have "demo_ok strerror ret n js ck sinv out0 d'"
      unfolding d' using o(1,2) fails_join [OF o(3,5), of j strerror k'] o(4) by (intro CHECK_ok) auto
    moreover have "demo_work n js work d' < demo_work n js work d"
      unfolding d' by (rule CHECK_work) (simp_all add: demo_work_def M_join Cons)
    ultimately show ?thesis ..
  qed
qed (use step in \<open>simp_all add: main_step_def\<close>)

lemma running_le: "demo_ok strerror ret n js ck sinv out0 d \<Longrightarrow> running n (d_pc d) \<le> n"
  by (cases "d_pc d") (auto simp: demo_ok_def)

lemma thread_step_ok:
  assumes "demo_ok strerror ret n js ck sinv out0 d" and "i < running n (d_pc d)" and "ts i (d_sh d) = Some s"
  shows "demo_ok strerror ret n js ck sinv out0 (d\<lparr>d_sh := s\<rparr>) \<and> demo_work n js work (d\<lparr>d_sh := s\<rparr>) < demo_work n js work d"
proof -
  have i: "sinv (d_sh d)" "i < n" using assms(1,2) running_le [OF assms(1)] by (auto simp: demo_ok_def)
  note new = ts_inv [OF i assms(3)] ts_work [OF i assms(3)] ts_ret [OF i assms(3)]
  show ?thesis using assms(1) new by (cases "d_pc d") (auto simp: demo_ok_def demo_work_def)
qed

lemma demo_goes_on:
  assumes ok: "demo_ok strerror ret n js ck sinv out0 d" and "\<not> demo_ended d"
  shows "\<exists>d'. demo_step strerror ts ret n js ck d d'"
proof (cases "main_step strerror ret n js ck d")
  case None
  with assms(2) obtain j k where "d_pc d = M_join (j # k)" "\<not> ret j (d_sh d)"
    by (auto simp: main_step_def demo_ended_def split: main_pc.splits list.splits if_splits)
  moreover have "j < n" using ok joins calculation(1) by (auto simp: demo_ok_def)
  ultimately obtain i s where "i < n" "ts i (d_sh d) = Some s" "running n (d_pc d) = n"
    using ok ts_progress [of "d_sh d" j] by (auto simp: demo_ok_def)
  then show ?thesis unfolding demo_step_def by auto
qed (auto simp: demo_step_def)

end

sublocale spawned \<subseteq> whole: bounded_system "\<lambda>d. d = demo_begin out0 s0" "demo_step strerror ts ret n js ck"
  "demo_ok strerror ret n js ck sinv out0" "demo_work n js work" demo_ended for strerror ck out0
proof (unfold_locales, goal_cases)
  case (1 d)
  then show ?case using begin_inv by (simp add: demo_ok_def demo_begin_def)
next
  case (2 d d')
  then show ?case unfolding demo_step_def using main_step_ok thread_step_ok by blast
next
  case (3 d d')
  then show ?case unfolding demo_step_def using main_step_ok thread_step_ok by blast
next
  case (4 d)
  then show ?case by (rule demo_goes_on)
qed

text \<open>A pool of threads in which a thread that has returned does nothing more provides it.\<close>

locale returning_pool = thread_pool start tstep pinv rank returned
  for start and tstep :: "nat \<Rightarrow> 'g \<Rightarrow> 'l \<Rightarrow> ('g \<times> 'l) option" and pinv rank returned +
  fixes p0 :: "'g \<times> 'l list" and order :: "nat list"
  assumes p0: "start p0" and order: "set order = {..<length (snd p0)}"
    and returned_stays: "returned l \<Longrightarrow> tstep i g l = None"

sublocale returning_pool \<subseteq> spawned "pool_thread tstep" "\<lambda>i s. returned (snd s ! i)" "length (snd p0)" order
  "\<lambda>s. pinv (fst s) (snd s) \<and> length (snd s) = length (snd p0)" "\<lambda>s. sum_list (map rank (snd s))" p0
proof (unfold_locales, goal_cases)
  case 1
  then show ?case using p0 start_inv [of "fst p0" "snd p0"] by simp
next
  case (2 s i t)
  then show ?case using tstep_inv by (fastforce simp: pool_thread_def)
next
  case (3 s i t)
  then have "pool_step tstep s t" unfolding pool_thread_def pool_step_def by fastforce
  then show ?case using 3(1) by (intro step_less) auto
next
  case (4 s i t j)
  then show ?case using returned_stays by (cases "i = j") (auto simp: pool_thread_def)
next
  case (5 s i)
  then obtain j where "j < length (snd s)" "tstep j (fst s) (snd s ! j) \<noteq> None"
    using tprogress [of "fst s" "snd s"] by (auto simp: list_all_length)
  with 5(1) show ?case by (intro exI [of _ j]) (auto simp: pool_thread_def)
next
  case 6
  then show ?case by (rule order)
qed

section \<open>The demos\<close>

text \<open>The threads of each demo as \<^verbatim>\<open>main\<close> starts them: the numbers of threads and of rounds, and the order of the joins.\<close>

definition mutex_run :: "(int \<Rightarrow> string) \<Rightarrow> checks \<Rightarrow> (ci_shared \<times> ci list) dst \<Rightarrow> (ci_shared \<times> ci list) dst \<Rightarrow> bool" where
  "mutex_run strerror =
     demo_step strerror (pool_thread (counter_increment_step 100000)) (\<lambda>i s. ci_pc (snd s ! i) = I_done) 4 [0, 1, 2, 3]"

definition cv2_thread :: "nat \<Rightarrow> mh \<Rightarrow> mh option" where
  "cv2_thread i s = (if i = 0 then producer2_step 100 s else consumer2_step 100 s)"

definition cv2_ret :: "nat \<Rightarrow> mh \<Rightarrow> bool" where
  "cv2_ret i s = ((if i = 0 then p2_pc s else c2_pc s) = V_done)"

definition cv2_run :: "(int \<Rightarrow> string) \<Rightarrow> checks \<Rightarrow> mh dst \<Rightarrow> mh dst \<Rightarrow> bool" where
  "cv2_run strerror = demo_step strerror cv2_thread cv2_ret 2 [0, 1]"

definition sem_thread :: "nat \<Rightarrow> sq \<Rightarrow> sq option" where
  "sem_thread i s = (if i = 0 then producer_sem_step (producer_list 10) s else consumer_sem_step s)"

definition sem_ret :: "nat \<Rightarrow> sq \<Rightarrow> bool" where
  "sem_ret i s = (if i = 0 then sp_pc s = S_done else sc_pc s = R_done)"

definition sem_run :: "(int \<Rightarrow> string) \<Rightarrow> checks \<Rightarrow> sq dst \<Rightarrow> sq dst \<Rightarrow> bool" where
  "sem_run strerror = demo_step strerror sem_thread sem_ret 2 [0, 1]"

definition rwlock_run :: "(int \<Rightarrow> string) \<Rightarrow> checks \<Rightarrow> (rw_shared \<times> rwt list) dst \<Rightarrow> (rw_shared \<times> rwt list) dst \<Rightarrow> bool" where
  "rwlock_run strerror = demo_step strerror (pool_thread rw_step) (\<lambda>i s. rw_pc (snd s ! i) = RW_done) 5 [2, 3, 4, 0, 1]"

definition tls_run :: "(int \<Rightarrow> string) \<Rightarrow> checks \<Rightarrow> (int list \<times> tlst list) dst \<Rightarrow> (int list \<times> tlst list) dst \<Rightarrow> bool" where
  "tls_run strerror = demo_step strerror (pool_thread tls_worker_step) (\<lambda>i s. tls_pc (snd s ! i) = L_done) 3 [0, 1, 2]"

lemma atMost_lists: "set [0, 1, 2, 3] = {..<4 :: nat}" "set [0, 1] = {..<2 :: nat}" "set [2, 3, 4, 0, 1] = {..<5 :: nat}" "set [0, 1, 2] = {..<3 :: nat}"
  by (auto simp: lessThan_nat_numeral lessThan_Suc)

lemma one_of_two: "P 0 \<or> P 1 \<Longrightarrow> \<exists>j < 2 :: nat. P j"
  by (auto intro: exI [of _ 0] exI [of _ 1])

lemma demo_lengths [simp]:
  "length (snd (demo_mutex 4)) = 4" "length (snd (demo_rwlock [98, 99] [1, 2, 3])) = 5" "length (snd (demo_tls 3)) = 3"
  by (simp_all add: demo_mutex_def demo_rwlock_def demo_tls_def)

interpretation mutex_demo: returning_pool "\<lambda>s. s = demo_mutex 4" "counter_increment_step 100000" "ci_inv 100000"
  "\<lambda>l. 4 * (100000 - ci_i l) + ci_rank (ci_pc l)" "\<lambda>l. ci_pc l = I_done" "demo_mutex 4" "[0, 1, 2, 3]"
  by (rule returning_pool.intro [OF mc.thread_pool_axioms]) (unfold_locales, simp_all only: demo_lengths atMost_lists, simp_all add: counter_increment_step_def)

interpretation rwlock_demo: returning_pool "\<lambda>s. s = demo_rwlock [98, 99] [1, 2, 3]" rw_step "rw_inv (rw_values [98, 99])"
  "\<lambda>l. rw_rank (rw_pc l)" "\<lambda>l. rw_pc l = RW_done" "demo_rwlock [98, 99] [1, 2, 3]" "[2, 3, 4, 0, 1]"
  by (rule returning_pool.intro [OF rwp.thread_pool_axioms])
    (unfold_locales, simp_all only: demo_lengths atMost_lists, simp_all add: rw_step_def reader_step_def writer_step_def split: rw_role.splits)

interpretation tls_demo: returning_pool "\<lambda>s. s = demo_tls 3" tls_worker_step tls_inv
  "\<lambda>l. 2 * (5 - tls_i l) + tls_rank (tls_pc l)" "\<lambda>l. tls_pc l = L_done" "demo_tls 3" "[0, 1, 2]"
  by (rule returning_pool.intro [OF tlsp.thread_pool_axioms])
    (unfold_locales, simp_all only: demo_lengths atMost_lists, simp_all add: tls_worker_step_def)

interpretation cv2_demo: spawned cv2_thread cv2_ret 2 "[0, 1]" "mh_inv 100" "cv2_measure 100" "demo_cond_var2 k" for k
proof (unfold_locales, goal_cases)
  case 1
  then show ?case by (rule cv2_start)
next
  case (2 s i t)
  then show ?case using cv2.step_inv [of 100 s t] by (auto simp: cv2_thread_def cv2_step_def split: if_splits)
next
  case (3 s i t)
  then show ?case using cv2.step_less [of 100 s t] by (auto simp: cv2_thread_def cv2_step_def split: if_splits)
next
  case (4 s i t j)
  then show ?case by (auto simp: cv2_thread_def cv2_ret_def producer2_step_def consumer2_step_def split: if_splits v_pc.splits)
next
  case (5 s i)
  then have "\<not> cv2_final s" by (auto simp: cv2_ret_def cv2_final_def split: if_splits)
  then obtain t where "cv2_step 100 s t" using cv2.progress 5(1) by blast
  then have "cv2_thread 0 s \<noteq> None \<or> cv2_thread 1 s \<noteq> None" by (auto simp: cv2_step_def cv2_thread_def)
  then show ?case by (rule one_of_two)
next
  case 6
  then show ?case by (rule atMost_lists)
qed

interpretation sem_demo: spawned sem_thread sem_ret 2 "[0, 1]" "sq_inv (producer_list 10)" "sq_measure (producer_list 10)" demo_sem_prod_consumer
proof (unfold_locales, goal_cases)
  case 1
  then show ?case by (rule demo31.init_inv) simp
next
  case (2 s i t)
  then show ?case using demo31.step_inv [of 10 s t] by (auto simp: sem_thread_def sq_step_def split: if_splits)
next
  case (3 s i t)
  then show ?case using demo31.step_less [of 10 s t] by (auto simp: sem_thread_def sq_step_def split: if_splits)
next
  case (4 s i t j)
  then show ?case by (auto simp: sem_thread_def sem_ret_def producer_sem_step_def consumer_sem_step_def split: if_splits sp_pc.splits sc_pc.splits)
next
  case (5 s i)
  then have "\<not> sq_final s" by (auto simp: sem_ret_def sq_final_def split: if_splits)
  then obtain t where "sq_step (producer_list 10) s t" using demo31.progress 5(1) by blast
  then have "sem_thread 0 s \<noteq> None \<or> sem_thread 1 s \<noteq> None" by (auto simp: sq_step_def sem_thread_def)
  then show ?case by (rule one_of_two)
next
  case 6
  then show ?case by (rule atMost_lists)
qed

section \<open>The program\<close>

record thread_env =
  e_basic :: checks
  e_mutex :: checks
  e_cv2 :: checks
  e_sem :: checks
  e_rwlock :: checks
  e_tls :: checks
  e_tid :: "nat \<Rightarrow> nat"
  e_spurious :: nat
  e_strerror :: "int \<Rightarrow> string"

text \<open>
  What the calls of each demo return, the thread ids of demo 1, how many spurious wake-ups happen, and the texts of
  \<^verbatim>\<open>strerror\<close>.
\<close>

fun basic_text :: "thread_env \<Rightarrow> basic_line \<Rightarrow> string" where
  "basic_text e (Error_Creating i err) = ''Error creating thread '' @ dec_nat i @ '': '' @ e_strerror e err"
| "basic_text e (Returned i v) =
     ''[MAIN ] thread '' @ dec_nat i @ '', tids '' @ dec_nat (e_tid e i) @ '', returned '' @ dec_int v"

definition cross_mark :: string where
  "cross_mark = [CHR 0xE2, CHR 0x9C, CHR 0x97]"

definition mutex_line :: "ci_shared \<Rightarrow> string" where
  "mutex_line g =
     (case demo_mutex_report 4 100000 g of
        (expected, got, verdict) \<Rightarrow>
          ''Expected: '' @ dec_int expected @ ''  Got: '' @ dec_int got @ ''  ''
            @ (if got = expected then check_mark else cross_mark) @ '' '' @ verdict)"

text \<open>The next demo begins when the last thread of the one before has been joined; \<open>lines\<close> is what is printed in between.\<close>

definition then_demo :: "('s \<Rightarrow> string list) \<Rightarrow> 't \<Rightarrow> 's dst \<Rightarrow> 't dst option" where
  "then_demo lines t0 d = (if d_pc d = M_over then Some (demo_begin (d_out d @ lines (d_sh d)) t0) else None)"

type_synonym tmain = "(ci_shared \<times> ci list) dst + mh dst + sq dst + (rw_shared \<times> rwt list) dst + (int list \<times> tlst list) dst"

definition cv2_title :: string where "cv2_title = ''Demo 3: Condition Variable '' @ em_dash @ '' Producer/Consumer''"

definition tls_title :: string where "tls_title = ''Demo 5: Thread-Local Storage (__thread)''"

definition sem_title :: string where "sem_title = ''Demo 3.1: semaphor '' @ em_dash @ '' Producer/Consumer''"

definition from_rwlock :: "thread_env \<Rightarrow> _" where
  "from_rwlock e =
     seq_step (rwlock_run (e_strerror e) (e_rwlock e))
       (then_demo (\<lambda>_. banner_lines tls_title) (demo_tls 3))
       (tls_run (e_strerror e) (e_tls e))"

definition from_sem :: "thread_env \<Rightarrow> _" where
  "from_sem e =
     seq_step (sem_run (e_strerror e) (e_sem e))
       (\<lambda>d. map_option Inl (then_demo (\<lambda>_. banner_lines ''Demo 4: Read-Write Lock'') (demo_rwlock [98, 99] [1, 2, 3]) d))
       (from_rwlock e)"

definition from_cv2 :: "thread_env \<Rightarrow> _" where
  "from_cv2 e =
     seq_step (cv2_run (e_strerror e) (e_cv2 e))
       (\<lambda>d. map_option Inl (then_demo (\<lambda>_. banner_lines sem_title) demo_sem_prod_consumer d))
       (from_sem e)"

definition thread_step :: "thread_env \<Rightarrow> tmain \<Rightarrow> tmain \<Rightarrow> bool" where
  "thread_step e =
     seq_step (mutex_run (e_strerror e) (e_mutex e))
       (\<lambda>d. map_option Inl (then_demo (\<lambda>s. mutex_line (fst s) # banner_lines cv2_title) (demo_cond_var2 (e_spurious e)) d))
       (from_cv2 e)"

definition basic_out :: "thread_env \<Rightarrow> string list" where
  "basic_out e = ''=== Embedded Linux Demo: Threads (pthreads) ==='' # banner_lines ''Demo 1: Thread Create & Join''
     @ map (basic_text e) (fst (demo_basic_threads (ck_create (e_basic e)) (ck_join (e_basic e)) 4))"

definition mutex_title :: string where "mutex_title = ''Demo 2: Mutex '' @ em_dash @ '' Shared Counter''"

text \<open>\<^verbatim>\<open>main\<close> up to the first thread of demo 2, or up to the \<^verbatim>\<open>exit\<close> in demo 1.\<close>

definition thread_main :: "thread_env \<Rightarrow> tmain" where
  "thread_main e =
     Inl (if snd (demo_basic_threads (ck_create (e_basic e)) (ck_join (e_basic e)) 4)
          then demo_begin (basic_out e @ banner_lines mutex_title) (demo_mutex 4)
          else \<lparr>d_pc = M_exit, d_out = basic_out e, d_sh = demo_mutex 4\<rparr>)"

text \<open>The exit status and the lines of the main thread, once the program has ended.\<close>

definition exit_of :: "'s dst \<Rightarrow> (int \<times> string list) option" where
  "exit_of d = (if d_pc d = M_exit then Some (1, d_out d) else None)"

definition thread_result :: "tmain \<Rightarrow> (int \<times> string list) option" where
  "thread_result = case_sum exit_of (case_sum exit_of (case_sum exit_of (case_sum exit_of
     (\<lambda>d. if d_pc d = M_over then Some (0, d_out d @ [''[DONE] Thread demo complete.'']) else exit_of d))))"

section \<open>Demos in sequence\<close>

lemma demo_then:
  assumes a: "bounded_system (\<lambda>d. d = demo_begin out s0) stepa (demo_ok strerror ret n js ck sinv out) ma demo_ended"
    and b: "bounded_system initb stepb invb mb finb"
    and lines: "\<And>s. sinv s \<Longrightarrow> \<forall>i < n. ret i s \<Longrightarrow> lines s = ls"
    and h: "demo_fails strerror n js ck = None \<Longrightarrow> initb (h (demo_begin (out @ ls) t0))"
  shows "seq_system (\<lambda>d. d = demo_begin out s0) stepa (demo_ok strerror ret n js ck sinv out) ma demo_ended initb stepb invb mb finb
     (\<lambda>d. map_option h (then_demo lines t0 d)) (mb (h (demo_begin (out @ ls) t0)))"
proof (rule seq_system.intro [OF a b], unfold_locales)
  fix d b
  assume "demo_ok strerror ret n js ck sinv out d" and "map_option h (then_demo lines t0 d) = Some b"
  then show "initb b \<and> mb b \<le> mb (h (demo_begin (out @ ls) t0))"
    using lines [of "d_sh d"] h by (auto simp: then_demo_def demo_ok_def split: if_splits)
qed

lemmas demo_bounded = mutex_demo.whole.bounded_system_axioms [unfolded demo_lengths, folded mutex_run_def]
  cv2_demo.whole.bounded_system_axioms [folded cv2_run_def] sem_demo.whole.bounded_system_axioms [folded sem_run_def]
  rwlock_demo.whole.bounded_system_axioms [unfolded demo_lengths, folded rwlock_run_def]
  tls_demo.whole.bounded_system_axioms [unfolded demo_lengths, folded tls_run_def]

text \<open>A system that is started only under a condition.\<close>

lemma bounded_when:
  assumes "bounded_system (\<lambda>x. x = x0) step I m fin"
  shows "bounded_system (\<lambda>x. P \<and> x = x0) step (\<lambda>x. P \<and> I x) m fin"
proof -
  note sys = bounded_system.axioms(1) [OF assms]
  show ?thesis
    using inv_system.init_inv [OF sys] inv_system.step_inv [OF sys] bounded_system.step_less [OF assms] bounded_system.progress [OF assms]
    by unfold_locales blast+
qed

interpretation rwlock_tls: seq_system
  "\<lambda>d. d = demo_begin out (demo_rwlock [98, 99] [1, 2, 3])" "rwlock_run (e_strerror e) (e_rwlock e)"
  "demo_ok (e_strerror e) (\<lambda>i s. rw_pc (snd s ! i) = RW_done) 5 [2, 3, 4, 0, 1] (e_rwlock e)
     (\<lambda>s. rw_inv (rw_values [98, 99]) (fst s) (snd s) \<and> length (snd s) = 5) out"
  "demo_work 5 [2, 3, 4, 0, 1] (\<lambda>s. sum_list (map (\<lambda>l. rw_rank (rw_pc l)) (snd s)))" demo_ended
  "\<lambda>d. demo_fails (e_strerror e) 5 [2, 3, 4, 0, 1] (e_rwlock e) = None \<and> d = demo_begin (out @ banner_lines tls_title) (demo_tls 3)"
  "tls_run (e_strerror e) (e_tls e)"
  "\<lambda>d. demo_fails (e_strerror e) 5 [2, 3, 4, 0, 1] (e_rwlock e) = None \<and>
     demo_ok (e_strerror e) (\<lambda>i s. tls_pc (snd s ! i) = L_done) 3 [0, 1, 2] (e_tls e) (\<lambda>s. tls_inv (fst s) (snd s) \<and> length (snd s) = 3)
       (out @ banner_lines tls_title) d"
  "demo_work 3 [0, 1, 2] (\<lambda>s. sum_list (map (\<lambda>l. 2 * (5 - tls_i l) + tls_rank (tls_pc l)) (snd s)))" demo_ended
  "then_demo (\<lambda>_. banner_lines tls_title) (demo_tls 3)"
  "demo_work 3 [0, 1, 2] (\<lambda>s. sum_list (map (\<lambda>l. 2 * (5 - tls_i l) + tls_rank (tls_pc l)) (snd s)))
     (demo_begin (out @ banner_lines tls_title) (demo_tls 3))" for e out
  using demo_then [OF demo_bounded(4) bounded_when [OF demo_bounded(5)], where h = id and lines = "\<lambda>_. banner_lines tls_title"
    and ls = "banner_lines tls_title" and ?t0.0 = "demo_tls 3"] by (simp add: option.map_id)

text \<open>A system that ends, from the given state, only in states that are as they should be.\<close>

definition ends_in :: "'x \<Rightarrow> ('x \<Rightarrow> 'x \<Rightarrow> bool) \<Rightarrow> ('x \<Rightarrow> bool) \<Rightarrow> bool" where
  "ends_in x0 step good \<longleftrightarrow> (\<exists>inv m fin. bounded_system (\<lambda>x. x = x0) step inv m fin \<and> (\<forall>x. inv x \<longrightarrow> fin x \<longrightarrow> good x))"

lemma sum_init: "case_sum (\<lambda>a. a = s) (\<lambda>_. False) = (\<lambda>x. x = Inl s)"
  by (auto simp: fun_eq_iff split: sum.splits)

lemma then_none: "map_option h (then_demo lines t0 d) = None \<longleftrightarrow> d_pc d \<noteq> M_over"
  by (simp add: then_demo_def)

lemma ends_then:
  assumes a: "bounded_system (\<lambda>d. d = demo_begin out s0) stepa (demo_ok strerror ret n js ck sinv out) ma demo_ended"
    and b: "ends_in (h (demo_begin (out @ ls) t0)) stepb good"
    and lines: "\<And>s. sinv s \<Longrightarrow> \<forall>i < n. ret i s \<Longrightarrow> lines s = ls"
    and exit: "\<And>d l. demo_fails strerror n js ck = Some l \<Longrightarrow> d_out d = out @ [l] \<Longrightarrow> d_pc d = M_exit \<Longrightarrow> good' (Inl d)"
    and go: "\<And>x. demo_fails strerror n js ck = None \<Longrightarrow> good x \<Longrightarrow> good' (Inr x)"
  shows "ends_in (Inl (demo_begin out s0)) (seq_step stepa (\<lambda>d. map_option h (then_demo lines t0 d)) stepb) good'"
proof -
  let ?P = "demo_fails strerror n js ck = None" and ?b = "h (demo_begin (out @ ls) t0)"
  obtain inv m fin where b': "bounded_system (\<lambda>x. x = ?b) stepb inv m fin" "\<And>x. inv x \<Longrightarrow> fin x \<Longrightarrow> good x"
    using b unfolding ends_in_def by blast
  have "seq_system (\<lambda>d. d = demo_begin out s0) stepa (demo_ok strerror ret n js ck sinv out) ma demo_ended
      (\<lambda>x. ?P \<and> x = ?b) stepb (\<lambda>x. ?P \<and> inv x) m fin (\<lambda>d. map_option h (then_demo lines t0 d)) (m ?b)"
    by (rule demo_then [OF a bounded_when [OF b'(1)] lines]) simp_all
  note whole = seq_system.in_sequence [OF this, unfolded sum_init then_none]
  have "good' x" if "case_sum (demo_ok strerror ret n js ck sinv out) (\<lambda>x. ?P \<and> inv x) x"
      and "case_sum (\<lambda>d. demo_ended d \<and> d_pc d \<noteq> M_over) fin x" for x
    using that by (cases x) (auto simp: demo_ok_def demo_ended_def intro: exit go b'(2))
  with whole show ?thesis unfolding ends_in_def by blast
qed

section \<open>The property\<close>

text \<open>
  What the main thread prints and how the program ends, as a function of what the calls return: the demos in order, up to the
  first call that fails. A stage is the number of threads, the order of the joins, what the calls return, and what is printed before.
\<close>

type_synonym stage = "nat \<times> nat list \<times> checks \<times> string list"

fun stages_end :: "(int \<Rightarrow> string) \<Rightarrow> string list \<Rightarrow> stage list \<Rightarrow> int \<times> string list" where
  "stages_end strerror out [] = (0, out @ [''[DONE] Thread demo complete.''])"
| "stages_end strerror out ((n, js, ck, ls) # st) =
     (case demo_fails strerror n js ck of
        Some l \<Rightarrow> (1, out @ ls @ [l])
      | None \<Rightarrow> stages_end strerror (out @ ls) st)"

definition mutex_good :: string where
  "mutex_good = ''Expected: '' @ dec_int 400000 @ ''  Got: '' @ dec_int 400000 @ ''  '' @ check_mark @ '' CORRECT''"

definition tls_stages :: "thread_env \<Rightarrow> stage list" where
  "tls_stages e = [(3, [0, 1, 2], e_tls e, banner_lines tls_title)]"

definition rwlock_stages :: "thread_env \<Rightarrow> stage list" where
  "rwlock_stages e = (5, [2, 3, 4, 0, 1], e_rwlock e, banner_lines ''Demo 4: Read-Write Lock'') # tls_stages e"

definition sem_stages :: "thread_env \<Rightarrow> stage list" where
  "sem_stages e = (2, [0, 1], e_sem e, banner_lines sem_title) # rwlock_stages e"

definition cv2_stages :: "thread_env \<Rightarrow> stage list" where
  "cv2_stages e = (2, [0, 1], e_cv2 e, mutex_good # banner_lines cv2_title) # sem_stages e"

definition thread_outcome :: "thread_env \<Rightarrow> int \<times> string list" where
  "thread_outcome e =
     (if snd (demo_basic_threads (ck_create (e_basic e)) (ck_join (e_basic e)) 4)
      then stages_end (e_strerror e) (basic_out e) ((4, [0, 1, 2, 3], e_mutex e, banner_lines mutex_title) # cv2_stages e)
      else (1, basic_out e))"

lemma result_exit:
  "thread_result (Inl d1) = exit_of d1" "thread_result (Inr (Inl d2)) = exit_of d2" "thread_result (Inr (Inr (Inl d3))) = exit_of d3"
  "thread_result (Inr (Inr (Inr (Inl d4)))) = exit_of d4" "d_pc d5 = M_exit \<Longrightarrow> thread_result (Inr (Inr (Inr (Inr d5)))) = exit_of d5"
  "d_pc d5 = M_over \<Longrightarrow> thread_result (Inr (Inr (Inr (Inr d5)))) = Some (0, d_out d5 @ [''[DONE] Thread demo complete.''])"
  by (simp_all add: thread_result_def)

lemma from_rwlock_ends:
  "ends_in (Inl (demo_begin (out @ banner_lines ''Demo 4: Read-Write Lock'') (demo_rwlock [98, 99] [1, 2, 3]))) (from_rwlock e)
     (\<lambda>x. thread_result (Inr (Inr (Inr x))) = Some (stages_end (e_strerror e) out (rwlock_stages e)))"
proof -
  note whole = rwlock_tls.in_sequence [of "out @ banner_lines ''Demo 4: Read-Write Lock''" e, folded from_rwlock_def, unfolded sum_init]
  show ?thesis unfolding ends_in_def
    by (intro exI conjI allI impI, rule whole)
      (auto simp: demo_ended_def then_demo_def demo_ok_def result_exit exit_of_def rwlock_stages_def tls_stages_def split: sum.split_asm if_splits)
qed

lemma from_sem_ends:
  "ends_in (Inl (demo_begin (out @ banner_lines sem_title) demo_sem_prod_consumer)) (from_sem e)
     (\<lambda>x. thread_result (Inr (Inr x)) = Some (stages_end (e_strerror e) out (sem_stages e)))"
  unfolding from_sem_def
  by (rule ends_then [OF demo_bounded(3)], rule from_rwlock_ends) (auto simp: result_exit exit_of_def sem_stages_def)

lemma from_cv2_ends:
  "ends_in (Inl (demo_begin (out @ mutex_good # banner_lines cv2_title) (demo_cond_var2 (e_spurious e)))) (from_cv2 e)
     (\<lambda>x. thread_result (Inr x) = Some (stages_end (e_strerror e) out (cv2_stages e)))"
  unfolding from_cv2_def
  by (rule ends_then [OF demo_bounded(2)], rule from_sem_ends) (auto simp: result_exit exit_of_def cv2_stages_def)

lemma mutex_lines:
  assumes "ci_inv 100000 (fst s) (snd s) \<and> length (snd s) = 4" and "\<forall>i < 4. ci_pc (snd s ! i) = I_done"
  shows "mutex_line (fst s) # banner_lines cv2_title = mutex_good # banner_lines cv2_title"
proof -
  have "g_counter (fst s) = 400000" using ci_all_done [of 100000 "fst s" "snd s"] assms by (simp add: list_all_length)
  then show ?thesis by (simp add: mutex_line_def mutex_good_def demo_mutex_report_def)
qed

lemma thread_step_ends:
  "ends_in (Inl (demo_begin (out @ banner_lines mutex_title) (demo_mutex 4))) (thread_step e)
     (\<lambda>x. thread_result x = Some (stages_end (e_strerror e) out ((4, [0, 1, 2, 3], e_mutex e, banner_lines mutex_title) # cv2_stages e)))"
  unfolding thread_step_def
  by (rule ends_then [OF demo_bounded(1)], rule from_cv2_ends, rule mutex_lines) (auto simp: result_exit exit_of_def)

lemma exit_stuck: "d_pc d = M_exit \<Longrightarrow> \<not> thread_step e (Inl d) t"
  by (simp add: thread_step_def seq_step_def mutex_run_def demo_step_def main_step_def then_demo_def)

lemma exit_ends: "d_pc d = M_exit \<Longrightarrow> good (Inl d) \<Longrightarrow> ends_in (Inl d) (thread_step e) good"
  unfolding ends_in_def
  by (intro exI [of _ "\<lambda>x. x = Inl d"] exI [of _ "\<lambda>_. 0"] conjI) (unfold_locales, auto simp: exit_stuck)

lemma thread_main_ends: "ends_in (thread_main e) (thread_step e) (\<lambda>x. thread_result x = Some (thread_outcome e))"
proof (cases "snd (demo_basic_threads (ck_create (e_basic e)) (ck_join (e_basic e)) 4)")
  case True
  then show ?thesis using thread_step_ends [of "basic_out e" e] by (simp add: thread_main_def thread_outcome_def)
next
  case False
  then show ?thesis by (simp add: thread_main_def thread_outcome_def result_exit exit_of_def exit_ends)
qed

lemma bounded_run_ends:
  assumes "\<forall>k t. (step ^^ k) s t \<longrightarrow> k \<le> b"
  shows "\<exists>t. step\<^sup>*\<^sup>* s t \<and> (\<forall>u. \<not> step t u)"
proof -
  have "\<forall>x. (step ^^ fst x) s (snd x) \<longrightarrow> fst x < Suc b" using assms by (simp add: less_Suc_eq_le)
  then obtain x where x: "(step ^^ fst x) s (snd x)" and max: "\<forall>y. (step ^^ fst y) s (snd y) \<longrightarrow> fst y \<le> fst x"
    using ex_has_greatest_nat [of "\<lambda>x. (step ^^ fst x) s (snd x)" "(0, s)" fst "Suc b"] by auto
  have "\<not> step (snd x) u" for u
  proof
    assume "step (snd x) u"
    with x have "(step ^^ Suc (fst x)) s u" by (rule relpowp_Suc_I)
    then show False using max [rule_format, of "(Suc (fst x), u)"] by simp
  qed
  then show ?thesis using relpowp_imp_rtranclp [OF x] by blast
qed

text \<open>
  C19. The whole thread demo, \<^verbatim>\<open>main\<close> with all demos and threads, under every schedule, whatever the calls that create and join
  threads return and however many spurious wake-ups there are: every run is finite, and when nothing can move any more the program has
  ended in the one way these calls determine. If none fails, it has returned 0 and the main thread has printed the banners of all demos in
  order, with the verdict that the counter is right; otherwise it has exited with status 1 in the first demo in which a call failed, with the message
  for that call last.
\<close>

theorem thread_main_completes:
  "(\<exists>b. \<forall>k t. (thread_step e ^^ k) (thread_main e) t \<longrightarrow> k \<le> b)
   \<and> (\<forall>t. (thread_step e)\<^sup>*\<^sup>* (thread_main e) t \<and> (\<forall>u. \<not> thread_step e t u) \<longrightarrow> thread_result t = Some (thread_outcome e))"
proof -
  obtain inv m fin where sys: "bounded_system (\<lambda>x. x = thread_main e) (thread_step e) inv m fin"
      and good: "\<And>x. inv x \<Longrightarrow> fin x \<Longrightarrow> thread_result x = Some (thread_outcome e)"
    using thread_main_ends [of e] unfolding ends_in_def by blast
  note inv = inv_system.reach_inv [OF bounded_system.axioms(1) [OF sys] refl]
  have "thread_result t = Some (thread_outcome e)" if "(thread_step e)\<^sup>*\<^sup>* (thread_main e) t" "\<forall>u. \<not> thread_step e t u" for t
    using good [OF inv [OF that(1)]] bounded_system.stuck_final [OF sys refl that(1)] that(2) by blast
  then show ?thesis using bounded_system.run_length [OF sys refl] by blast
qed

definition quiet_env :: thread_env where
  "quiet_env = (let ck = \<lparr>ck_create = \<lambda>_. 0, ck_join = \<lambda>_. 0\<rparr>
     in \<lparr>e_basic = ck, e_mutex = ck, e_cv2 = ck, e_sem = ck, e_rwlock = ck, e_tls = ck, e_tid = \<lambda>i. i, e_spurious = 0, e_strerror = \<lambda>_. []\<rparr>)"

text \<open>A run without failing calls that ends: the program has returned 0.\<close>

theorem thread_main_completes_witness:
  "\<exists>t ls. (thread_step quiet_env)\<^sup>*\<^sup>* (thread_main quiet_env) t \<and> thread_result t = Some (0, ls @ [''[DONE] Thread demo complete.''])"
proof -
  obtain b where "\<forall>k t. (thread_step quiet_env ^^ k) (thread_main quiet_env) t \<longrightarrow> k \<le> b"
    using thread_main_completes [of quiet_env, THEN conjunct1] by (elim exE)
  from bounded_run_ends [OF this] obtain t
    where t: "(thread_step quiet_env)\<^sup>*\<^sup>* (thread_main quiet_env) t" "\<forall>u. \<not> thread_step quiet_env t u" by (elim exE conjE)
  have "snd (demo_basic_threads (\<lambda>_. 0) (\<lambda>_. 0) 4)" using demo_basic_threads_lines_witness by simp
  moreover have "demo_fails strerror n js \<lparr>ck_create = \<lambda>_. 0, ck_join = \<lambda>_. 0\<rparr> = None" for strerror n js by (simp add: fails_none)
  ultimately have "\<exists>ls. thread_outcome quiet_env = (0, ls @ [''[DONE] Thread demo complete.''])"
    by (simp add: thread_outcome_def cv2_stages_def sem_stages_def rwlock_stages_def tls_stages_def quiet_env_def Let_def)
  with t show ?thesis using thread_main_completes [of quiet_env, THEN conjunct2, rule_format, OF conjI, OF t(1)] by auto
qed

end
