(* ===== verification/Shm_Handoff.thy ===== *)
theory Shm_Handoff
  imports Contracts
begin

text \<open>
  \<^verbatim>\<open>03_ipc/shm_demo.c\<close>: two processes hand messages over through one shared buffer with the semaphores
  \<^verbatim>\<open>sem_w\<close> (initially 1) and \<^verbatim>\<open>sem_r\<close> (initially 0). Each access to the shared region is a step, down to
  single bytes of the text: \<^verbatim>\<open>snprintf\<close> stores byte by byte and \<^verbatim>\<open>printf("%s")\<close> reads byte by byte up to the NUL
  and faults past the end of the array. The region may hold anything at the start, as \<^verbatim>\<open>shm_open\<close> does not
  clear an existing object. A process step is \<open>None\<close> when the process is blocked or has left its loop.

  Shown for every interleaving: the consumer prints every message exactly once, in order and untorn, never
  reads past the array, and both loops end.
\<close>

section \<open>State and steps\<close>

abbreviation SHM_BUF_SIZE :: nat where "SHM_BUF_SIZE \<equiv> 256"

datatype pp_pc = H_wait | H_num | H_text | H_post | H_done
datatype cc_pc = G_wait | G_num | G_text | G_post | G_done | G_fault

record shm =
  shm_num :: int
  shm_data :: "byte list"
  sem_w :: nat
  sem_r :: nat
  pp_pc :: pp_pc
  pp_i :: nat
  pp_k :: nat
  cc_pc :: cc_pc
  cc_i :: nat
  cc_num :: int
  cc_buf :: string
  cc_got :: "(int \<times> string) list"

definition hello_text :: "int \<Rightarrow> nat \<Rightarrow> string" where
  "hello_text pid i = ''Hello #'' @ dec_nat i @ '' from producer (PID '' @ dec_int pid @ '')''"

definition shm_producer_step :: "(nat \<Rightarrow> string) \<Rightarrow> nat \<Rightarrow> shm \<Rightarrow> shm option" where
  "shm_producer_step f n s =
     (case pp_pc s of
        H_wait \<Rightarrow>
          if \<not> pp_i s < n then Some (s\<lparr>pp_pc := H_done\<rparr>)
          else if 0 < sem_w s then Some (s\<lparr>sem_w := sem_w s - 1, pp_pc := H_num\<rparr>) else None
      | H_num \<Rightarrow> Some (s\<lparr>shm_num := int (pp_i s), pp_k := 0, pp_pc := H_text\<rparr>)
      | H_text \<Rightarrow>
          let bs = snprintf_bytes SHM_BUF_SIZE (f (pp_i s))
          in if pp_k s < length bs
             then Some (s\<lparr>shm_data := (shm_data s)[pp_k s := bs ! pp_k s], pp_k := pp_k s + 1\<rparr>)
             else Some (s\<lparr>pp_pc := H_post\<rparr>)
      | H_post \<Rightarrow> Some (s\<lparr>sem_r := sem_r s + 1, pp_i := pp_i s + 1, pp_pc := H_wait\<rparr>)
      | H_done \<Rightarrow> None)"

definition shm_consumer_step :: "nat \<Rightarrow> shm \<Rightarrow> shm option" where
  "shm_consumer_step n s =
     (case cc_pc s of
        G_wait \<Rightarrow>
          if \<not> cc_i s < n then Some (s\<lparr>cc_pc := G_done\<rparr>)
          else if 0 < sem_r s then Some (s\<lparr>sem_r := sem_r s - 1, cc_pc := G_num\<rparr>) else None
      | G_num \<Rightarrow> Some (s\<lparr>cc_num := shm_num s, cc_buf := [], cc_pc := G_text\<rparr>)
      | G_text \<Rightarrow>
          if \<not> length (cc_buf s) < length (shm_data s) then Some (s\<lparr>cc_pc := G_fault\<rparr>)
          else if shm_data s ! length (cc_buf s) = NUL then Some (s\<lparr>cc_pc := G_post\<rparr>)
          else Some (s\<lparr>cc_buf := cc_buf s @ [shm_data s ! length (cc_buf s)]\<rparr>)
      | G_post \<Rightarrow> Some (s\<lparr>sem_w := sem_w s + 1, cc_i := cc_i s + 1, cc_got := cc_got s @ [(cc_num s, cc_buf s)],
                          cc_pc := G_wait\<rparr>)
      | _ \<Rightarrow> None)"

definition shm_step :: "(nat \<Rightarrow> string) \<Rightarrow> nat \<Rightarrow> shm \<Rightarrow> shm \<Rightarrow> bool" where
  "shm_step f n s t \<longleftrightarrow> shm_producer_step f n s = Some t \<or> shm_consumer_step n s = Some t"

text \<open>After the fork; \<open>v\<close> and \<open>d\<close> are what the shared object held before.\<close>

definition shm_start :: "int \<Rightarrow> byte list \<Rightarrow> shm" where
  "shm_start v d =
     \<lparr>shm_num = v, shm_data = d, sem_w = 1, sem_r = 0, pp_pc = H_wait, pp_i = 0, pp_k = 0,
      cc_pc = G_wait, cc_i = 0, cc_num = 0, cc_buf = [], cc_got = []\<rparr>"

section \<open>Invariant\<close>

primrec pp_in :: "pp_pc \<Rightarrow> nat" where
  "pp_in H_wait = 0" | "pp_in H_num = 1" | "pp_in H_text = 1" | "pp_in H_post = 1" | "pp_in H_done = 0"

primrec cc_in :: "cc_pc \<Rightarrow> nat" where
  "cc_in G_wait = 0" | "cc_in G_num = 1" | "cc_in G_text = 1" | "cc_in G_post = 1" | "cc_in G_done = 0" | "cc_in G_fault = 0"

definition shm_sems :: "shm \<Rightarrow> bool" where
  "shm_sems s \<longleftrightarrow> sem_r s + cc_i s + cc_in (cc_pc s) = pp_i s \<and> sem_w s + pp_i s + pp_in (pp_pc s) = 1 + cc_i s"

primrec pp_loop :: "pp_pc \<Rightarrow> nat \<Rightarrow> nat \<Rightarrow> bool" where
  "pp_loop H_wait i n = (i \<le> n)" | "pp_loop H_num i n = (i < n)" | "pp_loop H_text i n = (i < n)"
| "pp_loop H_post i n = (i < n)" | "pp_loop H_done i n = (i = n)"

primrec cc_loop :: "cc_pc \<Rightarrow> nat \<Rightarrow> nat \<Rightarrow> bool" where
  "cc_loop G_wait i n = (i \<le> n)" | "cc_loop G_num i n = (i < n)" | "cc_loop G_text i n = (i < n)"
| "cc_loop G_post i n = (i < n)" | "cc_loop G_done i n = (i = n)" | "cc_loop G_fault i n = False"

text \<open>The text a message carries, at most 255 characters, and the bytes stored for it.\<close>

definition sent :: "(nat \<Rightarrow> string) \<Rightarrow> nat \<Rightarrow> string" where
  "sent f i = take (SHM_BUF_SIZE - 1) (f i)"

definition holds_upto :: "(nat \<Rightarrow> string) \<Rightarrow> nat \<Rightarrow> nat \<Rightarrow> int \<Rightarrow> byte list \<Rightarrow> bool" where
  "holds_upto f i k v d \<longleftrightarrow> v = int i \<and> take k d = take k (sent f i @ [NUL])"

abbreviation holds_msg :: "(nat \<Rightarrow> string) \<Rightarrow> nat \<Rightarrow> int \<Rightarrow> byte list \<Rightarrow> bool" where
  "holds_msg f i \<equiv> holds_upto f i (Suc (length (sent f i)))"

primrec pp_at :: "pp_pc \<Rightarrow> (nat \<Rightarrow> string) \<Rightarrow> nat \<Rightarrow> nat \<Rightarrow> int \<Rightarrow> byte list \<Rightarrow> bool" where
  "pp_at H_wait f i k v d = True"
| "pp_at H_num f i k v d = True"
| "pp_at H_text f i k v d = (k \<le> Suc (length (sent f i)) \<and> holds_upto f i k v d)"
| "pp_at H_post f i k v d = holds_msg f i v d"
| "pp_at H_done f i k v d = True"

primrec cc_at :: "cc_pc \<Rightarrow> (nat \<Rightarrow> string) \<Rightarrow> nat \<Rightarrow> int \<Rightarrow> string \<Rightarrow> bool" where
  "cc_at G_wait f i v b = True"
| "cc_at G_num f i v b = True"
| "cc_at G_text f i v b = (v = int i \<and> prefix b (sent f i))"
| "cc_at G_post f i v b = (v = int i \<and> b = sent f i)"
| "cc_at G_done f i v b = True"
| "cc_at G_fault f i v b = True"

definition shm_written :: "(nat \<Rightarrow> string) \<Rightarrow> shm \<Rightarrow> bool" where
  "shm_written f s \<longleftrightarrow> length (shm_data s) = SHM_BUF_SIZE
     \<and> pp_at (pp_pc s) f (pp_i s) (pp_k s) (shm_num s) (shm_data s)
     \<and> (pp_i s = Suc (cc_i s) \<longrightarrow> holds_msg f (cc_i s) (shm_num s) (shm_data s))"

definition shm_read :: "(nat \<Rightarrow> string) \<Rightarrow> shm \<Rightarrow> bool" where
  "shm_read f s \<longleftrightarrow> cc_got s = map (\<lambda>i. (int i, sent f i)) [0..<cc_i s]
     \<and> cc_at (cc_pc s) f (cc_i s) (cc_num s) (cc_buf s)"

definition shm_inv :: "(nat \<Rightarrow> string) \<Rightarrow> nat \<Rightarrow> shm \<Rightarrow> bool" where
  "shm_inv f n s \<longleftrightarrow> shm_sems s \<and> pp_loop (pp_pc s) (pp_i s) n \<and> cc_loop (cc_pc s) (cc_i s) n
     \<and> shm_written f s \<and> shm_read f s"

definition shm_final :: "shm \<Rightarrow> bool" where
  "shm_final s \<longleftrightarrow> pp_pc s = H_done \<and> cc_pc s = G_done"

fun pp_rank :: "pp_pc \<Rightarrow> nat \<Rightarrow> nat" where
  "pp_rank H_wait k = 259" | "pp_rank H_num k = 258" | "pp_rank H_text k = 257 - k" | "pp_rank H_post k = 0" | "pp_rank H_done k = 0"

fun cc_rank :: "cc_pc \<Rightarrow> nat \<Rightarrow> nat" where
  "cc_rank G_wait k = 259" | "cc_rank G_num k = 258" | "cc_rank G_text k = 257 - k" | "cc_rank G_post k = 0"
| "cc_rank G_done k = 0" | "cc_rank G_fault k = 0"

definition shm_measure :: "nat \<Rightarrow> shm \<Rightarrow> nat" where
  "shm_measure n s = 260 * (n - pp_i s) + pp_rank (pp_pc s) (pp_k s)
     + 260 * (n - cc_i s) + cc_rank (cc_pc s) (length (cc_buf s))"

section \<open>Lemmas\<close>

lemma sent_bytes: "snprintf_bytes SHM_BUF_SIZE (f i) = sent f i @ [NUL]"
  by (simp add: snprintf_bytes_def sent_def)

lemma sent_length: "length (sent f i) < SHM_BUF_SIZE"
  by (simp add: sent_def)

lemma sent_no_NUL: "NUL \<notin> set (f i) \<Longrightarrow> NUL \<notin> set (sent f i)"
  unfolding sent_def by (meson in_set_takeD)

lemma holds_next:
  assumes "holds_upto f i k v d" and "k < Suc (length (sent f i))" and "length d = SHM_BUF_SIZE"
  shows "holds_upto f i (Suc k) v (d[k := (sent f i @ [NUL]) ! k])"
proof -
  have "k < length d" using assms(2,3) sent_length [of f i] by simp
  moreover have "k < length (sent f i @ [NUL])" using assms(2) by simp
  ultimately show ?thesis using assms(1) by (simp add: holds_upto_def take_Suc_conv_app_nth del: take_append)
qed

lemma holds_nth:
  assumes "holds_msg f i v d" and "k \<le> length (sent f i)"
  shows "d ! k = (sent f i @ [NUL]) ! k"
proof -
  have "take (Suc (length (sent f i))) d ! k = (sent f i @ [NUL]) ! k" using assms(1) by (simp add: holds_upto_def)
  then show ?thesis using assms(2) by simp
qed

lemma pp_sems: "shm_producer_step f n s = Some t \<Longrightarrow> shm_sems s \<Longrightarrow> shm_sems t"
  by (cases "pp_pc s") (auto simp: shm_producer_step_def shm_sems_def Let_def split: if_splits)

lemma cc_sems: "shm_consumer_step n s = Some t \<Longrightarrow> shm_sems s \<Longrightarrow> cc_loop (cc_pc t) i n \<Longrightarrow> shm_sems t"
  by (cases "cc_pc s") (auto simp: shm_consumer_step_def shm_sems_def split: if_splits)

lemma pp_looped: "shm_producer_step f n s = Some t \<Longrightarrow> pp_loop (pp_pc s) (pp_i s) n \<Longrightarrow> pp_loop (pp_pc t) (pp_i t) n"
  by (cases "pp_pc s") (auto simp: shm_producer_step_def Let_def split: if_splits)

lemma pp_frame: "shm_producer_step f n s = Some t \<Longrightarrow>
    cc_pc t = cc_pc s \<and> cc_i t = cc_i s \<and> cc_num t = cc_num s \<and> cc_buf t = cc_buf s \<and> cc_got t = cc_got s"
  by (cases "pp_pc s") (auto simp: shm_producer_step_def Let_def split: if_splits)

lemma cc_frame: "shm_consumer_step n s = Some t \<Longrightarrow>
    pp_pc t = pp_pc s \<and> pp_i t = pp_i s \<and> pp_k t = pp_k s \<and> shm_num t = shm_num s \<and> shm_data t = shm_data s"
  by (cases "cc_pc s") (auto simp: shm_consumer_step_def split: if_splits)

lemma pp_written:
  assumes step: "shm_producer_step f n s = Some t" and sems: "shm_sems s" and w: "shm_written f s"
  shows "shm_written f t"
proof (cases "pp_pc s")
  case H_wait
  with step w show ?thesis by (auto simp: shm_producer_step_def shm_written_def split: if_splits)
next
  case H_num
  then have "pp_i s \<noteq> Suc (cc_i s)" using sems by (simp add: shm_sems_def)
  with H_num step w show ?thesis by (auto simp: shm_producer_step_def shm_written_def holds_upto_def)
next
  case H_text
  then have i: "pp_i s \<noteq> Suc (cc_i s)" using sems by (simp add: shm_sems_def)
  have k: "pp_k s \<le> Suc (length (sent f (pp_i s)))" "holds_upto f (pp_i s) (pp_k s) (shm_num s) (shm_data s)"
    and d: "length (shm_data s) = SHM_BUF_SIZE" using w H_text by (auto simp: shm_written_def)
  show ?thesis
  proof (cases "pp_k s < Suc (length (sent f (pp_i s)))")
    case True
    then have "t = s\<lparr>shm_data := (shm_data s)[pp_k s := (sent f (pp_i s) @ [NUL]) ! pp_k s], pp_k := Suc (pp_k s)\<rparr>"
      using step H_text by (simp add: shm_producer_step_def sent_bytes)
    then show ?thesis using holds_next [OF k(2) True d] True H_text d i by (simp add: shm_written_def)
  next
    case False
    then have "t = s\<lparr>pp_pc := H_post\<rparr>" using step H_text by (simp add: shm_producer_step_def sent_bytes)
    moreover have "pp_k s = Suc (length (sent f (pp_i s)))" using False k(1) by simp
    ultimately show ?thesis using k(2) i d by (simp add: shm_written_def)
  qed
next
  case H_post
  then have "pp_i s = cc_i s" using sems by (auto simp: shm_sems_def)
  with H_post step w show ?thesis by (auto simp: shm_producer_step_def shm_written_def)
next
  case H_done
  with step show ?thesis by (simp add: shm_producer_step_def)
qed

lemma cc_written:
  assumes step: "shm_consumer_step n s = Some t" and sems: "shm_sems s" and w: "shm_written f s"
  shows "shm_written f t"
proof (cases "cc_pc s")
  case G_post
  then have "pp_i s = Suc (cc_i s)" using sems by (auto simp: shm_sems_def)
  with G_post step w show ?thesis by (auto simp: shm_consumer_step_def shm_written_def)
qed (use step w in \<open>auto simp: shm_consumer_step_def shm_written_def split: if_splits\<close>)

lemma text_step:
  assumes "holds_msg f i v d" and "prefix b (sent f i)" and "length d = SHM_BUF_SIZE" and "NUL \<notin> set (f i)"
  shows "length b < length d" "d ! length b = NUL \<Longrightarrow> b = sent f i"
    "d ! length b \<noteq> NUL \<Longrightarrow> prefix (b @ [d ! length b]) (sent f i)"
proof -
  obtain z where z: "sent f i = b @ z" using assms(2) by (auto simp: prefix_def)
  then show "length b < length d" using assms(3) sent_length [of f i] by simp
  have d: "d ! length b = (z @ [NUL]) ! 0" using holds_nth [OF assms(1), of "length b"] z by (simp add: nth_append)
  show "b = sent f i" if "d ! length b = NUL"
    using that d z sent_no_NUL [of f i, OF assms(4)] by (cases z) auto
  show "prefix (b @ [d ! length b]) (sent f i)" if "d ! length b \<noteq> NUL"
    using that d z by (cases z) auto
qed

lemma cc_reads:
  assumes step: "shm_consumer_step n s = Some t" and inv: "shm_inv f n s" and f: "\<And>i. NUL \<notin> set (f i)"
  shows "shm_read f t \<and> cc_loop (cc_pc t) (cc_i t) n"
proof (cases "cc_pc s")
  case G_num
  then have "pp_i s = Suc (cc_i s)" using inv by (auto simp: shm_inv_def shm_sems_def)
  then have "shm_num s = int (cc_i s)" using inv by (simp add: shm_inv_def shm_written_def holds_upto_def)
  with G_num step inv show ?thesis by (auto simp: shm_consumer_step_def shm_inv_def shm_read_def)
next
  case G_text
  then have "pp_i s = Suc (cc_i s)" using inv by (auto simp: shm_inv_def shm_sems_def)
  then have h: "holds_msg f (cc_i s) (shm_num s) (shm_data s)" and d: "length (shm_data s) = SHM_BUF_SIZE"
    using inv by (auto simp: shm_inv_def shm_written_def)
  have b: "prefix (cc_buf s) (sent f (cc_i s))" using inv G_text by (simp add: shm_inv_def shm_read_def)
  show ?thesis
    using text_step [OF h b d f] G_text step inv
    by (cases "shm_data s ! length (cc_buf s) = NUL") (auto simp: shm_consumer_step_def shm_inv_def shm_read_def)
qed (use step inv in \<open>auto simp: shm_consumer_step_def shm_inv_def shm_read_def split: if_splits\<close>)

lemma pp_inv: "shm_producer_step f n s = Some t \<Longrightarrow> shm_inv f n s \<Longrightarrow> shm_inv f n t"
  using pp_sems [of f n s t] pp_looped [of f n s t] pp_written [of f n s t] pp_frame [of f n s t]
  by (simp add: shm_inv_def shm_read_def)

lemma cc_inv:
  assumes "shm_consumer_step n s = Some t" and "shm_inv f n s" and "\<And>i. NUL \<notin> set (f i)"
  shows "shm_inv f n t"
  using cc_reads [OF assms] cc_frame [OF assms(1)] cc_sems [OF assms(1)] cc_written [OF assms(1)] assms(2)
  unfolding shm_inv_def by metis

lemma pp_less: "shm_producer_step f n s = Some t \<Longrightarrow> shm_inv f n s \<Longrightarrow> shm_measure n t < shm_measure n s"
  using sent_length [of f "pp_i s"]
  by (cases "pp_pc s")
    (auto simp: shm_producer_step_def shm_inv_def shm_written_def shm_measure_def sent_bytes Let_def split: if_splits)

lemma cc_less:
  assumes "shm_consumer_step n s = Some t" and "shm_inv f n s"
  shows "shm_measure n t < shm_measure n s"
  using assms sent_length [of f "cc_i s"] prefix_length_le [of "cc_buf s" "sent f (cc_i s)"]
  by (cases "cc_pc s") (auto simp: shm_consumer_step_def shm_inv_def shm_read_def shm_measure_def split: if_splits)

lemma pp_blocked: "shm_producer_step f n s = None \<longleftrightarrow> pp_pc s = H_done \<or> (pp_pc s = H_wait \<and> pp_i s < n \<and> sem_w s = 0)"
  by (cases "pp_pc s") (auto simp: shm_producer_step_def Let_def)

lemma cc_blocked:
  "shm_consumer_step n s = None \<longleftrightarrow> cc_pc s = G_done \<or> cc_pc s = G_fault \<or> (cc_pc s = G_wait \<and> cc_i s < n \<and> sem_r s = 0)"
  by (cases "cc_pc s") (auto simp: shm_consumer_step_def)

lemma shm_progress:
  assumes inv: "shm_inv f n s" and "\<not> shm_final s"
  shows "\<exists>t. shm_step f n s t"
proof (rule ccontr)
  assume "\<nexists>t. shm_step f n s t"
  then have "shm_producer_step f n s = None" "shm_consumer_step n s = None" unfolding shm_step_def by (metis option.exhaust)+
  with assms show False
    unfolding pp_blocked cc_blocked shm_inv_def shm_sems_def shm_final_def by auto
qed

lemma shm_start_inv: "length d = SHM_BUF_SIZE \<Longrightarrow> shm_inv f n (shm_start v d)"
  by (simp add: shm_inv_def shm_start_def shm_sems_def shm_written_def shm_read_def)

lemma hello_no_NUL: "NUL \<notin> set (hello_text pid i)"
  by (simp add: hello_text_def)

interpretation shmd: bounded_system "\<lambda>s. \<exists>v d. length d = SHM_BUF_SIZE \<and> s = shm_start v d"
  "shm_step (hello_text pid) n" "shm_inv (hello_text pid) n" "shm_measure n" shm_final for pid n
proof (unfold_locales, goal_cases)
  case (1 s)
  then show ?case using shm_start_inv by blast
next
  case (2 s t)
  then show ?case using hello_no_NUL unfolding shm_step_def by (metis pp_inv cc_inv)
next
  case (3 s t)
  then show ?case unfolding shm_step_def by (metis pp_less cc_less)
next
  case (4 s)
  then show ?case by (rule shm_progress)
qed

section \<open>Property\<close>

text \<open>
  C22. \<^verbatim>\<open>shm_demo.c\<close> for any number of messages (5 in the code), any process id and any previous content of the
  shared object, every interleaving down to single bytes: the consumer never reads past the buffer, what it
  has printed is at every moment an initial part of the numbered messages in order and whole; the run is
  bounded; and when no process can move, both loops have ended and all messages were printed.
\<close>

theorem shm_messages_whole:
  assumes "length d = SHM_BUF_SIZE"
  shows "((shm_step (hello_text pid) n ^^ k) (shm_start v d) s \<longrightarrow> k \<le> 520 * n + 518)
   \<and> ((shm_step (hello_text pid) n)\<^sup>*\<^sup>* (shm_start v d) s \<longrightarrow>
        cc_pc s \<noteq> G_fault
        \<and> prefix (cc_got s) (map (\<lambda>i. (int i, take 255 (hello_text pid i))) [0..<n])
        \<and> ((\<forall>t. \<not> shm_step (hello_text pid) n s t) \<longrightarrow>
             shm_final s \<and> cc_got s = map (\<lambda>i. (int i, take 255 (hello_text pid i))) [0..<n]))"
proof (intro conjI impI)
  assume "(shm_step (hello_text pid) n ^^ k) (shm_start v d) s"
  then have "k \<le> shm_measure n (shm_start v d)" using shmd.run_length [of "shm_start v d" k pid n s] assms by blast
  then show "k \<le> 520 * n + 518" by (simp add: shm_measure_def shm_start_def)
next
  assume reach: "(shm_step (hello_text pid) n)\<^sup>*\<^sup>* (shm_start v d) s"
  have inv: "shm_inv (hello_text pid) n s" using shmd.reach_inv [OF _ reach] assms by blast
  then show "cc_pc s \<noteq> G_fault" by (auto simp: shm_inv_def)
  let ?m = "\<lambda>i. (int i, take 255 (hello_text pid i))"
  have got: "cc_got s = map ?m [0..<cc_i s]" using inv by (simp add: shm_inv_def shm_read_def sent_def)
  have "cc_i s \<le> n" using inv by (cases "cc_pc s") (auto simp: shm_inv_def)
  then have "[0..<n] = [0..<cc_i s] @ [cc_i s..<n]" using upt_add_eq_append [of 0 "cc_i s" "n - cc_i s"] by simp
  then show "prefix (cc_got s) (map ?m [0..<n])" using got by simp
  assume "\<forall>t. \<not> shm_step (hello_text pid) n s t"
  then show fin: "shm_final s" using shmd.stuck_final [OF _ reach] assms by blast
  then show "cc_got s = map ?m [0..<n]" using inv got by (simp add: shm_inv_def shm_final_def)
qed

theorem shm_messages_whole_witness:
  "\<exists>s. (shm_step (hello_text 7) 2)\<^sup>*\<^sup>* (shm_start 0 (replicate SHM_BUF_SIZE NUL)) s
     \<and> cc_got s = [(0, ''Hello #0 from producer (PID 7)''), (1, ''Hello #1 from producer (PID 7)'')]"
proof -
  let ?s = "shm_start 0 (replicate SHM_BUF_SIZE NUL)"
  obtain s where s: "(shm_step (hello_text 7) 2)\<^sup>*\<^sup>* ?s s" "shm_final s"
    using shmd.finishes [OF shm_start_inv, of "replicate SHM_BUF_SIZE NUL" 7 2] by auto
  then have "\<not> shm_step (hello_text 7) 2 s t" for t
    by (simp add: shm_step_def shm_final_def shm_producer_step_def shm_consumer_step_def)
  then have "cc_got s = map (\<lambda>i. (int i, take 255 (hello_text 7 i))) [0..<2]"
    using shm_messages_whole [where d = "replicate SHM_BUF_SIZE NUL" and pid = 7 and n = 2 and v = 0 and s = s and k = 0] s(1)
    by simp
  also have "\<dots> = [(0, ''Hello #0 from producer (PID 7)''), (1, ''Hello #1 from producer (PID 7)'')]"
    by code_simp
  finally show ?thesis using s(1) by blast
qed

end
