(* ===== verification/Sys_Prog.thy ===== *)
theory Sys_Prog
  imports Contracts
begin

text \<open>
  Programs that talk to the kernel: a program is a tree of system and library calls, each continued by a
  function of the kernel's answer, ending with a result, \<^verbatim>\<open>exit\<close>, or a fault (an access C leaves undefined).
  The world keeps what the calls change: open descriptors, epoll registrations, children not yet
  waited for, what was printed and sent, and whether a call ever named a descriptor that was not open.
  \<open>C_print\<close> is a line on \<^verbatim>\<open>stdout\<close> or \<^verbatim>\<open>stderr\<close>, without the line feed that ends it and the empty lines around it.
  \<open>exec\<close> runs a program on a list of answers; \<open>legal\<close> says that the answers are ones the kernel's
  documentation allows, and nothing more. \<open>wp\<close> is the calculus the proofs use, \<open>wp_sound\<close> links it to
  runs.
\<close>

section \<open>Calls, answers, programs\<close>

datatype call =
    C_open string
  | C_create string
  | C_newfd string
  | C_pipe
  | C_socket
  | C_accept int
  | C_epoll_create
  | C_close int
  | C_read int nat
  | C_write int "byte list"
  | C_recv int nat
  | C_send int "byte list"
  | C_writev int "byte list list"
  | C_readv int "nat list"
  | C_sendfile int int nat
  | C_fstat int
  | C_lseek int int nat
  | C_ioctl int nat
  | C_fcntl int nat int
  | C_setsockopt int nat
  | C_getsockopt int
  | C_bind int int
  | C_listen int
  | C_connect int
  | C_epoll_ctl int bool int
  | C_epoll_wait int nat
  | C_getaddrinfo
  | C_fork
  | C_waitpid int
  | C_waitpid_nohang int
  | C_wait
  | C_exec string
  | C_mkfifo string
  | C_unlink string
  | C_tcgetattr int
  | C_tcsetattr int c_int
  | C_misc string
  | C_print string

text \<open>
  The return value, \<^verbatim>\<open>errno\<close>, the bytes a call filled in, and the pairs it filled in: the events of
  \<^verbatim>\<open>epoll_wait\<close> with their flags, the two descriptors of \<^verbatim>\<open>pipe\<close>.
\<close>

record ans =
  a_ret :: int
  a_err :: int
  a_data :: "byte list"
  a_evs :: "(int \<times> nat) list"

datatype 'a prog = Ret 'a | Exit int | Fault c_error | More | Sys call "ans \<Rightarrow> 'a prog"

text \<open>\<open>More\<close> stands for the rest of a loop that is followed no further.\<close>

datatype 'a outcome = Done 'a | Exited int | Faulted c_error | Unfinished

primrec bindp :: "'a prog \<Rightarrow> ('a \<Rightarrow> 'b prog) \<Rightarrow> 'b prog" where
  "bindp (Ret x) f = f x"
| "bindp (Exit n) f = Exit n"
| "bindp (Fault e) f = Fault e"
| "bindp More f = More"
| "bindp (Sys c k) f = Sys c (\<lambda>a. bindp (k a) f)"

text \<open>A call whose answer the code ignores.\<close>

abbreviation ignore :: "call \<Rightarrow> 'a prog \<Rightarrow> 'a prog" where
  "ignore c p \<equiv> Sys c (\<lambda>_. p)"

text \<open>\<^verbatim>\<open>getpid\<close> and \<^verbatim>\<open>getppid\<close>, and the \<^verbatim>\<open>separator\<close> that the programs with several demos print before each of them.\<close>

abbreviation getpid :: "(int \<Rightarrow> 'a prog) \<Rightarrow> 'a prog" where
  "getpid k \<equiv> Sys (C_misc ''getpid'') (\<lambda>a. k (a_ret a))"

abbreviation getppid :: "(int \<Rightarrow> 'a prog) \<Rightarrow> 'a prog" where
  "getppid k \<equiv> Sys (C_misc ''getppid'') (\<lambda>a. k (a_ret a))"

definition banner :: "string \<Rightarrow> 'a prog \<Rightarrow> 'a prog" where
  "banner title p = ignore (C_print double_rule) (ignore (C_print (''  '' @ title)) (ignore (C_print double_rule) p))"

text \<open>
  The address of a peer that \<^verbatim>\<open>accept4\<close> and \<^verbatim>\<open>recvfrom\<close> fill in is the first pair of their answer, IPv4 address and port;
  \<^verbatim>\<open>inet_ntop\<close> writes the address in dotted decimal.
\<close>

definition inet_ntop :: "int \<Rightarrow> string" where
  "inet_ntop ip =
     (let n = nat ip
      in dec_nat (n div 2 ^ 24 mod 256) @ ''.'' @ dec_nat (n div 2 ^ 16 mod 256) @ ''.'' @ dec_nat (n div 2 ^ 8 mod 256) @ ''.'' @ dec_nat (n mod 256))"

definition peer_text :: "ans \<Rightarrow> string" where
  "peer_text a = (case a_evs a of [] \<Rightarrow> [] | (ip, port) # _ \<Rightarrow> inet_ntop ip @ '':'' @ dec_nat port)"

lemma localhost: "inet_ntop 0x7F000001 = ''127.0.0.1''"
  by (simp add: inet_ntop_def dec_nat.simps [of 127] dec_nat.simps [of 12] dec_nat.simps [of "Suc 0"] dec_nat.simps [of 0] char_of_def bit_Suc_0_iff)

section \<open>The world\<close>

record world =
  w_fds :: "int set"
  w_reg :: "(int \<times> int) set"
  w_kids :: "int set"
  w_out :: "string list"
  w_sent :: "(int \<times> byte list) list"
  w_bad :: bool

definition world0 :: world where
  "world0 = \<lparr>w_fds = {0, 1, 2}, w_reg = {}, w_kids = {}, w_out = [], w_sent = [], w_bad = False\<rparr>"

text \<open>The descriptors a call names.\<close>

fun named_fds :: "call \<Rightarrow> int list" where
  "named_fds (C_accept fd) = [fd]"
| "named_fds (C_close fd) = [fd]"
| "named_fds (C_read fd n) = [fd]"
| "named_fds (C_write fd bs) = [fd]"
| "named_fds (C_recv fd n) = [fd]"
| "named_fds (C_send fd bs) = [fd]"
| "named_fds (C_lseek fd n wh) = [fd]"
| "named_fds (C_writev fd bss) = [fd]"
| "named_fds (C_readv fd ns) = [fd]"
| "named_fds (C_sendfile dst src n) = [dst, src]"
| "named_fds (C_fstat fd) = [fd]"
| "named_fds (C_ioctl fd n) = [fd]"
| "named_fds (C_fcntl fd n v) = [fd]"
| "named_fds (C_setsockopt fd n) = [fd]"
| "named_fds (C_getsockopt fd) = [fd]"
| "named_fds (C_bind fd port) = [fd]"
| "named_fds (C_listen fd) = [fd]"
| "named_fds (C_connect fd) = [fd]"
| "named_fds (C_epoll_ctl ep add fd) = [ep, fd]"
| "named_fds (C_epoll_wait ep n) = [ep]"
| "named_fds (C_tcgetattr fd) = [fd]"
| "named_fds (C_tcsetattr fd f) = [fd]"
| "named_fds _ = []"

fun new_fds :: "call \<Rightarrow> ans \<Rightarrow> int list" where
  "new_fds (C_open p) a = (if 0 \<le> a_ret a then [a_ret a] else [])"
| "new_fds (C_create p) a = (if 0 \<le> a_ret a then [a_ret a] else [])"
| "new_fds (C_newfd p) a = (if 0 \<le> a_ret a then [a_ret a] else [])"
| "new_fds C_socket a = (if 0 \<le> a_ret a then [a_ret a] else [])"
| "new_fds (C_accept fd) a = (if 0 \<le> a_ret a then [a_ret a] else [])"
| "new_fds C_epoll_create a = (if 0 \<le> a_ret a then [a_ret a] else [])"
| "new_fds C_pipe a = (if a_ret a = 0 then map fst (a_evs a) else [])"
| "new_fds _ a = []"

definition effect :: "call \<Rightarrow> ans \<Rightarrow> world \<Rightarrow> world" where
  "effect c a w =
     (case c of
        C_close fd \<Rightarrow> w\<lparr>w_fds := w_fds w - {fd}, w_reg := {(e, f) \<in> w_reg w. e \<noteq> fd \<and> f \<noteq> fd}\<rparr>
      | C_write fd bs \<Rightarrow> w\<lparr>w_sent := w_sent w @ [(fd, bs)]\<rparr>
      | C_writev fd bss \<Rightarrow> w\<lparr>w_sent := w_sent w @ [(fd, concat bss)]\<rparr>
      | C_send fd bs \<Rightarrow> w\<lparr>w_sent := w_sent w @ [(fd, bs)]\<rparr>
      | C_epoll_ctl ep add fd \<Rightarrow>
          if a_ret a \<noteq> 0 then w
          else if add then w\<lparr>w_reg := insert (ep, fd) (w_reg w)\<rparr> else w\<lparr>w_reg := w_reg w - {(ep, fd)}\<rparr>
      | C_fork \<Rightarrow> if 0 < a_ret a then w\<lparr>w_kids := insert (a_ret a) (w_kids w)\<rparr>
                  else if a_ret a = 0 then w\<lparr>w_kids := {}\<rparr> else w
      | C_waitpid p \<Rightarrow> w\<lparr>w_kids := w_kids w - {a_ret a}\<rparr>
      | C_waitpid_nohang p \<Rightarrow> w\<lparr>w_kids := w_kids w - {a_ret a}\<rparr>
      | C_wait \<Rightarrow> w\<lparr>w_kids := w_kids w - {a_ret a}\<rparr>
      | C_print s \<Rightarrow> w\<lparr>w_out := w_out w @ [s]\<rparr>
      | _ \<Rightarrow> w\<lparr>w_fds := w_fds w \<union> set (new_fds c a)\<rparr>)"

definition k_step :: "call \<Rightarrow> ans \<Rightarrow> world \<Rightarrow> world" where
  "k_step c a w = effect c a (w\<lparr>w_bad := (w_bad w \<or> \<not> set (named_fds c) \<subseteq> w_fds w)\<rparr>)"

text \<open>
  What the manual pages promise: new descriptors are not in use, at most the asked number of bytes is
  delivered, \<^verbatim>\<open>epoll_wait\<close> reports registered descriptors, each once, and \<^verbatim>\<open>wait\<close> reports children.
\<close>

definition fresh_fd :: "world \<Rightarrow> int \<Rightarrow> bool" where
  "fresh_fd w r \<longleftrightarrow> r = -1 \<or> (0 \<le> r \<and> r \<notin> w_fds w)"

definition filled :: "nat \<Rightarrow> ans \<Rightarrow> bool" where
  "filled n a \<longleftrightarrow> -1 \<le> a_ret a \<and> a_ret a \<le> int n \<and> length (a_data a) = nat (a_ret a)"

definition k_ok :: "call \<Rightarrow> ans \<Rightarrow> world \<Rightarrow> bool" where
  "k_ok c a w =
     (case c of
        C_open p \<Rightarrow> fresh_fd w (a_ret a)
      | C_create p \<Rightarrow> fresh_fd w (a_ret a)
      | C_newfd p \<Rightarrow> fresh_fd w (a_ret a)
      | C_socket \<Rightarrow> fresh_fd w (a_ret a)
      | C_accept fd \<Rightarrow> fresh_fd w (a_ret a)
      | C_epoll_create \<Rightarrow> fresh_fd w (a_ret a)
      | C_pipe \<Rightarrow> a_ret a = -1 \<or> (a_ret a = 0 \<and> length (a_evs a) = 2 \<and> distinct (map fst (a_evs a))
                     \<and> (\<forall>fd \<in> fst ` set (a_evs a). 0 \<le> fd \<and> fd \<notin> w_fds w))
      | C_read fd n \<Rightarrow> filled n a
      | C_recv fd n \<Rightarrow> filled n a
      | C_readv fd ns \<Rightarrow> filled (sum_list ns) a
      | C_epoll_wait ep n \<Rightarrow> -1 \<le> a_ret a \<and> a_ret a \<le> int n \<and> length (a_evs a) = nat (a_ret a)
          \<and> distinct (map fst (a_evs a)) \<and> (\<forall>fd \<in> fst ` set (a_evs a). (ep, fd) \<in> w_reg w)
      | C_fork \<Rightarrow> -1 \<le> a_ret a \<and> a_ret a \<notin> w_kids w
      | C_waitpid p \<Rightarrow> a_ret a = -1 \<or> (a_ret a = p \<and> p \<in> w_kids w)
      | C_waitpid_nohang p \<Rightarrow> a_ret a = -1 \<or> a_ret a = 0 \<or> (a_ret a = p \<and> p \<in> w_kids w)
      | C_wait \<Rightarrow> a_ret a = -1 \<or> a_ret a \<in> w_kids w
      | _ \<Rightarrow> True)"

section \<open>Runs\<close>

fun exec :: "'a prog \<Rightarrow> ans list \<Rightarrow> world \<Rightarrow> 'a outcome \<times> world" where
  "exec (Ret x) as w = (Done x, w)"
| "exec (Exit n) as w = (Exited n, w)"
| "exec (Fault e) as w = (Faulted e, w)"
| "exec More as w = (Unfinished, w)"
| "exec (Sys c k) [] w = (Unfinished, w)"
| "exec (Sys c k) (a # as) w = exec (k a) as (k_step c a w)"

fun legal :: "'a prog \<Rightarrow> ans list \<Rightarrow> world \<Rightarrow> bool" where
  "legal (Sys c k) (a # as) w = (k_ok c a w \<and> legal (k a) as (k_step c a w))"
| "legal p as w = True"

primrec wp :: "'a prog \<Rightarrow> ('a outcome \<Rightarrow> world \<Rightarrow> bool) \<Rightarrow> world \<Rightarrow> bool" where
  "wp (Ret x) Q w = Q (Done x) w"
| "wp (Exit n) Q w = Q (Exited n) w"
| "wp (Fault e) Q w = Q (Faulted e) w"
| "wp More Q w = Q Unfinished w"
| "wp (Sys c k) Q w = (Q Unfinished w \<and> (\<forall>a. k_ok c a w \<longrightarrow> wp (k a) Q (k_step c a w)))"

lemma wp_sound: "wp p Q w \<Longrightarrow> legal p as w \<Longrightarrow> exec p as w = (r, w') \<Longrightarrow> Q r w'"
  by (induction p as w rule: exec.induct) auto

definition wp_cont :: "('a \<Rightarrow> 'b prog) \<Rightarrow> ('b outcome \<Rightarrow> world \<Rightarrow> bool) \<Rightarrow> 'a outcome \<Rightarrow> world \<Rightarrow> bool" where
  "wp_cont f Q r w =
     (case r of Done x \<Rightarrow> wp (f x) Q w | Exited n \<Rightarrow> Q (Exited n) w | Faulted e \<Rightarrow> Q (Faulted e) w | Unfinished \<Rightarrow> Q Unfinished w)"

lemma wp_cont_simps [simp]:
  "wp_cont f Q (Done x) w = wp (f x) Q w" "wp_cont f Q (Exited n) w = Q (Exited n) w"
  "wp_cont f Q (Faulted e) w = Q (Faulted e) w" "wp_cont f Q Unfinished w = Q Unfinished w"
  by (simp_all add: wp_cont_def)

lemma wp_bind: "wp (bindp p f) Q w = wp p (wp_cont f Q) w"
  by (induction p arbitrary: w) simp_all

lemma wp_mono: "wp p Q w \<Longrightarrow> (\<And>r w. Q r w \<Longrightarrow> R r w) \<Longrightarrow> wp p R w"
  by (induction p arbitrary: w) auto

text \<open>A run against a kernel given as a function, which decides every answer.\<close>

primrec run_on :: "('s \<Rightarrow> call \<Rightarrow> ans \<times> 's) \<Rightarrow> 'a prog \<Rightarrow> 's \<Rightarrow> 'a outcome \<times> 's" where
  "run_on kern (Ret x) s = (Done x, s)"
| "run_on kern (Exit n) s = (Exited n, s)"
| "run_on kern (Fault e) s = (Faulted e, s)"
| "run_on kern More s = (Unfinished, s)"
| "run_on kern (Sys c k) s = run_on kern (k (fst (kern s c))) (snd (kern s c))"

lemma run_on_bind:
  "run_on kern (bindp p f) s =
     (case run_on kern p s of (Done x, t) \<Rightarrow> run_on kern (f x) t | (Exited n, t) \<Rightarrow> (Exited n, t)
      | (Faulted e, t) \<Rightarrow> (Faulted e, t) | (Unfinished, t) \<Rightarrow> (Unfinished, t))"
  by (induction p arbitrary: s) simp_all

definition after_banner :: "('s \<Rightarrow> call \<Rightarrow> ans \<times> 's) \<Rightarrow> string \<Rightarrow> 's \<Rightarrow> 's" where
  "after_banner kern title s =
     snd (kern (snd (kern (snd (kern s (C_print double_rule))) (C_print (''  '' @ title)))) (C_print double_rule))"

lemma run_on_banner [simp]: "run_on kern (banner title p) s = run_on kern p (after_banner kern title s)"
  by (simp add: banner_def after_banner_def)

lemmas k_defs = k_step_def effect_def k_ok_def fresh_fd_def filled_def

text \<open>Calls that change nothing but print, and a store into a local buffer.\<close>

lemma k_step_frame [simp]:
  "w_fds (k_step (C_print s) a w) = w_fds w" "w_bad (k_step (C_print s) a w) = w_bad w"
  by (simp_all add: k_defs)

definition at_index :: "nat \<Rightarrow> int \<Rightarrow> 'a prog \<Rightarrow> 'a prog" where
  "at_index n i p = (if 0 \<le> i \<and> i < int n then p else Fault Out_Of_Bounds)"

lemma wp_at_index [simp]: "wp (at_index n i p) Q w = (if 0 \<le> i \<and> i < int n then wp p Q w else Q (Faulted Out_Of_Bounds) w)"
  by (simp add: at_index_def)

section \<open>Functions that open a descriptor\<close>

text \<open>What such a function leaves alone.\<close>

definition kept :: "world \<Rightarrow> world \<Rightarrow> bool" where
  "kept w w' \<longleftrightarrow> \<not> w_bad w' \<and> w_reg w' \<subseteq> w_reg w \<and> w_kids w' = w_kids w \<and> w_sent w' = w_sent w"

definition opened :: "world \<Rightarrow> int outcome \<Rightarrow> world \<Rightarrow> bool" where
  "opened w r w' \<longleftrightarrow> kept w w'
     \<and> (case r of
          Done n \<Rightarrow> if n < 0 then w_fds w' = w_fds w else n \<notin> w_fds w \<and> w_fds w' = insert n (w_fds w)
        | Unfinished \<Rightarrow> True
        | _ \<Rightarrow> False)"

lemma opened_simps [simp]:
  "opened w Unfinished w' = kept w w'" "\<not> opened w (Exited n) w'" "\<not> opened w (Faulted e) w'"
  "opened w (Done n) w' =
     (kept w w' \<and> (if n < 0 then w_fds w' = w_fds w else n \<notin> w_fds w \<and> w_fds w' = insert n (w_fds w)))"
  by (simp_all add: opened_def)

text \<open>
  The contract between such a function and its callers: a negative result leaves no descriptor behind, any
  other result is one new open descriptor.
\<close>

locale fd_opener =
  fixes opener :: "int prog"
  assumes opener_ok: "\<not> w_bad w \<Longrightarrow> wp opener (opened w) w"
begin

lemma guarded_use:
  assumes "\<not> w_bad w"
    and "\<And>w'. kept w w' \<Longrightarrow> Q Unfinished w'"
    and "\<And>n w'. kept w w' \<Longrightarrow> n < 0 \<Longrightarrow> w_fds w' = w_fds w \<Longrightarrow> wp (f n) Q w'"
    and "\<And>n w'. kept w w' \<Longrightarrow> 0 \<le> n \<Longrightarrow> n \<notin> w_fds w \<Longrightarrow> w_fds w' = insert n (w_fds w) \<Longrightarrow> wp (f n) Q w'"
  shows "wp (bindp opener f) Q w"
proof -
  have "wp_cont f Q r w'" if "opened w r w'" for r w'
    using that assms(2-4) by (cases r) (auto split: if_splits)
  then show ?thesis unfolding wp_bind by (rule wp_mono [OF opener_ok [OF assms(1)]])
qed

lemma run_opened: "\<not> w_bad w \<Longrightarrow> legal opener as w \<Longrightarrow> exec opener as w = (r, w') \<Longrightarrow> opened w r w'"
  by (rule wp_sound [OF opener_ok])

end

text \<open>\<^verbatim>\<open>open\<close> itself.\<close>

definition plain_open :: "string \<Rightarrow> int prog" where
  "plain_open path = Sys (C_open path) (\<lambda>a. Ret (a_ret a))"

interpretation po: fd_opener "plain_open path" for path
  by unfold_locales (auto simp: plain_open_def kept_def k_defs)

section \<open>Accounting for descriptors\<close>

text \<open>
  The open descriptors are \<open>fds\<close>, nothing was misused, \<open>snt\<close> was sent; and a postcondition for
  programs that neither fault nor exit. The rules step through a program call by call.
\<close>

definition has_fds :: "int set \<Rightarrow> (int \<times> byte list) list \<Rightarrow> world \<Rightarrow> bool" where
  "has_fds fds snt w \<longleftrightarrow> \<not> w_bad w \<and> w_fds w = fds \<and> w_sent w = snt"

definition safe_post :: "('a \<Rightarrow> world \<Rightarrow> bool) \<Rightarrow> 'a outcome \<Rightarrow> world \<Rightarrow> bool" where
  "safe_post P r w = (case r of Done x \<Rightarrow> P x w | Unfinished \<Rightarrow> \<not> w_bad w | _ \<Rightarrow> False)"

lemma safe_post_simps [simp]:
  "safe_post P (Done x) w = P x w" "safe_post P Unfinished w = (\<not> w_bad w)"
  "\<not> safe_post P (Exited n) w" "\<not> safe_post P (Faulted e) w"
  by (simp_all add: safe_post_def)

fun plain_call :: "call \<Rightarrow> bool" where
  "plain_call (C_read fd n) = True"
| "plain_call (C_recv fd n) = True"
| "plain_call (C_lseek fd n wh) = True"
| "plain_call (C_readv fd ns) = True"
| "plain_call (C_sendfile dst src n) = True"
| "plain_call (C_fstat fd) = True"
| "plain_call (C_ioctl fd n) = True"
| "plain_call (C_fcntl fd n x) = True"
| "plain_call (C_setsockopt fd n) = True"
| "plain_call (C_getsockopt fd) = True"
| "plain_call (C_bind fd port) = True"
| "plain_call (C_listen fd) = True"
| "plain_call (C_connect fd) = True"
| "plain_call (C_epoll_ctl ep b fd) = True"
| "plain_call (C_epoll_wait ep n) = True"
| "plain_call C_getaddrinfo = True"
| "plain_call C_fork = True"
| "plain_call (C_waitpid p) = True"
| "plain_call (C_waitpid_nohang p) = True"
| "plain_call C_wait = True"
| "plain_call (C_exec p) = True"
| "plain_call (C_mkfifo p) = True"
| "plain_call (C_unlink p) = True"
| "plain_call (C_tcgetattr fd) = True"
| "plain_call (C_tcsetattr fd f) = True"
| "plain_call (C_misc m) = True"
| "plain_call (C_print m) = True"
| "plain_call _ = False"

lemma plain_keeps: "has_fds fds snt w \<Longrightarrow> plain_call c \<Longrightarrow> set (named_fds c) \<subseteq> fds \<Longrightarrow> has_fds fds snt (k_step c a w)"
  by (cases c) (auto simp: has_fds_def k_step_def effect_def)

lemma safe_bind:
  assumes "wp p (safe_post P) w" and "\<And>x v. P x v \<Longrightarrow> wp (f x) (safe_post R) v"
  shows "wp (bindp p f) (safe_post R) w"
  unfolding wp_bind
proof (rule wp_mono [OF assms(1)])
  fix r v
  assume "safe_post P r v"
  then show "wp_cont f (safe_post R) r v" using assms(2) by (cases r) auto
qed

lemma safe_plain:
  assumes "has_fds fds snt w" and "plain_call c" and "set (named_fds c) \<subseteq> fds"
    and "\<And>a v. k_ok c a w \<Longrightarrow> has_fds fds snt v \<Longrightarrow> wp (k a) (safe_post P) v"
  shows "wp (Sys c k) (safe_post P) w"
  using assms plain_keeps [OF assms(1-3)] by (auto simp: has_fds_def)

lemma safe_open:
  assumes "has_fds fds snt w" and "c = C_open p \<or> c = C_newfd p \<or> c = C_socket \<or> c = C_epoll_create"
    and "\<And>a v. a_ret a < 0 \<Longrightarrow> has_fds fds snt v \<Longrightarrow> wp (k a) (safe_post P) v"
    and "\<And>a v. 0 \<le> a_ret a \<Longrightarrow> a_ret a \<notin> fds \<Longrightarrow> has_fds (insert (a_ret a) fds) snt v \<Longrightarrow> wp (k a) (safe_post P) v"
  shows "wp (Sys c k) (safe_post P) w"
proof -
  have "wp (k a) (safe_post P) (k_step c a w)" if "k_ok c a w" for a
  proof (cases "a_ret a < 0")
    case True
    then have "has_fds fds snt (k_step c a w)" using assms(1,2) by (auto simp: has_fds_def k_step_def effect_def)
    then show ?thesis using True assms(3) by blast
  next
    case False
    then have "has_fds (insert (a_ret a) fds) snt (k_step c a w)" "a_ret a \<notin> fds"
      using assms(1,2) that by (auto simp: has_fds_def k_defs)
    then show ?thesis using False assms(4) by simp
  qed
  then show ?thesis using assms(1) by (simp add: has_fds_def)
qed

lemma safe_close:
  assumes "has_fds fds snt w" and "fd \<in> fds" and "\<And>a v. has_fds (fds - {fd}) snt v \<Longrightarrow> wp (k a) (safe_post P) v"
  shows "wp (Sys (C_close fd) k) (safe_post P) w"
proof -
  have "has_fds (fds - {fd}) snt (k_step (C_close fd) a w)" for a using assms(1,2) by (auto simp: has_fds_def k_step_def effect_def)
  then show ?thesis using assms(1,3) by (auto simp: has_fds_def)
qed

lemma safe_pipe:
  assumes "has_fds fds snt w"
    and "\<And>a v. a_ret a = -1 \<Longrightarrow> has_fds fds snt v \<Longrightarrow> wp (k a) (safe_post P) v"
    and "\<And>a x y i j v. a_ret a = 0 \<Longrightarrow> a_evs a = [(x, i), (y, j)] \<Longrightarrow> x \<noteq> y \<Longrightarrow> x \<notin> fds \<Longrightarrow> y \<notin> fds \<Longrightarrow> 0 \<le> x \<Longrightarrow> 0 \<le> y \<Longrightarrow>
        has_fds (insert x (insert y fds)) snt v \<Longrightarrow> wp (k a) (safe_post P) v"
  shows "wp (Sys C_pipe k) (safe_post P) w"
proof -
  have "wp (k a) (safe_post P) (k_step C_pipe a w)" if ok: "k_ok C_pipe a w" for a
  proof (cases "a_ret a = -1")
    case True
    then have "has_fds fds snt (k_step C_pipe a w)" using assms(1) by (auto simp: has_fds_def k_step_def effect_def)
    then show ?thesis using True assms(2) by blast
  next
    case False
    then obtain x i y j where e: "a_evs a = [(x, i), (y, j)]" "a_ret a = 0"
      using ok by (auto simp: k_ok_def length_Suc_conv eval_nat_numeral)
    then have "x \<noteq> y" "x \<notin> fds" "y \<notin> fds" "0 \<le> x" "0 \<le> y" "has_fds (insert x (insert y fds)) snt (k_step C_pipe a w)"
      using ok assms(1) by (auto simp: has_fds_def k_ok_def k_step_def effect_def)
    then show ?thesis using e assms(3) by blast
  qed
  then show ?thesis using assms(1) by (simp add: has_fds_def)
qed

lemma safe_send:
  assumes "has_fds fds snt w" and "fd \<in> fds" and "c = C_send fd bs \<or> c = C_write fd bs"
    and "\<And>a v. has_fds fds (snt @ [(fd, bs)]) v \<Longrightarrow> wp (k a) (safe_post P) v"
  shows "wp (Sys c k) (safe_post P) w"
proof -
  have "has_fds fds (snt @ [(fd, bs)]) (k_step c a w)" for a using assms(1-3) by (auto simp: has_fds_def k_step_def effect_def)
  then show ?thesis using assms(1,4) by (auto simp: has_fds_def)
qed

lemma filledD: "k_ok (C_recv fd n) a w \<Longrightarrow> a_ret a \<le> int n \<and> length (a_data a) = nat (a_ret a)"
  "k_ok (C_read fd n) a w \<Longrightarrow> a_ret a \<le> int n \<and> length (a_data a) = nat (a_ret a) \<and> -1 \<le> a_ret a"
  by (auto simp: k_defs)

section \<open>Balanced programs\<close>

text \<open>
  Started with exactly the descriptors \<open>from\<close> open, the program never names another one, neither faults nor
  exits, and ends with exactly \<open>to\<close> open. The rules follow the syntax of the program.
\<close>

definition moves_fds :: "int set \<Rightarrow> int set \<Rightarrow> 'a prog \<Rightarrow> bool" where
  "moves_fds from to p \<longleftrightarrow>
     (\<forall>w. \<not> w_bad w \<and> w_fds w = from \<longrightarrow> wp p (safe_post (\<lambda>_ v. \<not> w_bad v \<and> w_fds v = to)) w)"

fun data_ok :: "call \<Rightarrow> ans \<Rightarrow> bool" where
  "data_ok (C_read fd n) a = filled n a"
| "data_ok (C_recv fd n) a = filled n a"
| "data_ok (C_readv fd ns) a = filled (sum_list ns) a"
| "data_ok c a = True"

fun moves_none :: "call \<Rightarrow> bool" where
  "moves_none (C_send fd bs) = True"
| "moves_none (C_write fd bs) = True"
| "moves_none (C_writev fd bss) = True"
| "moves_none c = plain_call c"

fun opens_one :: "call \<Rightarrow> bool" where
  "opens_one (C_open p) = True"
| "opens_one (C_newfd p) = True"
| "opens_one (C_create p) = True"
| "opens_one C_socket = True"
| "opens_one C_epoll_create = True"
| "opens_one c = False"

text \<open>What has to hold before a call, by the kind of the call.\<close>

definition moves_pre :: "call \<Rightarrow> int set \<Rightarrow> int set \<Rightarrow> (ans \<Rightarrow> 'a prog) \<Rightarrow> bool" where
  "moves_pre c F T k \<longleftrightarrow>
     (if opens_one c
      then (\<forall>a. a_ret a = -1 \<longrightarrow> moves_fds F T (k a))
         \<and> (\<forall>a. 0 \<le> a_ret a \<longrightarrow> a_ret a \<notin> F \<longrightarrow> moves_fds (insert (a_ret a) F) T (k a))
      else if c = C_pipe
      then (\<forall>a. a_ret a = -1 \<longrightarrow> moves_fds F T (k a))
         \<and> (\<forall>a x y i j. a_ret a = 0 \<longrightarrow> a_evs a = [(x, i), (y, j)] \<longrightarrow> x \<noteq> y \<longrightarrow> x \<notin> F \<longrightarrow> y \<notin> F \<longrightarrow>
              moves_fds (insert x (insert y F)) T (k a))
      else if moves_none c then set (named_fds c) \<subseteq> F \<and> (\<forall>a. data_ok c a \<longrightarrow> moves_fds F T (k a))
      else (\<exists>fd. c = C_close fd \<and> fd \<in> F \<and> (\<forall>a. moves_fds (F - {fd}) T (k a))))"

lemma moves_Ret: "moves_fds F F (Ret x)"
  by (simp add: moves_fds_def)

lemma moves_More: "moves_fds F G More"
  by (simp add: moves_fds_def)

lemma moves_step:
  assumes "set (named_fds c) \<subseteq> F"
    and "\<And>a w. k_ok c a w \<Longrightarrow> \<not> w_bad w \<Longrightarrow> w_fds w = F \<Longrightarrow> \<exists>G. w_fds (k_step c a w) = G \<and> moves_fds G T (k a)"
  shows "moves_fds F T (Sys c k)"
  unfolding moves_fds_def
proof (intro allI impI)
  fix w :: world
  assume w: "\<not> w_bad w \<and> w_fds w = F"
  have bad: "\<not> w_bad (k_step c a w)" for a using w assms(1) by (cases c) (auto simp: k_step_def effect_def)
  show "wp (Sys c k) (safe_post (\<lambda>_ v. \<not> w_bad v \<and> w_fds v = T)) w"
    using w assms(2) bad by (auto simp: moves_fds_def)
qed

lemma moves_plain:
  assumes "moves_none c" and "set (named_fds c) \<subseteq> F" and "\<And>a. data_ok c a \<Longrightarrow> moves_fds F T (k a)"
  shows "moves_fds F T (Sys c k)"
proof (rule moves_step [OF assms(2)])
  fix a w
  assume "k_ok c a w" "w_fds w = F"
  moreover have "data_ok c a" using \<open>k_ok c a w\<close> by (cases c) (auto simp: k_ok_def)
  moreover have "w_fds (k_step c a w) = w_fds w" using assms(1) by (cases c) (auto simp: k_step_def effect_def)
  ultimately show "\<exists>G. w_fds (k_step c a w) = G \<and> moves_fds G T (k a)" using assms(3) by auto
qed

lemma moves_close: "fd \<in> F \<Longrightarrow> (\<And>a. moves_fds (F - {fd}) T (k a)) \<Longrightarrow> moves_fds F T (Sys (C_close fd) k)"
  by (rule moves_step) (auto simp: k_step_def effect_def)

lemma moves_open:
  assumes "opens_one c" and "\<And>a. a_ret a = -1 \<Longrightarrow> moves_fds F T (k a)"
    and "\<And>a. 0 \<le> a_ret a \<Longrightarrow> a_ret a \<notin> F \<Longrightarrow> moves_fds (insert (a_ret a) F) T (k a)"
  shows "moves_fds F T (Sys c k)"
proof (rule moves_step)
  show "set (named_fds c) \<subseteq> F" using assms(1) by (cases c) auto
  fix a w
  assume a: "k_ok c a w" "w_fds w = F"
  have "w_fds (k_step c a w) = w_fds w \<union> (if 0 \<le> a_ret a then {a_ret a} else {})" "fresh_fd w (a_ret a)"
    using a assms(1) by (cases c; auto simp: k_step_def effect_def k_ok_def)+
  then show "\<exists>G. w_fds (k_step c a w) = G \<and> moves_fds G T (k a)"
    using a(2) assms(2,3) [of a] by (cases "a_ret a = -1") (auto simp: fresh_fd_def)
qed

lemma moves_pipe:
  assumes "\<And>a. a_ret a = -1 \<Longrightarrow> moves_fds F T (k a)"
    and "\<And>a x y i j. a_ret a = 0 \<Longrightarrow> a_evs a = [(x, i), (y, j)] \<Longrightarrow> x \<noteq> y \<Longrightarrow> x \<notin> F \<Longrightarrow> y \<notin> F \<Longrightarrow>
        moves_fds (insert x (insert y F)) T (k a)"
  shows "moves_fds F T (Sys C_pipe k)"
proof (rule moves_step)
  fix a w
  assume a: "k_ok C_pipe a w" "w_fds w = F"
  show "\<exists>G. w_fds (k_step C_pipe a w) = G \<and> moves_fds G T (k a)"
  proof (cases "a_ret a = -1")
    case True
    then show ?thesis using a(2) assms(1) by (simp add: k_step_def effect_def)
  next
    case False
    then obtain x i y j where e: "a_evs a = [(x, i), (y, j)]" "a_ret a = 0"
      using a(1) by (auto simp: k_ok_def length_Suc_conv eval_nat_numeral)
    then have "x \<noteq> y" "x \<notin> F" "y \<notin> F" "w_fds (k_step C_pipe a w) = insert x (insert y F)"
      using a by (auto simp: k_ok_def k_step_def effect_def)
    then show ?thesis using e assms(2) [of a x i y j] by simp
  qed
qed simp

lemma moves_if: "(b \<Longrightarrow> moves_fds F T p) \<Longrightarrow> (\<not> b \<Longrightarrow> moves_fds F T q) \<Longrightarrow> moves_fds F T (if b then p else q)"
  by simp

lemma moves_at_index: "0 \<le> i \<Longrightarrow> i < int n \<Longrightarrow> moves_fds F T p \<Longrightarrow> moves_fds F T (at_index n i p)"
  by (simp add: at_index_def)

lemma moves_bind:
  assumes "moves_fds F G p" and "\<And>x. moves_fds G T (f x)"
  shows "moves_fds F T (bindp p f)"
  unfolding moves_fds_def
proof (intro allI impI)
  fix w :: world
  assume "\<not> w_bad w \<and> w_fds w = F"
  then have "wp p (safe_post (\<lambda>_ v. \<not> w_bad v \<and> w_fds v = G)) w" using assms(1) by (simp add: moves_fds_def)
  then show "wp (bindp p f) (safe_post (\<lambda>_ v. \<not> w_bad v \<and> w_fds v = T)) w"
    by (rule safe_bind) (use assms(2) in \<open>simp add: moves_fds_def\<close>)
qed

lemma moves_sys: "moves_pre c F T k \<Longrightarrow> moves_fds F T (Sys c k)"
  unfolding moves_pre_def
  by (auto split: if_splits intro: moves_plain moves_close moves_open moves_pipe)

lemma moves_banner: "moves_fds F T p \<Longrightarrow> moves_fds F T (banner title p)"
  unfolding banner_def by (intro moves_plain) simp_all

lemmas moves_rules = moves_Ret moves_More moves_sys moves_if moves_at_index moves_banner

lemmas moves_simps = moves_pre_def

lemma moves_run:
  assumes "moves_fds F T p" and "\<not> w_bad w" and "w_fds w = F" and "legal p as w" and "exec p as w = (r, w')"
  shows "\<not> w_bad w' \<and> (r = Unfinished \<or> (\<exists>x. r = Done x) \<and> w_fds w' = T)"
proof -
  have "wp p (safe_post (\<lambda>_ v. \<not> w_bad v \<and> w_fds v = T)) w" using assms(1-3) by (simp add: moves_fds_def)
  from wp_sound [OF this assms(4,5)] show ?thesis by (cases r) auto
qed

end
