(* ===== verification/Tcp_Server.thy ===== *)
theory Tcp_Server
  imports Sys_Prog
begin

unbundle bit_operations_syntax

text \<open>
  \<^verbatim>\<open>07_networking/tcp_server.c\<close>: the epoll echo server, every function. \<^verbatim>\<open>g_running\<close> is a flag a signal handler
  clears at any time, so each test of it is a question to the environment. The server loop is unrolled
  \<open>fuel\<close> times; the theorems hold for every \<open>fuel\<close>.

  Shown: for every answer of the kernel, no access outside the two buffers; descriptors are balanced on
  every path of \<^verbatim>\<open>create_server_socket\<close>; the loop never touches a descriptor it has closed, however
  the kernel reuses descriptor numbers; and what is echoed.
\<close>

section \<open>Functions of the server\<close>

abbreviation F_GETFL :: nat where "F_GETFL \<equiv> 3"
abbreviation F_SETFL :: nat where "F_SETFL \<equiv> 4"
abbreviation O_NONBLOCK :: int where "O_NONBLOCK \<equiv> 2048"
abbreviation SO_REUSEADDR :: nat where "SO_REUSEADDR \<equiv> 2"
abbreviation SO_KEEPALIVE :: nat where "SO_KEEPALIVE \<equiv> 9"
abbreviation SO_REUSEPORT :: nat where "SO_REUSEPORT \<equiv> 15"
abbreviation EPOLLERR :: nat where "EPOLLERR \<equiv> 8"
abbreviation EPOLLHUP :: nat where "EPOLLHUP \<equiv> 16"
abbreviation EPOLLRDHUP :: nat where "EPOLLRDHUP \<equiv> 8192"
abbreviation MAX_EVENTS :: nat where "MAX_EVENTS \<equiv> 64"
abbreviation TCP_BUF_SIZE :: nat where "TCP_BUF_SIZE \<equiv> 1024"

definition set_nonblocking :: "int \<Rightarrow> int prog" where
  "set_nonblocking fd =
     Sys (C_fcntl fd F_GETFL 0) (\<lambda>a.
       let flags = a_ret a
       in if flags < 0 then Ret (-1)
          else Sys (C_fcntl fd F_SETFL (flags OR O_NONBLOCK)) (\<lambda>b. Ret (a_ret b)))"

text \<open>The port is cut to 16 bits for \<^verbatim>\<open>bind\<close> and printed as it is.\<close>

definition create_server_socket :: "int \<Rightarrow> int prog" where
  "create_server_socket port =
     Sys C_socket (\<lambda>a.
       let sfd = a_ret a
       in if sfd < 0 then ignore (C_print ''socket'') (Ret (-1))
          else ignore (C_setsockopt sfd SO_REUSEADDR) (ignore (C_setsockopt sfd SO_REUSEPORT)
            (ignore (C_setsockopt sfd SO_KEEPALIVE)
              (Sys (C_bind sfd (port mod 2 ^ 16)) (\<lambda>b.
                 if a_ret b < 0 then ignore (C_print ''bind'') (ignore (C_close sfd) (Ret (-1)))
                 else Sys (C_listen sfd) (\<lambda>l.
                   if a_ret l < 0 then ignore (C_print ''listen'') (ignore (C_close sfd) (Ret (-1)))
                   else bindp (set_nonblocking sfd) (\<lambda>_.
                     getpid (\<lambda>me.
                       ignore (C_print (''[SERVER] Listening on port '' @ dec_int port @ '' (PID '' @ dec_int me @ '')''))
                         (ignore (C_print (''[SERVER] Connect with:  nc 127.0.0.1 '' @ dec_int port))
                           (ignore (C_print ''[SERVER] Stop with:     Ctrl-C or SIGTERM'') (Ret sfd)))))))))))"

definition handle_new_connection :: "int \<Rightarrow> int \<Rightarrow> unit prog" where
  "handle_new_connection epfd sfd =
     Sys (C_accept sfd) (\<lambda>a.
       let cfd = a_ret a
       in if cfd < 0
          then (if a_err a \<noteq> EAGAIN then ignore (C_print ''accept4'') (Ret ()) else Ret ())
          else ignore (C_print (''[SERVER] New client: '' @ peer_text a @ ''  (fd='' @ dec_int cfd @ '')''))
                 (ignore (C_epoll_ctl epfd True cfd) (Ret ())))"

text \<open>\<^verbatim>\<open>snprintf\<close> returns the length of the whole text; \<^verbatim>\<open>send\<close> reads that many bytes of \<^verbatim>\<open>resp\<close>.\<close>

definition echo_reply :: "string \<Rightarrow> string" where
  "echo_reply s = ''ECHO: '' @ s"

definition handle_client :: "int \<Rightarrow> int \<Rightarrow> unit prog" where
  "handle_client epfd cfd =
     Sys (C_recv cfd (TCP_BUF_SIZE - 1)) (\<lambda>a.
       let n = a_ret a
       in if n \<le> 0
          then ignore (C_print (''[SERVER] Client fd='' @ dec_int cfd @ '' disconnected''))
                 (ignore (C_epoll_ctl epfd False cfd) (ignore (C_close cfd) (Ret ())))
          else at_index TCP_BUF_SIZE n
                 (let buf = cstr (a_data a @ [NUL]);
                      resp = snprintf_bytes (TCP_BUF_SIZE + 16) (echo_reply buf);
                      rlen = length (echo_reply buf)
                  in ignore (C_print (''[SERVER] fd='' @ dec_int cfd @ '' received ('' @ dec_int n @ '' bytes): '' @ buf))
                       (if rlen \<le> length resp then ignore (C_send cfd (take rlen resp)) (Ret ())
                        else Fault Out_Of_Bounds)))"

definition handle_event :: "int \<Rightarrow> int \<Rightarrow> int \<times> nat \<Rightarrow> unit prog" where
  "handle_event epfd sfd ev =
     (let fd = fst ev
      in if fd = sfd then handle_new_connection epfd sfd
         else if snd ev AND (EPOLLRDHUP OR EPOLLHUP OR EPOLLERR) \<noteq> 0
         then ignore (C_print (''[SERVER] fd='' @ dec_int fd @ '': peer closed / error''))
                (ignore (C_epoll_ctl epfd False fd) (ignore (C_close fd) (Ret ())))
         else handle_client epfd fd)"

primrec handle_events :: "int \<Rightarrow> int \<Rightarrow> (int \<times> nat) list \<Rightarrow> unit prog" where
  "handle_events epfd sfd [] = Ret ()"
| "handle_events epfd sfd (ev # evs) = bindp (handle_event epfd sfd ev) (\<lambda>_. handle_events epfd sfd evs)"

primrec server_loop :: "nat \<Rightarrow> int \<Rightarrow> int \<Rightarrow> unit prog" where
  "server_loop 0 epfd sfd = More"
| "server_loop (Suc fuel) epfd sfd =
     Sys (C_misc ''g_running'') (\<lambda>g.
       if a_ret g = 0 then Ret ()
       else Sys (C_epoll_wait epfd MAX_EVENTS) (\<lambda>a.
         bindp (handle_events epfd sfd (a_evs a)) (\<lambda>_. server_loop fuel epfd sfd)))"

text \<open>\<^verbatim>\<open>main\<close> after the socket and the epoll instance exist, and as a whole.\<close>

definition serve :: "nat \<Rightarrow> int \<Rightarrow> int \<Rightarrow> int prog" where
  "serve fuel epfd sfd =
     ignore (C_epoll_ctl epfd True sfd)
       (bindp (server_loop fuel epfd sfd) (\<lambda>_.
          ignore (C_print ''[SERVER] Shutting down.'') (ignore (C_close epfd) (ignore (C_close sfd) (Ret 0)))))"

definition tcp_server_main :: "nat \<Rightarrow> int \<Rightarrow> int prog" where
  "tcp_server_main fuel port =
     ignore (C_misc ''signal SIGTERM sigterm_handler'')
       (ignore (C_misc ''signal SIGINT sigterm_handler'')
         (ignore (C_misc ''signal SIGPIPE SIG_IGN'')
           (bindp (create_server_socket port) (\<lambda>sfd.
              if sfd < 0 then Ret 1
              else Sys C_epoll_create (\<lambda>e. serve fuel (a_ret e) sfd)))))"

section \<open>Descriptors\<close>

text \<open>
  What a part of the server has open: \<open>keep\<close> was open before it started and stays so; registrations
  are of open descriptors other than the epoll instance and not among \<open>keep\<close>.
\<close>

definition srv_inv :: "int set \<Rightarrow> int \<Rightarrow> int \<Rightarrow> world \<Rightarrow> bool" where
  "srv_inv keep epfd sfd w \<longleftrightarrow> \<not> w_bad w \<and> keep \<subseteq> w_fds w \<and> epfd \<in> w_fds w \<and> sfd \<in> w_fds w \<and> epfd \<noteq> sfd
     \<and> epfd \<notin> keep \<and> sfd \<notin> keep \<and> (\<forall>fd. (epfd, fd) \<in> w_reg w \<longrightarrow> fd \<in> w_fds w \<and> fd \<noteq> epfd \<and> fd \<notin> keep)
     \<and> list_all (\<lambda>(fd, bs). \<exists>s. bs = echo_reply s) (w_sent w)"

definition ready :: "int set \<Rightarrow> int \<Rightarrow> (int \<times> nat) list \<Rightarrow> world \<Rightarrow> bool" where
  "ready keep epfd evs w \<longleftrightarrow> distinct (map fst evs) \<and> (\<forall>fd \<in> fst ` set evs. fd \<in> w_fds w \<and> fd \<noteq> epfd \<and> fd \<notin> keep)"

text \<open>A part of the loop that keeps the invariant and the descriptors in \<open>rest\<close>, never faults and never exits.\<close>

definition srv_post :: "int set \<Rightarrow> int \<Rightarrow> int \<Rightarrow> int set \<Rightarrow> unit outcome \<Rightarrow> world \<Rightarrow> bool" where
  "srv_post keep epfd sfd rest r w \<longleftrightarrow>
     (case r of Done x \<Rightarrow> srv_inv keep epfd sfd w \<and> rest \<subseteq> w_fds w | Unfinished \<Rightarrow> \<not> w_bad w | _ \<Rightarrow> False)"

lemma srv_post_simps [simp]:
  "srv_post keep epfd sfd rest (Done x) w = (srv_inv keep epfd sfd w \<and> rest \<subseteq> w_fds w)"
  "srv_post keep epfd sfd rest Unfinished w = (\<not> w_bad w)"
  "\<not> srv_post keep epfd sfd rest (Exited n) w" "\<not> srv_post keep epfd sfd rest (Faulted e) w"
  by (simp_all add: srv_post_def)

lemma echo_fits: "length d \<le> TCP_BUF_SIZE - 1 \<Longrightarrow>
    length (echo_reply (cstr (d @ [NUL]))) \<le> length (snprintf_bytes (TCP_BUF_SIZE + 16) (echo_reply (cstr (d @ [NUL]))))
    \<and> take (length (echo_reply (cstr (d @ [NUL])))) (snprintf_bytes (TCP_BUF_SIZE + 16) (echo_reply (cstr (d @ [NUL]))))
        = echo_reply (cstr (d @ [NUL]))"
  using cstr_length [of "d @ [NUL]"] by (simp add: snprintf_bytes_def echo_reply_def)

lemma new_connection_wp:
  "srv_inv keep epfd sfd w \<Longrightarrow> rest \<subseteq> w_fds w \<Longrightarrow> wp (handle_new_connection epfd sfd) (srv_post keep epfd sfd rest) w"
  by (auto simp: handle_new_connection_def srv_inv_def Let_def k_defs)

lemma drop_client_wp:
  assumes "srv_inv keep epfd sfd w" and "cfd \<in> w_fds w" "cfd \<noteq> epfd" "cfd \<noteq> sfd" "cfd \<notin> keep" and "rest \<subseteq> w_fds w - {cfd}"
  shows "wp (ignore (C_print s) (ignore (C_epoll_ctl epfd False cfd) (ignore (C_close cfd) (Ret ())))) (srv_post keep epfd sfd rest) w"
  using assms by (auto simp: srv_inv_def k_defs)

lemma client_wp:
  assumes inv: "srv_inv keep epfd sfd w" and fd: "cfd \<in> w_fds w" "cfd \<noteq> epfd" "cfd \<noteq> sfd" "cfd \<notin> keep"
    and rest: "rest \<subseteq> w_fds w - {cfd}"
  shows "wp (handle_client epfd cfd) (srv_post keep epfd sfd rest) w"
proof -
  let ?c = "C_recv cfd (TCP_BUF_SIZE - 1)"
  have step: "k_step ?c a w = w" for a using inv fd by (simp add: k_defs srv_inv_def)
  have "wp (if a_ret a \<le> 0
      then ignore (C_print (''[SERVER] Client fd='' @ dec_int cfd @ '' disconnected''))
             (ignore (C_epoll_ctl epfd False cfd) (ignore (C_close cfd) (Ret ())))
      else at_index TCP_BUF_SIZE (a_ret a)
             (let buf = cstr (a_data a @ [NUL]);
                  resp = snprintf_bytes (TCP_BUF_SIZE + 16) (echo_reply buf);
                  rlen = length (echo_reply buf)
              in ignore (C_print (''[SERVER] fd='' @ dec_int cfd @ '' received ('' @ dec_int (a_ret a) @ '' bytes): '' @ buf))
                   (if rlen \<le> length resp then ignore (C_send cfd (take rlen resp)) (Ret ())
                    else Fault Out_Of_Bounds))) (srv_post keep epfd sfd rest) w"
    if ok: "k_ok ?c a w" for a
  proof (cases "a_ret a \<le> 0")
    case True
    then show ?thesis using drop_client_wp [OF assms] by simp
  next
    case False
    have n: "a_ret a < int TCP_BUF_SIZE" "length (a_data a) \<le> TCP_BUF_SIZE - 1" using ok by (auto simp: k_defs)
    show ?thesis
      using False n(1) echo_fits [OF n(2)] inv fd rest
      by (auto simp: Let_def k_defs srv_inv_def)
  qed
  then show ?thesis using inv step by (simp add: handle_client_def Let_def srv_inv_def)
qed

lemma event_wp:
  assumes "srv_inv keep epfd sfd w" and "ready keep epfd (ev # evs) w"
  shows "wp (handle_event epfd sfd ev) (srv_post keep epfd sfd (fst ` set evs)) w"
proof -
  have fd: "fst ev \<in> w_fds w" "fst ev \<noteq> epfd" "fst ev \<notin> keep" "fst ` set evs \<subseteq> w_fds w - {fst ev}"
    using assms(2) unfolding ready_def by (simp_all, blast)
  show ?thesis
  proof (cases "fst ev = sfd")
    case True
    then show ?thesis using new_connection_wp [OF assms(1)] fd by (auto simp: handle_event_def)
  next
    case False
    then show ?thesis
      using drop_client_wp [OF assms(1) fd(1,2) _ fd(3,4)] client_wp [OF assms(1) fd(1,2) _ fd(3,4)]
      unfolding handle_event_def Let_def by (simp del: wp.simps)
  qed
qed

lemma events_wp:
  "srv_inv keep epfd sfd w \<Longrightarrow> ready keep epfd evs w \<Longrightarrow> wp (handle_events epfd sfd evs) (srv_post keep epfd sfd {}) w"
proof (induction evs arbitrary: w)
  case Nil
  then show ?case by simp
next
  case (Cons ev evs)
  have "wp_cont (\<lambda>_. handle_events epfd sfd evs) (srv_post keep epfd sfd {}) r v"
    if "srv_post keep epfd sfd (fst ` set evs) r v" for r v
    using that Cons.IH [of v] Cons.prems(2) by (cases r) (auto simp: ready_def)
  then show ?case
    unfolding handle_events.simps wp_bind by (rule wp_mono [OF event_wp [OF Cons.prems]])
qed

lemma loop_wp: "srv_inv keep epfd sfd w \<Longrightarrow> wp (server_loop fuel epfd sfd) (srv_post keep epfd sfd {}) w"
proof (induction fuel arbitrary: w)
  case 0
  then show ?case by (simp add: srv_inv_def)
next
  case (Suc fuel)
  have cont: "wp_cont (\<lambda>_. server_loop fuel epfd sfd) (srv_post keep epfd sfd {}) r v"
    if "srv_post keep epfd sfd {} r v" for r v
    using that Suc.IH [of v] by (cases r) auto
  have misc: "k_step (C_misc ''g_running'') g w = w" for g using Suc.prems by (simp add: k_defs srv_inv_def)
  have "wp (bindp (handle_events epfd sfd (a_evs a)) (\<lambda>_. server_loop fuel epfd sfd)) (srv_post keep epfd sfd {})
      (k_step (C_epoll_wait epfd MAX_EVENTS) a w)" if "k_ok (C_epoll_wait epfd MAX_EVENTS) a w" for a
  proof -
    have "k_step (C_epoll_wait epfd MAX_EVENTS) a w = w" using Suc.prems by (simp add: k_defs srv_inv_def)
    moreover have "ready keep epfd (a_evs a) w" using that Suc.prems by (auto simp: k_defs srv_inv_def ready_def)
    ultimately show ?thesis unfolding wp_bind using events_wp [OF Suc.prems] cont by (auto intro: wp_mono)
  qed
  then show ?case using Suc.prems misc by (simp add: srv_inv_def)
qed

lemma serve_wp:
  assumes "\<not> w_bad w" "w_reg w = {}" "w_sent w = []" and "epfd \<in> w_fds w" "sfd \<in> w_fds w" "epfd \<noteq> sfd"
    and keep: "keep \<subseteq> w_fds w" "epfd \<notin> keep" "sfd \<notin> keep"
  shows "wp (serve fuel epfd sfd)
    (\<lambda>r w'. \<not> w_bad w' \<and> (r = Unfinished \<or> r = Done 0 \<and> keep \<subseteq> w_fds w' \<and> epfd \<notin> w_fds w' \<and> sfd \<notin> w_fds w'
        \<and> list_all (\<lambda>(fd, bs). \<exists>s. bs = echo_reply s) (w_sent w'))) w" (is "wp _ ?Q w")
proof -
  have inv: "srv_inv keep epfd sfd (k_step (C_epoll_ctl epfd True sfd) a w)" for a
    using assms by (auto simp: k_defs srv_inv_def)
  have cont: "wp_cont (\<lambda>_. ignore (C_print ''[SERVER] Shutting down.'') (ignore (C_close epfd) (ignore (C_close sfd) (Ret 0)))) ?Q r v"
    if "srv_post keep epfd sfd {} r v" for r v
    using that by (cases r) (auto simp: k_defs srv_inv_def)
  have "wp (bindp (server_loop fuel epfd sfd) (\<lambda>_.
      ignore (C_print ''[SERVER] Shutting down.'') (ignore (C_close epfd) (ignore (C_close sfd) (Ret 0))))) ?Q
      (k_step (C_epoll_ctl epfd True sfd) a w)" for a
    unfolding wp_bind by (rule wp_mono [OF loop_wp [OF inv] cont])
  then show ?thesis using assms(1) by (simp add: serve_def)
qed

interpretation css: fd_opener "create_server_socket port" for port
proof (unfold_locales, goal_cases)
  case (1 w)
  then show ?case
    by (auto simp: create_server_socket_def set_nonblocking_def Let_def kept_def k_defs)
qed

section \<open>Properties\<close>

text \<open>
  \<^verbatim>\<open>create_server_socket\<close>, whatever the kernel answers: it never touches a descriptor that is not open; a
  negative result means that no descriptor was left open, any other result is exactly one new one.
\<close>

theorem create_server_socket_balanced:
  assumes "\<not> w_bad w" and "legal (create_server_socket port) as w" and "exec (create_server_socket port) as w = (Done n, w')"
  shows "\<not> w_bad w' \<and> (if n < 0 then w_fds w' = w_fds w else n \<notin> w_fds w \<and> w_fds w' = insert n (w_fds w))"
  using css.run_opened [OF assms] by (auto simp: kept_def)

definition ok_ans :: "int \<Rightarrow> ans" where
  "ok_ans r = \<lparr>a_ret = r, a_err = 0, a_data = [], a_evs = []\<rparr>"

theorem create_server_socket_balanced_witness:
  "w_fds (snd (exec (create_server_socket 8080) (map ok_ans [3, 0, 0, 0, -1, 0, 0]) world0)) = {0, 1, 2}"
proof -
  let ?as = "map ok_ans [3, 0, 0, 0, -1, 0, 0]"
  have l: "legal (create_server_socket 8080) ?as world0"
    by (simp add: create_server_socket_def set_nonblocking_def ok_ans_def Let_def k_defs world0_def)
  have e: "exec (create_server_socket 8080) ?as world0
      = (Done (-1), snd (exec (create_server_socket 8080) ?as world0))"
    by (simp add: create_server_socket_def set_nonblocking_def ok_ans_def Let_def)
  have "\<not> w_bad world0" by (simp add: world0_def)
  then show ?thesis using create_server_socket_balanced [OF _ l e] by (simp add: world0_def)
qed


text \<open>One client connects, sends a line, hangs up; then the server is told to stop.\<close>

definition serve_script :: "ans list" where
  "serve_script =
     [ok_ans 0, ok_ans 1, (ok_ans 1)\<lparr>a_evs := [(3, 1)]\<rparr>, ok_ans 5, ok_ans 0, ok_ans 0,
      ok_ans 1, (ok_ans 1)\<lparr>a_evs := [(5, 1)]\<rparr>, (ok_ans 2)\<lparr>a_data := ''hi''\<rparr>, ok_ans 0, ok_ans 8,
      ok_ans 1, (ok_ans 1)\<lparr>a_evs := [(5, 8193)]\<rparr>, ok_ans 0, ok_ans 0, ok_ans 0,
      ok_ans 0, ok_ans 0, ok_ans 0, ok_ans 0]"


text \<open>
  \<^verbatim>\<open>handle_client\<close>: the bytes received (at most 1023) are echoed behind "ECHO: " up to the first NUL byte among
  them; when nothing is received, the client's descriptor is unregistered and closed and nothing is sent.
\<close>

theorem handle_client_echo:
  assumes "k_ok (C_recv cfd 1023) a w" and "exec (handle_client epfd cfd) (a # b # c # d # as) w = (Done (), w')"
  shows "if a_ret a \<le> 0 then w_sent w' = w_sent w \<and> w_fds w' = w_fds w - {cfd} \<and> (epfd, cfd) \<notin> w_reg w'
     else w_sent w' = w_sent w @ [(cfd, ''ECHO: '' @ takeWhile (\<lambda>x. x \<noteq> NUL) (a_data a))] \<and> w_fds w' = w_fds w"
proof -
  have n: "a_ret a < int TCP_BUF_SIZE" "length (a_data a) \<le> TCP_BUF_SIZE - 1" using assms(1) by (auto simp: k_defs)
  have "takeWhile (\<lambda>x. x \<noteq> NUL) (xs @ [NUL]) = takeWhile (\<lambda>x. x \<noteq> NUL) xs" for xs
    by (induction xs) auto
  then have "cstr (a_data a @ [NUL]) = takeWhile (\<lambda>x. x \<noteq> NUL) (a_data a)" by (simp add: cstr_def)
  then show ?thesis
    using assms(2) n(1) echo_fits [OF n(2)]
    by (auto simp: handle_client_def at_index_def Let_def k_step_def effect_def echo_reply_def split: if_splits)
qed

theorem handle_client_echo_witness:
  "\<exists>w'. exec (handle_client 4 5) ((ok_ans 2)\<lparr>a_data := ''hi''\<rparr> # replicate 3 (ok_ans 0)) (world0\<lparr>w_fds := {4, 5}\<rparr>) = (Done (), w')
     \<and> w_sent w' = [(5, ''ECHO: hi'')]"
proof -
  let ?a = "(ok_ans 2)\<lparr>a_data := ''hi''\<rparr>" and ?w = "world0\<lparr>w_fds := {4, 5}\<rparr>"
  obtain w' where e: "exec (handle_client 4 5) [?a, ok_ans 0, ok_ans 0, ok_ans 0] ?w = (Done (), w')"
    by (simp add: handle_client_def at_index_def ok_ans_def Let_def snprintf_bytes_def echo_reply_def cstr_def)
  have "k_ok (C_recv 5 1023) ?a ?w" by (simp add: k_defs ok_ans_def)
  then show ?thesis using handle_client_echo [OF _ e] e
    by (intro exI [of _ w']) (simp add: ok_ans_def world0_def numeral_3_eq_3)
qed

text \<open>
  \<^verbatim>\<open>main\<close> does not check \<^verbatim>\<open>epoll_create1\<close>: when it fails, the server goes on with the descriptor -1 instead of
  returning an error, for any number of iterations of its loop.
\<close>

theorem tcp_server_epoll_unchecked:
  "\<exists>as. legal (tcp_server_main fuel port) as world0 \<and> fst (exec (tcp_server_main fuel port) as world0) = Unfinished
     \<and> w_bad (snd (exec (tcp_server_main fuel port) as world0))"
proof (intro exI conjI)
  let ?as = "map ok_ans [0, 0, 0, 3, 0, 0, 0, 0, 0, 0, 0, 0, 0, 0, 0, -1, -1]"
  note run = tcp_server_main_def create_server_socket_def set_nonblocking_def serve_def ok_ans_def k_defs world0_def Let_def
  show "legal (tcp_server_main fuel port) ?as world0" by (cases fuel) (simp_all add: run)
  show "fst (exec (tcp_server_main fuel port) ?as world0) = Unfinished" by (cases fuel) (simp_all add: run)
  show "w_bad (snd (exec (tcp_server_main fuel port) ?as world0))" by (cases fuel) (simp_all add: run)
qed

end
