(* ===== verification/Tcp_Client.thy ===== *)
theory Tcp_Client
  imports Tcp_Server
begin

text \<open>
  \<^verbatim>\<open>07_networking/tcp_client.c\<close>: the timed connect over all addresses of the host and the three messages of
  \<^verbatim>\<open>main\<close>. The answer to \<^verbatim>\<open>getaddrinfo\<close> carries one pair per address; the value \<^verbatim>\<open>getsockopt\<close> stores in \<^verbatim>\<open>so_err\<close>
  is the \<open>a_err\<close> of its answer.

  Shown for every answer: no call names a closed descriptor; the number of open descriptors is balanced on
  every path but one, the early return after \<^verbatim>\<open>getaddrinfo\<close> failed, which leaves the epoll instance open; the
  session sends its messages in order, stays inside its buffer and closes the socket.
\<close>

section \<open>Connecting\<close>

text \<open>The loop over the events: \<open>True\<close> as soon as an event without \<^verbatim>\<open>EPOLLERR\<close> finds no socket error.\<close>

primrec check_events :: "int \<Rightarrow> int \<Rightarrow> (int \<times> nat) list \<Rightarrow> bool prog" where
  "check_events sfd flags [] = Ret False"
| "check_events sfd flags (ev # evs) =
     (if snd ev AND EPOLLERR = 0
      then Sys (C_getsockopt sfd) (\<lambda>a.
             if a_err a = 0 then ignore (C_fcntl sfd F_SETFL flags) (Ret True)
             else check_events sfd flags evs)
      else check_events sfd flags evs)"

definition wait_connected :: "int \<Rightarrow> int \<Rightarrow> int \<Rightarrow> bool prog" where
  "wait_connected epfd sfd flags =
     ignore (C_epoll_ctl epfd True sfd)
       (Sys (C_epoll_wait epfd 4) (\<lambda>e. check_events sfd flags (a_evs e)))"

text \<open>The non-blocking \<^verbatim>\<open>connect\<close> of one socket: \<open>True\<close> when it is connected and back in blocking mode.\<close>

definition try_connect :: "int \<Rightarrow> int \<Rightarrow> bool prog" where
  "try_connect epfd sfd =
     Sys (C_fcntl sfd F_GETFL 0) (\<lambda>f.
       let flags = a_ret f
       in ignore (C_fcntl sfd F_SETFL (flags OR O_NONBLOCK))
            (Sys (C_connect sfd) (\<lambda>c.
               if a_ret c = 0 then ignore (C_fcntl sfd F_SETFL flags) (Ret True)
               else if a_err c = EINPROGRESS then wait_connected epfd sfd flags
               else Ret False)))"

text \<open>One turn per address; the result is the connected socket, or -1.\<close>

primrec connect_addrs :: "int \<Rightarrow> nat \<Rightarrow> int prog" where
  "connect_addrs epfd 0 = Ret (-1)"
| "connect_addrs epfd (Suc n) =
     Sys C_socket (\<lambda>s.
       let sfd = a_ret s
       in if sfd < 0 then connect_addrs epfd n
          else bindp (try_connect epfd sfd) (\<lambda>connected.
                 if connected then Ret sfd else ignore (C_close sfd) (connect_addrs epfd n)))"

definition connect_with_timeout :: "int prog" where
  "connect_with_timeout =
     Sys C_epoll_create (\<lambda>e.
       let epfd = a_ret e
       in if epfd < 0 then ignore (C_print ''epoll_create1'') (Ret (-1))
          else Sys C_getaddrinfo (\<lambda>g.
            if a_ret g \<noteq> 0 then ignore (C_print ''getaddrinfo'') (Ret (-1))
            else bindp (connect_addrs epfd (length (a_evs g))) (\<lambda>sfd.
                   ignore (C_close epfd) (ignore (C_misc ''freeaddrinfo'') (Ret sfd)))))"

section \<open>The session\<close>

definition messages :: "string list" where
  "messages = [''Hello from embedded Linux client!'' @ [CHR 0x0A], ''Demonstrating TCP send/recv'' @ [CHR 0x0A],
     ''TCP_NODELAY is enabled'' @ [CHR 0x0A]]"

primrec exchange :: "int \<Rightarrow> string list \<Rightarrow> unit prog" where
  "exchange sfd [] = Ret ()"
| "exchange sfd (m # ms) =
     ignore (C_send sfd m)
       (Sys (C_recv sfd (TCP_BUF_SIZE - 1)) (\<lambda>a.
          if a_ret a \<le> 0 then Ret ()
          else at_index TCP_BUF_SIZE (a_ret a)
                 (ignore (C_print (''[CLIENT] server replied: '' @ cstr (a_data a @ [NUL])))
                    (ignore (C_misc ''usleep'') (exchange sfd ms)))))"

text \<open>\<^verbatim>\<open>main\<close> once it is connected, for any messages; and \<^verbatim>\<open>main\<close> for a host and a port, 127.0.0.1 and 8080 without arguments.\<close>

definition client_end :: "int \<Rightarrow> int prog" where
  "client_end sfd = ignore (C_close sfd) (ignore (C_print ''[CLIENT] Done.'') (Ret 0))"

definition client_talk :: "int \<Rightarrow> string list \<Rightarrow> int prog" where
  "client_talk sfd ms =
     ignore (C_print (''[CLIENT] Connected (fd='' @ dec_int sfd @ '')''))
       (bindp (exchange sfd ms) (\<lambda>_. client_end sfd))"

definition tcp_client_main :: "string \<Rightarrow> string \<Rightarrow> int prog" where
  "tcp_client_main host port =
     ignore (C_print (''[CLIENT] Connecting to '' @ host @ '':'' @ port @ '' '' @ ellipsis))
       (bindp connect_with_timeout (\<lambda>sfd.
          if sfd < 0 then ignore (C_print ''[CLIENT] Connection failed'') (Ret 1)
          else client_talk sfd messages))"

section \<open>Lemmas\<close>

declare wp.simps(5) [simp del]

lemma check_events_wp:
  "has_fds fds snt w \<Longrightarrow> sfd \<in> fds \<Longrightarrow> wp (check_events sfd flags evs) (safe_post (\<lambda>_. has_fds fds snt)) w"
proof (induction evs arbitrary: w)
  case Nil
  then show ?case by simp
next
  case (Cons ev evs)
  then show ?case by (auto intro!: safe_plain)
qed

lemma wait_connected_wp:
  "has_fds fds snt w \<Longrightarrow> epfd \<in> fds \<Longrightarrow> sfd \<in> fds \<Longrightarrow>
     wp (wait_connected epfd sfd flags) (safe_post (\<lambda>_. has_fds fds snt)) w"
  unfolding wait_connected_def by (intro safe_plain check_events_wp) auto

lemma try_connect_wp:
  assumes "has_fds fds snt w" and "epfd \<in> fds" and "sfd \<in> fds"
  shows "wp (try_connect epfd sfd) (safe_post (\<lambda>_. has_fds fds snt)) w"
proof -
  have reply: "wp (if a_ret c = 0 then ignore (C_fcntl sfd F_SETFL flags) (Ret True)
       else if a_err c = EINPROGRESS then wait_connected epfd sfd flags else Ret False) (safe_post (\<lambda>_. has_fds fds snt)) v"
    if v: "has_fds fds snt v" for c flags v
  proof -
    have "wp (ignore (C_fcntl sfd F_SETFL flags) (Ret True)) (safe_post (\<lambda>_. has_fds fds snt)) v"
      using assms(3) by (intro safe_plain [OF v]) auto
    then show ?thesis using wait_connected_wp [OF v assms(2,3)] v by simp
  qed
  show ?thesis
    unfolding try_connect_def Let_def using assms
    by (intro safe_plain [OF assms(1)] safe_plain reply) (simp_all only: plain_call.simps named_fds.simps, simp_all)
qed

definition conn_post :: "int set \<Rightarrow> (int \<times> byte list) list \<Rightarrow> int \<Rightarrow> world \<Rightarrow> bool" where
  "conn_post fds snt r w \<longleftrightarrow> (if r < 0 then has_fds fds snt w else r \<notin> fds \<and> has_fds (insert r fds) snt w)"

lemma connect_addrs_wp:
  "has_fds fds snt w \<Longrightarrow> epfd \<in> fds \<Longrightarrow> wp (connect_addrs epfd n) (safe_post (conn_post fds snt)) w"
proof (induction n arbitrary: w)
  case 0
  then show ?case by (simp add: conn_post_def)
next
  case (Suc n)
  have next_one: "wp (ignore (C_close sfd) (connect_addrs epfd n)) (safe_post (conn_post fds snt)) v"
    if "has_fds (insert sfd fds) snt v" "sfd \<notin> fds" for sfd v
    using that Suc.IH Suc.prems(2) by (intro safe_close) auto
  have attempt: "wp (bindp (try_connect epfd sfd) (\<lambda>connected. if connected then Ret sfd else ignore (C_close sfd) (connect_addrs epfd n)))
       (safe_post (conn_post fds snt)) v" if "has_fds (insert sfd fds) snt v" "sfd \<notin> fds" "0 \<le> sfd" for sfd v
    using that next_one Suc.prems(2)
    by (intro safe_bind [OF try_connect_wp [OF that(1)]]) (auto simp: conn_post_def)
  show ?case
    unfolding connect_addrs.simps Let_def
    by (rule safe_open [OF Suc.prems(1)]) (use Suc.IH Suc.prems(2) attempt in simp_all)
qed

lemma exchange_wp:
  "has_fds fds snt w \<Longrightarrow> sfd \<in> fds \<Longrightarrow>
     wp (exchange sfd ms) (safe_post (\<lambda>_ w'. \<exists>k \<le> length ms. has_fds fds (snt @ map (Pair sfd) (take k ms)) w')) w"
proof (induction ms arbitrary: snt w)
  case Nil
  then show ?case by simp
next
  case (Cons m ms)
  let ?P = "\<lambda>_ w'. \<exists>k \<le> length (m # ms). has_fds fds (snt @ map (Pair sfd) (take k (m # ms))) w'"
  have one: "?P x v" if "has_fds fds (snt @ [(sfd, m)]) v" for v and x :: unit
    using that by (intro exI [of _ 1]) simp
  have more: "wp (exchange sfd ms) (safe_post ?P) v" if "has_fds fds (snt @ [(sfd, m)]) v" for v
  proof (rule wp_mono [OF Cons.IH [OF that Cons.prems(2)]])
    fix r u
    assume "safe_post (\<lambda>_ w'. \<exists>k \<le> length ms. has_fds fds ((snt @ [(sfd, m)]) @ map (Pair sfd) (take k ms)) w') r u"
    moreover have "?P () u" if "k \<le> length ms" "has_fds fds ((snt @ [(sfd, m)]) @ map (Pair sfd) (take k ms)) u" for k
      using that by (intro exI [of _ "Suc k"]) simp
    ultimately show "safe_post ?P r u" by (cases r) auto
  qed
  have reply: "wp (if a_ret a \<le> 0 then Ret ()
        else at_index TCP_BUF_SIZE (a_ret a)
               (ignore (C_print (''[CLIENT] server replied: '' @ cstr (a_data a @ [NUL])))
                  (ignore (C_misc ''usleep'') (exchange sfd ms)))) (safe_post ?P) v"
    if "k_ok (C_recv sfd (TCP_BUF_SIZE - 1)) a u" "has_fds fds (snt @ [(sfd, m)]) v" for a u v
  proof (cases "a_ret a \<le> 0")
    case True
    then show ?thesis using one [OF that(2)] by simp
  next
    case False
    have "wp (ignore (C_print s) (ignore (C_misc ''usleep'') (exchange sfd ms))) (safe_post ?P) v" for s
      using more by (intro safe_plain [OF that(2)] safe_plain) auto
    then show ?thesis using False filledD(1) [OF that(1)] by simp
  qed
  show ?case
    unfolding exchange.simps
    by (rule safe_send [OF Cons.prems], blast, rule safe_plain, assumption) (use Cons.prems(2) reply in simp_all)
qed

lemma messages_length: "length messages = 3"
  by (simp add: messages_def)

section \<open>Properties\<close>

text \<open>
  C25. \<^verbatim>\<open>connect_with_timeout\<close> after a successful \<^verbatim>\<open>epoll_create1\<close>, whatever the kernel answers and however many
  addresses there are: no call names a closed descriptor; a non-negative result is exactly one new
  descriptor; a negative result leaves none behind, except when \<^verbatim>\<open>getaddrinfo\<close> fails, which leaks the epoll
  instance.
\<close>

theorem connect_with_timeout_balanced:
  assumes "\<not> w_bad w" and "0 \<le> a_ret e" and "legal connect_with_timeout (e # g # as) w"
    and "exec connect_with_timeout (e # g # as) w = (Done n, w')"
  shows "\<not> w_bad w'
     \<and> (if a_ret g \<noteq> 0 then n = -1 \<and> w_fds w' = insert (a_ret e) (w_fds w)
        else if n < 0 then w_fds w' = w_fds w
        else n \<notin> w_fds w \<and> w_fds w' = insert n (w_fds w))"
proof -
  let ?ep = "a_ret e" and ?fds = "insert (a_ret e) (w_fds w)"
  define v where "v = k_step C_getaddrinfo g (k_step C_epoll_create e w)"
  have fresh: "?ep \<notin> w_fds w" using assms(2,3) by (auto simp: connect_with_timeout_def k_defs)
  have v: "has_fds ?fds (w_sent w) v" using assms(1,2) by (simp add: v_def has_fds_def k_step_def effect_def)
  show ?thesis
  proof (cases "a_ret g = 0")
    case False
    let ?p = "ignore (C_print ''getaddrinfo'') (Ret (-1 :: int))"
    have "legal ?p as v" "exec ?p as v = (Done n, w')"
      using False assms(2-4) by (simp_all add: connect_with_timeout_def v_def Let_def)
    moreover have "wp ?p (safe_post (\<lambda>r w'. r = -1 \<and> has_fds ?fds (w_sent w) w')) v" by (intro safe_plain [OF v]) auto
    ultimately have "n = -1 \<and> has_fds ?fds (w_sent w) w'" using wp_sound [of ?p _ v as "Done n" w'] by fastforce
    then show ?thesis using False by (simp add: has_fds_def)
  next
    case True
    let ?free = "\<lambda>sfd :: int. ignore (C_misc ''freeaddrinfo'') (Ret sfd)"
    let ?p = "bindp (connect_addrs ?ep (length (a_evs g))) (\<lambda>sfd. ignore (C_close ?ep) (?free sfd))"
    have run: "legal ?p as v" "exec ?p as v = (Done n, w')"
      using True assms(2-4) by (simp_all add: connect_with_timeout_def v_def Let_def)
    have free: "wp (?free r) (safe_post (conn_post (w_fds w) (w_sent w))) u" if "conn_post (w_fds w) (w_sent w) r u" for r u
      using that by (cases "r < 0") (auto simp: conn_post_def intro!: safe_plain)
    have "wp (ignore (C_close ?ep) (?free r)) (safe_post (conn_post (w_fds w) (w_sent w))) u"
      if "conn_post ?fds (w_sent w) r u" for r u
    proof (cases "r < 0")
      case True
      then have "has_fds ?fds (w_sent w) u" using that by (simp add: conn_post_def)
      then show ?thesis using True fresh by (intro safe_close free) (auto simp: conn_post_def)
    next
      case False
      then have "has_fds (insert r ?fds) (w_sent w) u" "r \<notin> ?fds" using that by (auto simp: conn_post_def)
      then show ?thesis using False fresh by (intro safe_close free) (auto simp: conn_post_def insert_Diff_if)
    qed
    then have "wp ?p (safe_post (conn_post (w_fds w) (w_sent w))) v"
      by (intro safe_bind [OF connect_addrs_wp [OF v]]) auto
    then have "conn_post (w_fds w) (w_sent w) n w'" using wp_sound [OF _ run] by fastforce
    then show ?thesis using True by (auto simp: conn_post_def has_fds_def split: if_splits)
  qed
qed

theorem connect_with_timeout_balanced_witness:
  "w_fds (snd (exec connect_with_timeout (map ok_ans [3, -2, 0]) world0)) = {3, 0, 1, 2}"
proof -
  have "exec connect_with_timeout (ok_ans 3 # ok_ans (-2) # [ok_ans 0]) world0
      = (Done (-1), snd (exec connect_with_timeout (ok_ans 3 # ok_ans (-2) # [ok_ans 0]) world0))"
    and "legal connect_with_timeout (ok_ans 3 # ok_ans (-2) # [ok_ans 0]) world0"
    by (simp_all add: connect_with_timeout_def ok_ans_def Let_def k_defs world0_def)
  then show ?thesis
    using connect_with_timeout_balanced [of world0 "ok_ans 3" "ok_ans (-2)" "[ok_ans 0]" "-1"]
    by (simp add: ok_ans_def world0_def)
qed

text \<open>
  The client's session on a connected socket: it sends the three messages in order, stopping early only when
  no reply comes, never stores outside its buffer, and leaves the socket open for \<^verbatim>\<open>main\<close> to close.
\<close>

theorem client_session:
  assumes "\<not> w_bad w" and "w_sent w = []" and "sfd \<in> w_fds w"
    and "legal (exchange sfd messages) as w" and "exec (exchange sfd messages) as w = (r, w')"
  shows "\<not> w_bad w' \<and> (r = Unfinished
     \<or> r = Done () \<and> w_fds w' = w_fds w \<and> (\<exists>k \<le> 3. w_sent w' = map (Pair sfd) (take k messages)))"
proof -
  have "has_fds (w_fds w) [] w" using assms(1,2) by (simp add: has_fds_def)
  from wp_sound [OF exchange_wp [OF this assms(3)] assms(4,5)] show ?thesis
    by (cases r) (auto simp: has_fds_def messages_length)
qed

theorem client_session_witness:
  "\<not> w_bad (snd (exec (exchange 3 messages) [ok_ans 34, ok_ans 0] (world0\<lparr>w_fds := {3}\<rparr>)))"
  using client_session [of "world0\<lparr>w_fds := {3}\<rparr>" 3 "[ok_ans 34, ok_ans 0]"]
  by (simp add: messages_def ok_ans_def k_defs world0_def)

end
