(* ===== verification/Process_Net.thy ===== *)
theory Process_Net
  imports Sys_Prog Thread_Pool
begin

text \<open>
  Processes that run at the same time over one kernel: a pool whose threads are programs of system calls. A call that
  blocks (\<^verbatim>\<open>read\<close> of an empty pipe, \<^verbatim>\<open>mq_receive\<close> from an empty queue, \<^verbatim>\<open>wait\<close> for a child that runs) is not answered, so the
  process cannot move; returning and exiting are steps of their own.

  The locale \<open>confluent_pool\<close>: when enabled steps of different processes commute, the outcome does not depend on the
  scheduler. One run that ends then speaks for every run: all of them end, within the same number of steps and in the
  same state. \<open>process_net\<close> gets the commuting from conditions on single calls.
\<close>

section \<open>Pools whose steps commute\<close>

definition stuck :: "('s \<Rightarrow> 's \<Rightarrow> bool) \<Rightarrow> 's \<Rightarrow> bool" where
  "stuck step s \<longleftrightarrow> (\<forall>t. \<not> step s t)"

text \<open>Every run from \<open>s\<close> ends, and ends in \<open>t\<close>.\<close>

definition settles :: "('s \<Rightarrow> 's \<Rightarrow> bool) \<Rightarrow> 's \<Rightarrow> 's \<Rightarrow> bool" where
  "settles step s t \<longleftrightarrow> step\<^sup>*\<^sup>* s t \<and> stuck step t
     \<and> (\<exists>n. \<forall>m u. (step ^^ m) s u \<longrightarrow> m \<le> n)
     \<and> (\<forall>u. step\<^sup>*\<^sup>* s u \<longrightarrow> step\<^sup>*\<^sup>* u t \<and> (stuck step u \<longrightarrow> u = t))"

locale confluent_pool =
  fixes tstep :: "nat \<Rightarrow> 'g \<Rightarrow> 'l \<Rightarrow> ('g \<times> 'l) option"
    and pinv :: "'g \<Rightarrow> 'l list \<Rightarrow> bool"
  assumes pinv_step: "pinv g ls \<Longrightarrow> i < length ls \<Longrightarrow> tstep i g (ls ! i) = Some (g', l') \<Longrightarrow> pinv g' (ls[i := l'])"
    and commute: "pinv g ls \<Longrightarrow> i < length ls \<Longrightarrow> j < length ls \<Longrightarrow> i \<noteq> j \<Longrightarrow>
      tstep i g (ls ! i) = Some (g1, l1) \<Longrightarrow> tstep j g (ls ! j) = Some (g2, l2) \<Longrightarrow>
      \<exists>g3. tstep j g1 (ls ! j) = Some (g3, l2) \<and> tstep i g2 (ls ! i) = Some (g3, l1)"
begin

abbreviation pinv_of :: "'g \<times> 'l list \<Rightarrow> bool" where
  "pinv_of s \<equiv> pinv (fst s) (snd s)"

lemma pinv_pool: "pool_step tstep s t \<Longrightarrow> pinv_of s \<Longrightarrow> pinv_of t"
  by (auto simp: pool_step_def intro: pinv_step)

lemma diamond:
  assumes "pinv_of s" and "pool_step tstep s t" and "pool_step tstep s u" and "t \<noteq> u"
  shows "\<exists>v. pool_step tstep t v \<and> pool_step tstep u v"
proof -
  obtain i g1 l1 where i: "i < length (snd s)" "tstep i (fst s) (snd s ! i) = Some (g1, l1)" "t = (g1, (snd s)[i := l1])"
    using assms(2) by (auto simp: pool_step_def)
  obtain j g2 l2 where j: "j < length (snd s)" "tstep j (fst s) (snd s ! j) = Some (g2, l2)" "u = (g2, (snd s)[j := l2])"
    using assms(3) by (auto simp: pool_step_def)
  have ij: "i \<noteq> j" using i j assms(4) by auto
  then obtain g3 where g3: "tstep j g1 (snd s ! j) = Some (g3, l2)" "tstep i g2 (snd s ! i) = Some (g3, l1)"
    using commute [OF assms(1) i(1) j(1) _ i(2) j(2)] by blast
  have "pool_step tstep t (g3, (snd s)[i := l1, j := l2])" using i j g3 ij by (auto simp: pool_step_def)
  moreover have "pool_step tstep u (g3, (snd s)[j := l2, i := l1])" using i j g3 ij by (auto simp: pool_step_def)
  ultimately show ?thesis using ij by (auto simp: list_update_swap)
qed

text \<open>A step taken early shortens a run that ends by exactly that step.\<close>

lemma one_step_ahead:
  "(pool_step tstep ^^ n) s t \<Longrightarrow> pinv_of s \<Longrightarrow> stuck (pool_step tstep) t \<Longrightarrow> pool_step tstep s u \<Longrightarrow>
     \<exists>m. n = Suc m \<and> (pool_step tstep ^^ m) u t"
proof (induction n arbitrary: s u)
  case 0
  then show ?case unfolding stuck_def by (metis relpowp_0_E)
next
  case (Suc n)
  then obtain v where v: "pool_step tstep s v" "(pool_step tstep ^^ n) v t" using relpowp_Suc_D2 by metis
  show ?case
  proof (cases "u = v")
    case False
    then obtain x where x: "pool_step tstep v x" "pool_step tstep u x" using diamond [OF Suc.prems(2) v(1) Suc.prems(4)] by blast
    then obtain m where "n = Suc m" "(pool_step tstep ^^ m) x t"
      using Suc.IH [OF v(2) pinv_pool [OF v(1) Suc.prems(2)] Suc.prems(3)] by blast
    then show ?thesis using x(2) relpowp_Suc_I2 by metis
  qed (use v in blast)
qed

lemma ahead:
  "(pool_step tstep ^^ m) s u \<Longrightarrow> (pool_step tstep ^^ n) s t \<Longrightarrow> pinv_of s \<Longrightarrow> stuck (pool_step tstep) t \<Longrightarrow>
     \<exists>k. n = m + k \<and> (pool_step tstep ^^ k) u t"
proof (induction m arbitrary: s n)
  case (Suc m)
  then obtain v where v: "pool_step tstep s v" "(pool_step tstep ^^ m) v u" using relpowp_Suc_D2 by metis
  then obtain n' where n': "n = Suc n'" "(pool_step tstep ^^ n') v t" using one_step_ahead Suc.prems(2-4) by blast
  then show ?case using Suc.IH [OF v(2) n'(2) pinv_pool [OF v(1) Suc.prems(3)] Suc.prems(4)] by auto
qed simp

lemma outcome:
  assumes "pinv_of s" and "(pool_step tstep)\<^sup>*\<^sup>* s t" and "stuck (pool_step tstep) t"
  shows "settles (pool_step tstep) s t"
proof -
  obtain n where n: "(pool_step tstep ^^ n) s t" using assms(2) rtranclp_imp_relpowp by metis
  have "m \<le> n" if "(pool_step tstep ^^ m) s u" for m u using ahead [OF that n assms(1,3)] by auto
  moreover have "(pool_step tstep)\<^sup>*\<^sup>* u t" if u: "(pool_step tstep)\<^sup>*\<^sup>* s u" for u
  proof -
    obtain m where "(pool_step tstep ^^ m) s u" using u rtranclp_imp_relpowp by metis
    then obtain k where "(pool_step tstep ^^ k) u t" using ahead [OF _ n assms(1,3)] by blast
    then show ?thesis by (rule relpowp_imp_rtranclp)
  qed
  moreover have "u = t" if "(pool_step tstep)\<^sup>*\<^sup>* u t" "stuck (pool_step tstep) u" for u
    using that by (auto simp: stuck_def elim: converse_rtranclpE)
  ultimately show ?thesis using assms(2,3) unfolding settles_def by blast
qed

end

section \<open>Programs as processes\<close>

datatype 'a pst = Live "'a prog" | Dead "'a outcome"

text \<open>The kernel answers a call of process \<open>i\<close> or leaves it blocked; \<open>ends\<close> is what it does when the process ends.\<close>

fun net_step :: "(nat \<Rightarrow> 's \<Rightarrow> call \<Rightarrow> (ans \<times> 's) option) \<Rightarrow> (nat \<Rightarrow> 's \<Rightarrow> 's) \<Rightarrow> nat \<Rightarrow> 's \<Rightarrow> 'a pst \<Rightarrow> ('s \<times> 'a pst) option" where
  "net_step kern ends i s (Live (Sys c k)) = (case kern i s c of Some (a, s') \<Rightarrow> Some (s', Live (k a)) | None \<Rightarrow> None)"
| "net_step kern ends i s (Live (Ret x)) = Some (ends i s, Dead (Done x))"
| "net_step kern ends i s (Live (Exit n)) = Some (ends i s, Dead (Exited n))"
| "net_step kern ends i s l = None"

lemma net_step_cases:
  assumes "net_step kern ends i s l = Some (s', l')"
  obtains (Call) c k a where "l = Live (Sys c k)" "kern i s c = Some (a, s')" "l' = Live (k a)"
  | (End) r where "(\<exists>x. l = Live (Ret x)) \<or> (\<exists>n. l = Live (Exit n))" "s' = ends i s" "l' = Dead r" "\<And>t. net_step kern ends i t l = Some (ends i t, Dead r)"
proof (cases l)
  case (Live p)
  then show ?thesis using assms that by (cases p) (auto split: option.splits)
qed (use assms in simp)

fun is_dead :: "'a pst \<Rightarrow> bool" where
  "is_dead (Dead r) = True"
| "is_dead (Live p) = False"

lemma dead_stuck: "list_all is_dead ls \<Longrightarrow> stuck (pool_step (net_step kern ends)) (s, ls)"
proof -
  assume "list_all is_dead ls"
  then have "net_step kern ends i s (ls ! i) = None" if "i < length ls" for i
    using that by (cases "ls ! i") (auto simp: list_all_length)
  then show ?thesis by (auto simp: stuck_def pool_step_def)
qed

text \<open>One process running while the others stand still.\<close>

definition alone :: "(nat \<Rightarrow> 's \<Rightarrow> call \<Rightarrow> (ans \<times> 's) option) \<Rightarrow> (nat \<Rightarrow> 's \<Rightarrow> 's) \<Rightarrow> nat \<Rightarrow> 's \<times> 'a pst \<Rightarrow> 's \<times> 'a pst \<Rightarrow> bool" where
  "alone kern ends i = (\<lambda>x y. net_step kern ends i (fst x) (snd x) = Some y)\<^sup>*\<^sup>*"

lemma alone_refl [simp]: "alone kern ends i x x"
  by (simp add: alone_def)

lemma alone_trans: "alone kern ends i x y \<Longrightarrow> alone kern ends i y z \<Longrightarrow> alone kern ends i x z"
  by (simp add: alone_def)

lemma alone_call: "kern i s c = Some (a, s') \<Longrightarrow> alone kern ends i (s', Live (k a)) y \<Longrightarrow> alone kern ends i (s, Live (Sys c k)) y"
  unfolding alone_def by (rule converse_rtranclp_into_rtranclp) auto

lemma alone_return: "s' = ends i s \<Longrightarrow> alone kern ends i (s, Live (Ret x)) (s', Dead (Done x))"
  unfolding alone_def by (rule r_into_rtranclp) simp

lemma alone_exit: "s' = ends i s \<Longrightarrow> alone kern ends i (s, Live (Exit n)) (s', Dead (Exited n))"
  unfolding alone_def by (rule r_into_rtranclp) simp

lemma alone_pool:
  assumes "alone kern ends i (s, l) y" and "i < length ls" and "ls ! i = l"
  shows "(pool_step (net_step kern ends))\<^sup>*\<^sup>* (s, ls) (fst y, ls[i := snd y])"
  using assms(1) unfolding alone_def
proof (induction rule: rtranclp_induct)
  case base
  then show ?case using assms(3) by (metis fst_conv list_update_id rtranclp.rtrancl_refl snd_conv)
next
  case (step y z)
  have "pool_step (net_step kern ends) (fst y, ls[i := snd y]) (fst z, ls[i := snd z])"
    using step(2) assms(2) pool_stepI [of i "ls[i := snd y]" "net_step kern ends" "fst y" "fst z" "snd z"] by simp
  with step.IH show ?case by (rule rtranclp.rtrancl_into_rtrancl)
qed

text \<open>A given number of steps of one process, to be evaluated.\<close>

primrec solo :: "(nat \<Rightarrow> 's \<Rightarrow> call \<Rightarrow> (ans \<times> 's) option) \<Rightarrow> (nat \<Rightarrow> 's \<Rightarrow> 's) \<Rightarrow> nat \<Rightarrow> nat \<Rightarrow> 's \<Rightarrow> 'a pst \<Rightarrow> ('s \<times> 'a pst) option" where
  "solo kern ends i 0 s l = Some (s, l)"
| "solo kern ends i (Suc n) s l = (case net_step kern ends i s l of Some (s', l') \<Rightarrow> solo kern ends i n s' l' | None \<Rightarrow> None)"

lemma solo_numeral [simp]:
  "solo kern ends i (numeral k) s l = (case net_step kern ends i s l of Some (s', l') \<Rightarrow> solo kern ends i (pred_numeral k) s' l' | None \<Rightarrow> None)"
  by (simp add: numeral_eq_Suc)

lemma solo_alone: "solo kern ends i n s l = Some y \<Longrightarrow> alone kern ends i (s, l) y"
proof (induction n arbitrary: s l)
  case (Suc n)
  obtain s' l' where step: "net_step kern ends i s l = Some (s', l')"
    using Suc.prems by (cases "net_step kern ends i s l") auto
  then have "alone kern ends i (s', l') y" using Suc.IH [of s' l'] Suc.prems by simp
  then show ?case unfolding alone_def by (rule converse_rtranclp_into_rtranclp [rotated]) (simp add: step)
qed simp

text \<open>The same for two processes, the parent and its child.\<close>

lemma alone_parent:
  assumes "alone kern ends 0 (s, l) (s', l')"
  shows "(pool_step (net_step kern ends))\<^sup>*\<^sup>* (s, [l, m]) (s', [l', m])"
  using alone_pool [OF assms, of "[l, m]"] by simp

lemma alone_child:
  assumes "alone kern ends 1 (s, m) (s', m')"
  shows "(pool_step (net_step kern ends))\<^sup>*\<^sup>* (s, [l, m]) (s', [l, m'])"
  using alone_pool [OF assms, of "[l, m]"] by simp

lemmas solo_parent = alone_parent [OF solo_alone]

lemmas solo_child = alone_child [OF solo_alone]

section \<open>Answers and output\<close>

abbreviation answer :: "int \<Rightarrow> ans" where
  "answer r \<equiv> \<lparr>a_ret = r, a_err = 0, a_data = [], a_evs = []\<rparr>"

text \<open>Lines added to the standard output of process \<open>i\<close>.\<close>

definition says :: "nat \<Rightarrow> string list \<Rightarrow> (nat \<Rightarrow> string list) \<Rightarrow> nat \<Rightarrow> string list" where
  "says i ms out = out(i := out i @ ms)"

lemma says_commute: "i \<noteq> j \<Longrightarrow> says i ms (says j ms' out) = says j ms' (says i ms out)"
  by (auto simp: says_def)

lemma says_says [simp]: "says i ms' (says i ms out) = says i (ms @ ms') out"
  by (simp add: says_def)

lemma says_Nil [simp]: "says i [] out = out"
  by (simp add: says_def)

section \<open>Processes that wait for the others at the end\<close>

text \<open>Up to the first call in \<open>W\<close> the program makes calls in \<open>P\<close> only.\<close>

primrec calls_until :: "(call \<Rightarrow> bool) \<Rightarrow> (call \<Rightarrow> bool) \<Rightarrow> 'a prog \<Rightarrow> bool" where
  "calls_until W P (Ret x) = True"
| "calls_until W P (Exit n) = True"
| "calls_until W P (Fault e) = True"
| "calls_until W P More = True"
| "calls_until W P (Sys c k) = (W c \<or> (P c \<and> (\<forall>a. calls_until W P (k a))))"

text \<open>
  The calls \<open>P i\<close> of process \<open>i\<close> commute with those of the others, the calls \<open>W i\<close> are answered only when the others
  have ended, which the kernel knows (\<open>gone\<close>). What follows such a call need not commute with anything.
\<close>

locale process_net =
  fixes kern :: "nat \<Rightarrow> 's \<Rightarrow> call \<Rightarrow> (ans \<times> 's) option"
    and ends :: "nat \<Rightarrow> 's \<Rightarrow> 's"
    and gone :: "'s \<Rightarrow> nat set"
    and P :: "nat \<Rightarrow> call \<Rightarrow> bool"
    and W :: "nat \<Rightarrow> call \<Rightarrow> bool"
    and n :: nat
  assumes call_gone: "kern i s c = Some (a, s') \<Longrightarrow> gone s' = gone s"
    and ends_gone: "gone (ends i s) = insert i (gone s)"
    and wait_gone: "i < n \<Longrightarrow> W i c \<Longrightarrow> kern i s c = Some (a, s') \<Longrightarrow> {..<n} - {i} \<subseteq> gone s"
    and calls_commute: "i < n \<Longrightarrow> j < n \<Longrightarrow> i \<noteq> j \<Longrightarrow> P i c \<Longrightarrow> P j d \<Longrightarrow> kern i s c = Some (a, s1) \<Longrightarrow> kern j s d = Some (b, s2) \<Longrightarrow>
      \<exists>s3. kern j s1 d = Some (b, s3) \<and> kern i s2 c = Some (a, s3)"
    and call_ends_commute: "i < n \<Longrightarrow> j < n \<Longrightarrow> i \<noteq> j \<Longrightarrow> P i c \<Longrightarrow> kern i s c = Some (a, s1) \<Longrightarrow> kern i (ends j s) c = Some (a, ends j s1)"
    and ends_commute: "ends i (ends j s) = ends j (ends i s)"
begin

definition tame :: "nat \<Rightarrow> 's \<Rightarrow> 'a pst \<Rightarrow> bool" where
  "tame i s l = (case l of Live p \<Rightarrow> i \<notin> gone s \<and> (calls_until (W i) (P i) p \<or> {..<n} - {i} \<subseteq> gone s) | Dead r \<Rightarrow> True)"

definition net_inv :: "'s \<Rightarrow> 'a pst list \<Rightarrow> bool" where
  "net_inv s ls \<longleftrightarrow> length ls = n \<and> (\<forall>i < n. tame i s (ls ! i))"

lemma net_step_tame:
  assumes "tame i s l" and "i < n" and "net_step kern ends i s l = Some (s', l')"
  shows "tame i s' l'" and "j \<noteq> i \<Longrightarrow> tame j s m \<Longrightarrow> tame j s' m"
proof -
  show "tame i s' l'" using assms(3)
  proof (cases rule: net_step_cases)
    case (Call c k a)
    then show ?thesis using assms(1,2) call_gone [OF Call(2)] wait_gone [OF _ _ Call(2)] by (auto simp: tame_def)
  qed (simp add: tame_def)
  show "tame j s' m" if "j \<noteq> i" "tame j s m" using assms(3)
  proof (cases rule: net_step_cases)
    case (Call c k a)
    then show ?thesis using that call_gone [OF Call(2)] by (auto simp: tame_def split: pst.splits)
  qed (use that ends_gone in \<open>auto simp: tame_def split: pst.splits\<close>)
qed

text \<open>Two processes that can both move make calls that commute.\<close>

lemma both_live:
  assumes "tame i s (Live (Sys c k))" and "kern i s c = Some (a, s')" and "i < n" and "j < n" and "i \<noteq> j" and "j \<notin> gone s"
  shows "P i c"
  using assms wait_gone [OF assms(3) _ assms(2)] by (auto simp: tame_def)

lemma net_commute:
  assumes t: "tame i s l" "tame j s m" and n: "i < n" "j < n" "i \<noteq> j"
    and i: "net_step kern ends i s l = Some (s1, l')" and j: "net_step kern ends j s m = Some (s2, m')"
  shows "\<exists>s3. net_step kern ends j s1 m = Some (s3, m') \<and> net_step kern ends i s2 l = Some (s3, l')"
proof -
  have live: "i \<notin> gone s" "j \<notin> gone s" using t i j by (cases l; cases m; auto simp: tame_def)+
  show ?thesis using i
  proof (cases rule: net_step_cases)
    case (Call c k a)
    then have c: "P i c" using both_live t(1) n live by blast
    show ?thesis using j
    proof (cases rule: net_step_cases)
      case d: (Call d k' b)
      then have "P j d" using both_live t(2) n live by blast
      then obtain s3 where "kern j s1 d = Some (b, s3)" "kern i s2 c = Some (a, s3)"
        using calls_commute [OF n c _ Call(2) d(2)] by blast
      then show ?thesis using Call d by simp
    next
      case d: (End r)
      then show ?thesis using Call call_ends_commute [OF n c Call(2)] by simp
    qed
  next
    case (End r)
    show ?thesis using j
    proof (cases rule: net_step_cases)
      case d: (Call d k' b)
      then have "P j d" using both_live t(2) n live by blast
      then show ?thesis using call_ends_commute [OF n(2,1) _ _ d(2)] n(3) End d by simp
    next
      case d: (End r')
      then show ?thesis using End ends_commute by simp
    qed
  qed
qed

end

sublocale process_net \<subseteq> confluent_pool "net_step kern ends" net_inv
proof (unfold_locales, goal_cases)
  case (1 s ls i s' l')
  then have len: "length ls = n" and i: "tame i s (ls ! i)" "i < n" by (auto simp: net_inv_def)
  show ?case unfolding net_inv_def
  proof (intro conjI allI impI)
    fix j
    assume "j < n"
    then show "tame j s' (ls[i := l'] ! j)"
      using net_step_tame(1) [OF i 1(3)] net_step_tame(2) [OF i 1(3), of j "ls ! j"] 1(1) len
      by (cases "j = i") (simp_all add: net_inv_def)
  qed (simp add: len)
next
  case (2 s ls i j s1 l1 s2 l2)
  then show ?case using net_commute [of i s "ls ! i" j "ls ! j" s1 l1 s2 l2] by (simp add: net_inv_def)
qed

end
