(* ===== verification/Tcp_Net.thy ===== *)
theory Tcp_Net
  imports Tcp_Client Process_Net
begin

text \<open>
  The server of \<^verbatim>\<open>07_networking/tcp_server.c\<close> and a client of \<^verbatim>\<open>07_networking/tcp_client.c\<close> running at the same time over one connection, for any
  list of messages. Process 0 is the server from the registration of its listening socket on, process 1 the client once its
  \<^verbatim>\<open>connect\<close> has succeeded; the connection then waits to be accepted. The kernel below is what the calls do on the loopback
  interface: a stream in each direction that delivers in order and what is there at once, a wait that reports what
  is ready and times out when nothing is, an end of the stream when the other side is closed. When \<^verbatim>\<open>SIGTERM\<close> arrives is
  up to the environment: \<open>stops n\<close> says what the n-th test of \<^verbatim>\<open>g_running\<close> finds.

  Shown, for every interleaving: the invariant that ties the points both programs have reached to what is in
  flight. Hence each side prints its part of the conversation in order, message by message, the client never ends before
  it has all replies unless the server went away, and it is never left waiting for a server that returned.
\<close>

section \<open>The kernel\<close>

record tcpn =
  t_now :: nat
  t_pend :: bool
  t_reg :: "int set"
  t_c2s :: "byte list"
  t_s2c :: "byte list"
  t_closed :: bool
  t_down :: bool
  t_out :: "nat \<Rightarrow> string list"

text \<open>
  The server's listening socket is 3, its epoll instance 4, the accepted connection 5. A connection is down for the client
  when the server process ended, or closed its listening socket before it accepted.
\<close>

definition tcp_events :: "tcpn \<Rightarrow> (int \<times> nat) list" where
  "tcp_events s =
     (if t_pend s \<and> 3 \<in> t_reg s then [(3, 1)] else [])
     @ (if 5 \<in> t_reg s \<and> (t_c2s s \<noteq> [] \<or> t_closed s) then [(5, if t_closed s then 8193 else 1)] else [])"

definition tcp_server_kern :: "(nat \<Rightarrow> bool) \<Rightarrow> nat \<Rightarrow> tcpn \<Rightarrow> call \<Rightarrow> ans \<times> tcpn" where
  "tcp_server_kern stops cport s c =
     (case c of
        C_misc m \<Rightarrow> (answer (if stops (t_now s) then 0 else 1), s\<lparr>t_now := Suc (t_now s)\<rparr>)
      | C_epoll_ctl ep add fd \<Rightarrow> (answer 0, s\<lparr>t_reg := if add then insert fd (t_reg s) else t_reg s - {fd}\<rparr>)
      | C_epoll_wait ep n \<Rightarrow> ((answer (int (length (tcp_events s))))\<lparr>a_evs := tcp_events s\<rparr>, s)
      | C_accept fd \<Rightarrow>
          if t_pend s then ((answer 5)\<lparr>a_evs := [(0x7F000001, cport)]\<rparr>, s\<lparr>t_pend := False\<rparr>)
          else ((answer (-1))\<lparr>a_err := EAGAIN\<rparr>, s)
      | C_recv fd n \<Rightarrow>
          if t_c2s s \<noteq> []
          then ((answer (int (length (take n (t_c2s s)))))\<lparr>a_data := take n (t_c2s s)\<rparr>, s\<lparr>t_c2s := drop n (t_c2s s)\<rparr>)
          else if t_closed s then (answer 0, s)
          else ((answer (-1))\<lparr>a_err := EAGAIN\<rparr>, s)
      | C_send fd bs \<Rightarrow> (answer (int (length bs)), s\<lparr>t_s2c := t_s2c s @ bs\<rparr>)
      | C_close fd \<Rightarrow> (answer 0, s\<lparr>t_reg := t_reg s - {fd}, t_down := (t_down s \<or> fd = 3 \<and> t_pend s)\<rparr>)
      | C_print m \<Rightarrow> (answer 0, s\<lparr>t_out := says 0 [m] (t_out s)\<rparr>)
      | _ \<Rightarrow> (answer 0, s))"

definition tcp_client_kern :: "tcpn \<Rightarrow> call \<Rightarrow> (ans \<times> tcpn) option" where
  "tcp_client_kern s c =
     (case c of
        C_recv fd n \<Rightarrow>
          if t_s2c s \<noteq> []
          then Some ((answer (int (length (take n (t_s2c s)))))\<lparr>a_data := take n (t_s2c s)\<rparr>, s\<lparr>t_s2c := drop n (t_s2c s)\<rparr>)
          else if t_down s then Some (answer 0, s) else None
      | C_send fd bs \<Rightarrow>
          if t_down s then Some (answer (-1), s) else Some (answer (int (length bs)), s\<lparr>t_c2s := t_c2s s @ bs\<rparr>)
      | C_close fd \<Rightarrow> Some (answer 0, s\<lparr>t_closed := True\<rparr>)
      | C_print m \<Rightarrow> Some (answer 0, s\<lparr>t_out := says 1 [m] (t_out s)\<rparr>)
      | _ \<Rightarrow> Some (answer 0, s))"

definition tcp_kern :: "(nat \<Rightarrow> bool) \<Rightarrow> nat \<Rightarrow> nat \<Rightarrow> tcpn \<Rightarrow> call \<Rightarrow> (ans \<times> tcpn) option" where
  "tcp_kern stops cport i s c = (if i = 0 then Some (tcp_server_kern stops cport s c) else tcp_client_kern s c)"

definition tcp_ends :: "nat \<Rightarrow> tcpn \<Rightarrow> tcpn" where
  "tcp_ends i s = (if i = 0 then s\<lparr>t_down := True\<rparr> else s\<lparr>t_closed := True\<rparr>)"

definition tcp_start :: tcpn where
  "tcp_start = \<lparr>t_now = 0, t_pend = True, t_reg = {}, t_c2s = [], t_s2c = [], t_closed = False, t_down = False, t_out = (\<lambda>_. [])\<rparr>"

section \<open>What both sides print\<close>

definition new_line :: "nat \<Rightarrow> string" where
  "new_line cport = ''[SERVER] New client: 127.0.0.1:'' @ dec_nat cport @ ''  (fd='' @ dec_int 5 @ '')''"

definition got_line :: "string \<Rightarrow> string" where
  "got_line m = ''[SERVER] fd='' @ dec_int 5 @ '' received ('' @ dec_int (int (length m)) @ '' bytes): '' @ m"

definition left_line :: string where
  "left_line = ''[SERVER] fd='' @ dec_int 5 @ '': peer closed / error''"

definition server_log :: "nat \<Rightarrow> string list \<Rightarrow> string list" where
  "server_log cport ms = new_line cport # map got_line ms @ [left_line]"

definition reply_line :: "string \<Rightarrow> string" where
  "reply_line m = ''[CLIENT] server replied: '' @ echo_reply m"

definition hello_line :: "int \<Rightarrow> string" where
  "hello_line fd = ''[CLIENT] Connected (fd='' @ dec_int fd @ '')''"

definition client_log :: "int \<Rightarrow> string list \<Rightarrow> string list" where
  "client_log fd ms = hello_line fd # map reply_line ms @ [''[CLIENT] Done.'']"

text \<open>Messages that are text, not empty, and fit the buffers of both sides with the prefix the server adds.\<close>

definition sendable :: "string list \<Rightarrow> bool" where
  "sendable ms \<longleftrightarrow> list_all (\<lambda>m. m \<noteq> [] \<and> NUL \<notin> set m \<and> length m \<le> 1017) ms"

section \<open>Points of the programs\<close>

datatype spt = S_start | S_test | S_wait | S_accept | S_new | S_add | S_recv | S_got | S_echo | S_left | S_del | S_drop
  | S_down | S_close_ep | S_close_s | S_ret | S_dead

abbreviation srv_end :: "int prog" where
  "srv_end \<equiv> ignore (C_print ''[SERVER] Shutting down.'') (ignore (C_close 4) (ignore (C_close 3) (Ret 0)))"

definition srv_rest :: "nat \<Rightarrow> int prog" where
  "srv_rest f = bindp (server_loop f 4 3) (\<lambda>_. srv_end)"

text \<open>The program at a point, with the fuel left and the number \<open>n\<close> of lines printed so far.\<close>

fun server_at :: "nat \<Rightarrow> string list \<Rightarrow> spt \<Rightarrow> nat \<Rightarrow> nat \<Rightarrow> int pst" where
  "server_at cp ms S_start f n = Live (serve f 4 3)"
| "server_at cp ms S_test f n = Live (srv_rest f)"
| "server_at cp ms S_wait f n = Live (Sys (C_epoll_wait 4 MAX_EVENTS) (\<lambda>a. bindp (bindp (handle_events 4 3 (a_evs a)) (\<lambda>_. server_loop f 4 3)) (\<lambda>_. srv_end)))"
| "server_at cp ms S_accept f n = Live (bindp (bindp (handle_new_connection 4 3) (\<lambda>_. server_loop f 4 3)) (\<lambda>_. srv_end))"
| "server_at cp ms S_new f n = Live (ignore (C_print (new_line cp)) (ignore (C_epoll_ctl 4 True 5) (srv_rest f)))"
| "server_at cp ms S_add f n = Live (ignore (C_epoll_ctl 4 True 5) (srv_rest f))"
| "server_at cp ms S_recv f n = Live (bindp (bindp (handle_client 4 5) (\<lambda>_. server_loop f 4 3)) (\<lambda>_. srv_end))"
| "server_at cp ms S_got f n = Live (ignore (C_print (got_line (ms ! (n - 1)))) (ignore (C_send 5 (echo_reply (ms ! (n - 1)))) (srv_rest f)))"
| "server_at cp ms S_echo f n = Live (ignore (C_send 5 (echo_reply (ms ! (n - 2)))) (srv_rest f))"
| "server_at cp ms S_left f n = Live (ignore (C_print left_line) (ignore (C_epoll_ctl 4 False 5) (ignore (C_close 5) (srv_rest f))))"
| "server_at cp ms S_del f n = Live (ignore (C_epoll_ctl 4 False 5) (ignore (C_close 5) (srv_rest f)))"
| "server_at cp ms S_drop f n = Live (ignore (C_close 5) (srv_rest f))"
| "server_at cp ms S_down f n = Live srv_end"
| "server_at cp ms S_close_ep f n = Live (ignore (C_close 4) (ignore (C_close 3) (Ret 0)))"
| "server_at cp ms S_close_s f n = Live (ignore (C_close 3) (Ret 0))"
| "server_at cp ms S_ret f n = Live (Ret 0)"
| "server_at cp ms S_dead f n = Dead (Done 0)"

datatype cpt = K_hello | K_send | K_wait | K_reply | K_pause | K_close | K_bye | K_ret | K_dead

definition talk_rest :: "int \<Rightarrow> string list \<Rightarrow> int prog" where
  "talk_rest fd ms = bindp (exchange fd ms) (\<lambda>_. client_end fd)"

text \<open>The same for the client; \<open>k\<close> is the number of replies printed.\<close>

fun client_at :: "int \<Rightarrow> string list \<Rightarrow> cpt \<Rightarrow> nat \<Rightarrow> int pst" where
  "client_at fd ms K_hello k = Live (client_talk fd ms)"
| "client_at fd ms K_send k = Live (talk_rest fd (drop k ms))"
| "client_at fd ms K_wait k = Live (Sys (C_recv fd 1023) (\<lambda>a. bindp (if a_ret a \<le> 0 then Ret ()
      else at_index 1024 (a_ret a) (ignore (C_print (''[CLIENT] server replied: '' @ cstr (a_data a @ [NUL])))
        (ignore (C_misc ''usleep'') (exchange fd (drop (Suc k) ms))))) (\<lambda>_. client_end fd)))"
| "client_at fd ms K_reply k = Live (ignore (C_print (reply_line (ms ! k))) (ignore (C_misc ''usleep'') (talk_rest fd (drop (Suc k) ms))))"
| "client_at fd ms K_pause k = Live (ignore (C_misc ''usleep'') (talk_rest fd (drop k ms)))"
| "client_at fd ms K_close k = Live (client_end fd)"
| "client_at fd ms K_bye k = Live (ignore (C_print ''[CLIENT] Done.'') (Ret 0))"
| "client_at fd ms K_ret k = Live (Ret 0)"
| "client_at fd ms K_dead k = Dead (Done 0)"

section \<open>The invariant\<close>

text \<open>Messages sent and replies taken from the socket by the client; messages taken and echoed by the server.\<close>

fun sent_by :: "nat \<Rightarrow> cpt \<Rightarrow> nat \<Rightarrow> nat" where
  "sent_by N K_hello k = 0"
| "sent_by N K_send k = k"
| "sent_by N K_wait k = Suc k"
| "sent_by N K_reply k = Suc k"
| "sent_by N K_pause k = k"
| "sent_by N ct k = min N (Suc k)"

fun answered_by :: "cpt \<Rightarrow> nat \<Rightarrow> nat" where
  "answered_by K_hello k = 0"
| "answered_by K_reply k = Suc k"
| "answered_by ct k = k"

fun got_by :: "nat \<Rightarrow> spt \<Rightarrow> nat \<Rightarrow> nat" where
  "got_by N S_got n = n"
| "got_by N S_echo n = n - 1"
| "got_by N pt n = min N (n - 1)"

fun echoed_by :: "nat \<Rightarrow> spt \<Rightarrow> nat \<Rightarrow> nat" where
  "echoed_by N S_got n = n - 1"
| "echoed_by N S_echo n = n - 2"
| "echoed_by N pt n = min N (n - 1)"

fun client_wf :: "nat \<Rightarrow> cpt \<Rightarrow> nat \<Rightarrow> bool" where
  "client_wf N K_hello k = (k = 0)"
| "client_wf N K_send k = (k < N)"
| "client_wf N K_wait k = (k < N)"
| "client_wf N K_reply k = (k < N)"
| "client_wf N ct k = (k \<le> N)"

fun server_wf :: "nat \<Rightarrow> spt \<Rightarrow> nat \<Rightarrow> bool" where
  "server_wf N S_start n = (n = 0)"
| "server_wf N S_accept n = (n = 0)"
| "server_wf N S_new n = (n = 0)"
| "server_wf N S_add n = (n = 1)"
| "server_wf N S_recv n = (0 < n \<and> n \<le> N)"
| "server_wf N S_got n = (0 < n \<and> n \<le> N)"
| "server_wf N S_echo n = (1 < n \<and> n \<le> Suc N)"
| "server_wf N S_left n = (n = Suc N)"
| "server_wf N S_del n = (n = N + 2)"
| "server_wf N S_drop n = (n = N + 2)"
| "server_wf N pt n = (n \<le> N + 2)"

definition over :: "cpt \<Rightarrow> bool" where
  "over ct \<longleftrightarrow> ct \<in> {K_close, K_bye, K_ret, K_dead}"

definition closing :: "spt \<Rightarrow> bool" where
  "closing pt \<longleftrightarrow> pt \<in> {S_down, S_close_ep, S_close_s, S_ret, S_dead}"

fun regs :: "nat \<Rightarrow> spt \<Rightarrow> nat \<Rightarrow> int set" where
  "regs N S_start n = {}"
| "regs N S_add n = {3}"
| "regs N S_del n = {3, 5}"
| "regs N S_drop n = {3}"
| "regs N pt n = (if 0 < n \<and> n \<le> Suc N then {3, 5} else {3})"

definition log_lines :: "nat \<Rightarrow> string list \<Rightarrow> spt \<Rightarrow> nat \<Rightarrow> string list" where
  "log_lines cport ms pt n =
     take n (server_log cport ms) @ (if pt \<in> {S_close_ep, S_close_s, S_ret, S_dead} then [''[SERVER] Shutting down.''] else [])"

definition talk_lines :: "int \<Rightarrow> string list \<Rightarrow> cpt \<Rightarrow> nat \<Rightarrow> string list" where
  "talk_lines fd ms ct k =
     (if ct = K_hello then [] else hello_line fd # map reply_line (take k ms) @ (if ct \<in> {K_ret, K_dead} then [''[CLIENT] Done.''] else []))"

text \<open>Nothing overtakes: what is answered was echoed, what is echoed was taken, what is taken was sent, and the client sends one message at a time.\<close>

definition counts_ok :: "nat \<Rightarrow> spt \<Rightarrow> nat \<Rightarrow> cpt \<Rightarrow> nat \<Rightarrow> bool" where
  "counts_ok N pt n ct k \<longleftrightarrow> server_wf N pt n \<and> client_wf N ct k
     \<and> answered_by ct k \<le> echoed_by N pt n \<and> echoed_by N pt n \<le> got_by N pt n \<and> got_by N pt n \<le> sent_by N ct k \<and> sent_by N ct k \<le> Suc (answered_by ct k)
     \<and> (pt = S_recv \<longrightarrow> got_by N pt n < sent_by N ct k)"

definition srv_gone :: "spt \<Rightarrow> nat \<Rightarrow> bool" where
  "srv_gone pt n \<longleftrightarrow> pt = S_dead \<or> pt = S_ret \<and> n = 0"

definition kernel_ok :: "int \<Rightarrow> nat \<Rightarrow> string list \<Rightarrow> tcpn \<Rightarrow> spt \<Rightarrow> nat \<Rightarrow> cpt \<Rightarrow> nat \<Rightarrow> bool" where
  "kernel_ok fd cport ms s pt n ct k \<longleftrightarrow>
     t_pend s = (n = 0 \<and> pt \<noteq> S_new)
     \<and> (closing pt \<or> t_reg s = regs (length ms) pt n)
     \<and> t_closed s = (ct \<in> {K_bye, K_ret, K_dead})
     \<and> t_down s = srv_gone pt n
     \<and> (srv_gone pt n \<or> t_c2s s = (if got_by (length ms) pt n < sent_by (length ms) ct k then ms ! got_by (length ms) pt n else []))
     \<and> t_s2c s = (if answered_by ct k < echoed_by (length ms) pt n then echo_reply (ms ! answered_by ct k) else [])
     \<and> (over ct \<and> k < length ms \<longrightarrow> srv_gone pt n)
     \<and> t_out s 0 = log_lines cport ms pt n \<and> t_out s 1 = talk_lines fd ms ct k"

definition tcp_inv :: "int \<Rightarrow> nat \<Rightarrow> string list \<Rightarrow> tcpn \<Rightarrow> spt \<Rightarrow> nat \<Rightarrow> cpt \<Rightarrow> nat \<Rightarrow> bool" where
  "tcp_inv fd cport ms s pt n ct k \<longleftrightarrow> counts_ok (length ms) pt n ct k \<and> kernel_ok fd cport ms s pt n ct k"

lemmas tcp_inv_simps = tcp_inv_def counts_ok_def kernel_ok_def srv_gone_def over_def closing_def log_lines_def talk_lines_def client_log_def says_def

lemma tcp_start_inv: "tcp_inv fd cport ms tcp_start S_start 0 K_hello 0"
  by (simp add: tcp_inv_simps tcp_start_def)

section \<open>Steps of the server\<close>

text \<open>A measure of the work that is left to the server: its fuel, and the way to the next test.\<close>

fun srank :: "spt \<Rightarrow> nat \<Rightarrow> nat" where
  "srank S_start f = 20 * f + 10"
| "srank S_test f = 20 * f + 8"
| "srank S_wait f = 20 * f + 25"
| "srank S_accept f = 20 * f + 20"
| "srank S_new f = 20 * f + 18"
| "srank S_add f = 20 * f + 16"
| "srank S_recv f = 20 * f + 20"
| "srank S_got f = 20 * f + 18"
| "srank S_echo f = 20 * f + 16"
| "srank S_left f = 20 * f + 20"
| "srank S_del f = 20 * f + 18"
| "srank S_drop f = 20 * f + 16"
| "srank S_down f = 5"
| "srank S_close_ep f = 4"
| "srank S_close_s f = 3"
| "srank S_ret f = 2"
| "srank S_dead f = 1"

definition srv_moves :: "(nat \<Rightarrow> bool) \<Rightarrow> int \<Rightarrow> nat \<Rightarrow> string list \<Rightarrow> tcpn \<Rightarrow> spt \<Rightarrow> nat \<Rightarrow> nat \<Rightarrow> cpt \<Rightarrow> nat \<Rightarrow> bool" where
  "srv_moves stops fd cport ms s pt f n ct k \<longleftrightarrow>
     (\<forall>u l. net_step (tcp_kern stops cport) tcp_ends 0 s (server_at cport ms pt f n) = Some (u, l) \<longrightarrow>
        (\<exists>pt' f' n'. l = server_at cport ms pt' f' n' \<and> tcp_inv fd cport ms u pt' n' ct k \<and> srank pt' f' < srank pt f))"

lemma srv_next:
  assumes "net_step (tcp_kern stops cport) tcp_ends 0 s (server_at cport ms pt f n) = Some (u, server_at cport ms pt' f' n')"
    and "tcp_inv fd cport ms u pt' n' ct k" and "srank pt' f' < srank pt f"
  shows "srv_moves stops fd cport ms s pt f n ct k"
  using assms unfolding srv_moves_def by (metis Pair_inject option.inject)

lemmas kern_simps = tcp_kern_def tcp_server_kern_def tcp_client_kern_def tcp_ends_def

lemma bindp_Ret [simp]: "bindp p Ret = p"
  by (induction p) simp_all

lemma sent_bound: "client_wf N ct k \<Longrightarrow> sent_by N ct k \<le> N"
  by (cases ct) simp_all

lemma sendable_at:
  assumes "sendable ms" and "i < length ms"
  shows "ms ! i \<noteq> []" "NUL \<notin> set (ms ! i)" "length (ms ! i) \<le> 1017"
  using assms by (auto simp: sendable_def list_all_length)

lemma srv_start: "tcp_inv fd cport ms s S_start n ct k \<Longrightarrow> srv_moves stops fd cport ms s S_start f n ct k"
  by (rule srv_next [where pt' = S_test and f' = f and n' = n and u = "s\<lparr>t_reg := {3}\<rparr>"])
    (simp add: serve_def srv_rest_def kern_simps tcp_inv_simps, auto simp: tcp_inv_simps)

lemma srv_test: "tcp_inv fd cport ms s S_test n ct k \<Longrightarrow> srv_moves stops fd cport ms s S_test f n ct k"
proof (cases f)
  case (Suc f')
  assume inv: "tcp_inv fd cport ms s S_test n ct k"
  show ?thesis unfolding Suc
    by (rule srv_next [where pt' = "if stops (t_now s) then S_down else S_wait" and f' = f' and n' = n and u = "s\<lparr>t_now := Suc (t_now s)\<rparr>"])
      (simp add: srv_rest_def kern_simps, use inv in \<open>auto simp: tcp_inv_simps\<close>)
qed (simp add: srv_rest_def srv_moves_def)

text \<open>What a wait reports: the connection to accept, a message, or that the client has closed it.\<close>

lemma events_at_wait:
  assumes ms: "sendable ms" and inv: "tcp_inv fd cport ms s S_wait n ct k"
  shows "tcp_events s = (if n = 0 then [(3, 1)]
      else if n \<le> Suc (length ms) \<and> ct \<in> {K_bye, K_ret, K_dead} then [(5, 8193)]
      else if got_by (length ms) S_wait n < sent_by (length ms) ct k then [(5, 1)] else [])"
    and "n \<noteq> 0 \<Longrightarrow> n \<le> Suc (length ms) \<Longrightarrow> ct \<in> {K_bye, K_ret, K_dead} \<Longrightarrow> n = Suc (length ms)"
    and "got_by (length ms) S_wait n < sent_by (length ms) ct k \<Longrightarrow> n \<le> length ms"
proof -
  show "n \<noteq> 0 \<Longrightarrow> n \<le> Suc (length ms) \<Longrightarrow> ct \<in> {K_bye, K_ret, K_dead} \<Longrightarrow> n = Suc (length ms)"
    using inv by (auto simp: tcp_inv_simps)
  show "got_by (length ms) S_wait n < sent_by (length ms) ct k \<Longrightarrow> n \<le> length ms"
    using inv by (cases ct) (auto simp: tcp_inv_simps)
  show "tcp_events s = (if n = 0 then [(3, 1)]
      else if n \<le> Suc (length ms) \<and> ct \<in> {K_bye, K_ret, K_dead} then [(5, 8193)]
      else if got_by (length ms) S_wait n < sent_by (length ms) ct k then [(5, 1)] else [])"
    using inv sendable_at(1) [OF ms, of "got_by (length ms) S_wait n"] sent_bound [of "length ms" ct k]
    by (auto simp: tcp_inv_simps tcp_events_def)
qed

lemma srv_wait:
  assumes ms: "sendable ms" and inv: "tcp_inv fd cport ms s S_wait n ct k"
  shows "srv_moves stops fd cport ms s S_wait f n ct k"
proof -
  let ?N = "length ms"
  note ev = events_at_wait [OF ms inv]
  consider "n = 0" | "n = Suc ?N" "ct \<in> {K_bye, K_ret, K_dead}" | "got_by ?N S_wait n < sent_by ?N ct k" "0 < n" "\<not> (n = Suc ?N \<and> ct \<in> {K_bye, K_ret, K_dead})" | "tcp_events s = []"
    using ev by (fastforce split: if_splits)
  then show ?thesis
  proof cases
    case 1
    then show ?thesis
      by (intro srv_next [where pt' = S_accept and f' = f and n' = n and u = s])
        (use inv ev in \<open>simp add: handle_event_def kern_simps\<close>, use inv in \<open>auto simp: tcp_inv_simps\<close>)
  next
    case 2
    then show ?thesis
      by (intro srv_next [where pt' = S_left and f' = f and n' = n and u = s])
        (use inv ev in \<open>simp add: handle_event_def left_line_def srv_rest_def kern_simps\<close>, use inv in \<open>auto simp: tcp_inv_simps\<close>)
  next
    case 3
    have e: "tcp_events s = [(5, 1)]" and n: "n \<le> ?N" using ev 3 by auto
    then have "tcp_inv fd cport ms s S_recv n ct k"
      using inv 3 by (simp add: tcp_inv_def counts_ok_def kernel_ok_def srv_gone_def closing_def log_lines_def)
    then show ?thesis
      by (rule srv_next [rotated, where f' = f]) (use e in \<open>simp_all add: handle_event_def kern_simps\<close>)
  next
    case 4
    then show ?thesis
      by (intro srv_next [where pt' = S_test and f' = f and n' = n and u = s])
        (simp add: srv_rest_def kern_simps, use inv in \<open>auto simp: tcp_inv_simps\<close>)
  qed
qed

lemma srv_accept: "tcp_inv fd cport ms s S_accept n ct k \<Longrightarrow> srv_moves stops fd cport ms s S_accept f n ct k"
  by (rule srv_next [where pt' = S_new and f' = f and n' = n and u = "s\<lparr>t_pend := False\<rparr>"])
    (simp add: handle_new_connection_def new_line_def peer_text_def localhost srv_rest_def kern_simps tcp_inv_simps, auto simp: tcp_inv_simps)

lemma srv_new: "tcp_inv fd cport ms s S_new n ct k \<Longrightarrow> srv_moves stops fd cport ms s S_new f n ct k"
  by (rule srv_next [where pt' = S_add and f' = f and n' = 1 and u = "s\<lparr>t_out := says 0 [new_line cport] (t_out s)\<rparr>"])
    (simp add: kern_simps, auto simp: tcp_inv_simps server_log_def)

lemma srv_add: "tcp_inv fd cport ms s S_add n ct k \<Longrightarrow> srv_moves stops fd cport ms s S_add f n ct k"
  by (rule srv_next [where pt' = S_test and f' = f and n' = n and u = "s\<lparr>t_reg := insert 5 (t_reg s)\<rparr>"])
    (simp add: kern_simps tcp_inv_simps, auto simp: tcp_inv_simps)

lemma srv_down: "tcp_inv fd cport ms s S_down n ct k \<Longrightarrow> srv_moves stops fd cport ms s S_down f n ct k"
  by (rule srv_next [where pt' = S_close_ep and f' = f and n' = n and u = "s\<lparr>t_out := says 0 [''[SERVER] Shutting down.''] (t_out s)\<rparr>"])
    (simp add: kern_simps tcp_inv_simps, auto simp: tcp_inv_simps)

lemma srv_close_ep: "tcp_inv fd cport ms s S_close_ep n ct k \<Longrightarrow> srv_moves stops fd cport ms s S_close_ep f n ct k"
  by (rule srv_next [where pt' = S_close_s and f' = f and n' = n and u = "s\<lparr>t_reg := t_reg s - {4}\<rparr>"])
    (simp add: kern_simps tcp_inv_simps, auto simp: tcp_inv_simps)

lemma srv_close_s: "tcp_inv fd cport ms s S_close_s n ct k \<Longrightarrow> srv_moves stops fd cport ms s S_close_s f n ct k"
  by (rule srv_next [where pt' = S_ret and f' = f and n' = n and u = "s\<lparr>t_reg := t_reg s - {3}, t_down := t_pend s\<rparr>"])
    (simp add: kern_simps tcp_inv_simps, auto simp: tcp_inv_simps)

lemma srv_ret: "tcp_inv fd cport ms s S_ret n ct k \<Longrightarrow> srv_moves stops fd cport ms s S_ret f n ct k"
  by (rule srv_next [where pt' = S_dead and f' = f and n' = n and u = "s\<lparr>t_down := True\<rparr>"])
    (simp add: kern_simps tcp_inv_simps, auto simp: tcp_inv_simps)

lemma srv_left: "tcp_inv fd cport ms s S_left n ct k \<Longrightarrow> srv_moves stops fd cport ms s S_left f n ct k"
  by (rule srv_next [where pt' = S_del and f' = f and n' = "Suc n" and u = "s\<lparr>t_out := says 0 [left_line] (t_out s)\<rparr>"])
    (simp add: kern_simps, auto simp: tcp_inv_simps server_log_def)

lemma srv_del: "tcp_inv fd cport ms s S_del n ct k \<Longrightarrow> srv_moves stops fd cport ms s S_del f n ct k"
  by (rule srv_next [where pt' = S_drop and f' = f and n' = n and u = "s\<lparr>t_reg := t_reg s - {5}\<rparr>"])
    (simp add: kern_simps tcp_inv_simps, auto simp: tcp_inv_simps)

lemma srv_drop: "tcp_inv fd cport ms s S_drop n ct k \<Longrightarrow> srv_moves stops fd cport ms s S_drop f n ct k"
  by (rule srv_next [where pt' = S_test and f' = f and n' = n and u = "s\<lparr>t_reg := t_reg s - {5}\<rparr>"])
    (simp add: kern_simps tcp_inv_simps, auto simp: tcp_inv_simps)

text \<open>A message is taken from the stream as a whole, logged and echoed.\<close>

lemma server_log_next: "0 < n \<Longrightarrow> n \<le> length ms \<Longrightarrow> take (Suc n) (server_log cport ms) = take n (server_log cport ms) @ [got_line (ms ! (n - 1))]"
  by (subst take_Suc_conv_app_nth) (auto simp: server_log_def nth_append nth_Cons')

lemma srv_recv:
  assumes ms: "sendable ms" and inv: "tcp_inv fd cport ms s S_recv n ct k"
  shows "srv_moves stops fd cport ms s S_recv f n ct k"
proof (rule srv_next [where pt' = S_got and f' = f and n' = n and u = "s\<lparr>t_c2s := []\<rparr>"])
  let ?m = "ms ! (n - 1)"
  have n: "0 < n" "n \<le> length ms" using inv by (auto simp: tcp_inv_simps)
  have m: "?m \<noteq> []" "NUL \<notin> set ?m" "length ?m \<le> 1017" using sendable_at [OF ms, of "n - 1"] n by auto
  have c2s: "t_c2s s = ?m" using inv n by (auto simp: tcp_inv_simps min_def split: if_splits)
  have fits: "length (echo_reply ?m) \<le> length (snprintf_bytes 1040 (echo_reply ?m))" "take (length (echo_reply ?m)) (snprintf_bytes 1040 (echo_reply ?m)) = echo_reply ?m"
    using echo_fits [of ?m] m by simp_all
  show "net_step (tcp_kern stops cport) tcp_ends 0 s (server_at cport ms S_recv f n) = Some (s\<lparr>t_c2s := []\<rparr>, server_at cport ms S_got f n)"
    using m c2s fits by (simp add: handle_client_def kern_simps at_index_def Let_def got_line_def srv_rest_def)
  show "tcp_inv fd cport ms (s\<lparr>t_c2s := []\<rparr>) S_got n ct k" using inv n by (auto simp: tcp_inv_simps min_def split: if_splits)
qed simp

lemma srv_got:
  assumes inv: "tcp_inv fd cport ms s S_got n ct k"
  shows "srv_moves stops fd cport ms s S_got f n ct k"
proof (rule srv_next [where pt' = S_echo and f' = f and n' = "Suc n" and u = "s\<lparr>t_out := says 0 [got_line (ms ! (n - 1))] (t_out s)\<rparr>"])
  have n: "0 < n" "n \<le> length ms" "counts_ok (length ms) S_echo (Suc n) ct k" using inv by (auto simp: tcp_inv_def counts_ok_def)
  then show "tcp_inv fd cport ms (s\<lparr>t_out := says 0 [got_line (ms ! (n - 1))] (t_out s)\<rparr>) S_echo (Suc n) ct k"
    using inv by (simp add: tcp_inv_def kernel_ok_def srv_gone_def closing_def says_def log_lines_def server_log_next)
qed (simp_all add: kern_simps)

lemma srv_echo:
  assumes inv: "tcp_inv fd cport ms s S_echo n ct k"
  shows "srv_moves stops fd cport ms s S_echo f n ct k"
proof (rule srv_next [where pt' = S_test and f' = f and n' = n and u = "s\<lparr>t_s2c := echo_reply (ms ! (n - 2))\<rparr>"])
  have n: "1 < n" "n \<le> Suc (length ms)" "answered_by ct k = n - 2" "t_s2c s = []" using inv by (auto simp: tcp_inv_simps)
  show "net_step (tcp_kern stops cport) tcp_ends 0 s (server_at cport ms S_echo f n)
      = Some (s\<lparr>t_s2c := echo_reply (ms ! (n - 2))\<rparr>, server_at cport ms S_test f n)"
    using n(4) by (simp add: kern_simps)
  show "tcp_inv fd cport ms (s\<lparr>t_s2c := echo_reply (ms ! (n - 2))\<rparr>) S_test n ct k"
    using inv n by (auto simp: tcp_inv_simps min_def split: if_splits)
qed simp

lemma srv_all: "sendable ms \<Longrightarrow> tcp_inv fd cport ms s pt n ct k \<Longrightarrow> srv_moves stops fd cport ms s pt f n ct k"
  by (cases pt) (simp_all add: srv_start srv_test srv_wait srv_accept srv_new srv_add srv_recv srv_got srv_echo srv_left srv_del srv_drop
    srv_down srv_close_ep srv_close_s srv_ret, simp add: srv_moves_def)

section \<open>Steps of the client\<close>

fun crank :: "nat \<Rightarrow> cpt \<Rightarrow> nat \<Rightarrow> nat" where
  "crank N K_hello k = 5 * N + 9"
| "crank N K_send k = 5 * (N - k) + 7"
| "crank N K_wait k = 5 * (N - k) + 6"
| "crank N K_reply k = 5 * (N - k) + 5"
| "crank N K_pause k = 5 * (N - k) + 8"
| "crank N K_close k = 4"
| "crank N K_bye k = 3"
| "crank N K_ret k = 2"
| "crank N K_dead k = 1"

definition cl_moves :: "(nat \<Rightarrow> bool) \<Rightarrow> int \<Rightarrow> nat \<Rightarrow> string list \<Rightarrow> tcpn \<Rightarrow> spt \<Rightarrow> nat \<Rightarrow> cpt \<Rightarrow> nat \<Rightarrow> bool" where
  "cl_moves stops fd cport ms s pt n ct k \<longleftrightarrow>
     (\<forall>u l. net_step (tcp_kern stops cport) tcp_ends 1 s (client_at fd ms ct k) = Some (u, l) \<longrightarrow>
        (\<exists>ct' k'. l = client_at fd ms ct' k' \<and> tcp_inv fd cport ms u pt n ct' k' \<and> crank (length ms) ct' k' < crank (length ms) ct k))"

lemma cl_next:
  assumes "net_step (tcp_kern stops cport) tcp_ends 1 s (client_at fd ms ct k) = Some (u, client_at fd ms ct' k')"
    and "tcp_inv fd cport ms u pt n ct' k'" and "crank (length ms) ct' k' < crank (length ms) ct k"
  shows "cl_moves stops fd cport ms s pt n ct k"
  using assms unfolding cl_moves_def by (metis Pair_inject option.inject)

lemma talk_rest_Nil [simp]: "talk_rest fd [] = client_end fd"
  by (simp add: talk_rest_def)

text \<open>The server's point stays, and so does what the kernel keeps for it.\<close>

lemmas cl_simps = tcp_inv_def kernel_ok_def talk_lines_def says_def over_def

lemma cl_hello:
  assumes inv: "tcp_inv fd cport ms s pt n K_hello k"
  shows "cl_moves stops fd cport ms s pt n K_hello k"
proof (rule cl_next [where ct' = "if ms = [] then K_close else K_send" and k' = 0 and u = "s\<lparr>t_out := says 1 [hello_line fd] (t_out s)\<rparr>"])
  have "counts_ok (length ms) pt n (if ms = [] then K_close else K_send) 0" using inv by (auto simp: tcp_inv_def counts_ok_def)
  then show "tcp_inv fd cport ms (s\<lparr>t_out := says 1 [hello_line fd] (t_out s)\<rparr>) pt n (if ms = [] then K_close else K_send) 0"
    using inv by (cases "ms = []") (simp_all add: cl_simps)
qed (simp_all add: client_talk_def talk_rest_def hello_line_def kern_simps)

lemma cl_send:
  assumes inv: "tcp_inv fd cport ms s pt n K_send k"
  shows "cl_moves stops fd cport ms s pt n K_send k"
proof (rule cl_next [where ct' = K_wait and k' = k and u = "if t_down s then s else s\<lparr>t_c2s := ms ! k\<rparr>"])
  have k: "k < length ms" "got_by (length ms) pt n = k" "echoed_by (length ms) pt n = k" "counts_ok (length ms) pt n K_wait k"
    using inv by (auto simp: tcp_inv_def counts_ok_def)
  have "drop k ms = ms ! k # drop (Suc k) ms" using k(1) by (simp add: Cons_nth_drop_Suc)
  moreover have "t_down s \<or> t_c2s s = []" using inv k by (simp add: cl_simps)
  ultimately show "net_step (tcp_kern stops cport) tcp_ends 1 s (client_at fd ms K_send k)
      = Some (if t_down s then s else s\<lparr>t_c2s := ms ! k\<rparr>, client_at fd ms K_wait k)"
    by (auto simp: talk_rest_def kern_simps)
  show "tcp_inv fd cport ms (if t_down s then s else s\<lparr>t_c2s := ms ! k\<rparr>) pt n K_wait k"
    using inv k by (cases "t_down s") (simp_all add: cl_simps)
qed simp

lemma reply_text: "NUL \<notin> set m \<Longrightarrow> cstr (echo_reply m @ [NUL]) = echo_reply m"
  by (rule cstr_no_NUL) (simp add: echo_reply_def)

lemma cl_wait:
  assumes ms: "sendable ms" and inv: "tcp_inv fd cport ms s pt n K_wait k"
  shows "cl_moves stops fd cport ms s pt n K_wait k"
proof -
  let ?m = "ms ! k" and ?e = "echoed_by (length ms) pt n"
  have k: "k < length ms" using inv by (simp add: tcp_inv_def counts_ok_def)
  have m: "NUL \<notin> set ?m" "length ?m \<le> 1017" using sendable_at [OF ms k] by auto
  have s2c: "t_s2c s = (if k < ?e then echo_reply ?m else [])" using inv by (simp add: cl_simps)
  consider "k < ?e" | "\<not> k < ?e" "t_down s" | "\<not> k < ?e" "\<not> t_down s" by blast
  then show ?thesis
  proof cases
    case 1
    have "counts_ok (length ms) pt n K_reply k" using 1 inv by (simp add: tcp_inv_def counts_ok_def)
    moreover have "?e = Suc k" "got_by (length ms) pt n = Suc k" using 1 inv by (auto simp: tcp_inv_def counts_ok_def)
    ultimately have "tcp_inv fd cport ms (s\<lparr>t_s2c := []\<rparr>) pt n K_reply k" using inv by (simp add: cl_simps)
    then show ?thesis
      by (rule cl_next [rotated])
        (use m s2c 1 reply_text [OF m(1)] in \<open>simp_all add: kern_simps at_index_def reply_line_def talk_rest_def echo_reply_def\<close>)
  next
    case 2
    have "counts_ok (length ms) pt n K_close k" using inv k by (simp add: tcp_inv_def counts_ok_def)
    then have "tcp_inv fd cport ms s pt n K_close k" using inv 2 k by (simp add: cl_simps)
    then show ?thesis by (rule cl_next [rotated]) (use 2 s2c in \<open>simp_all add: kern_simps\<close>)
  next
    case 3
    then show ?thesis using s2c by (simp add: cl_moves_def kern_simps)
  qed
qed

lemma cl_reply:
  assumes inv: "tcp_inv fd cport ms s pt n K_reply k"
  shows "cl_moves stops fd cport ms s pt n K_reply k"
proof (rule cl_next [where ct' = K_pause and k' = "Suc k" and u = "s\<lparr>t_out := says 1 [reply_line (ms ! k)] (t_out s)\<rparr>"])
  have k: "k < length ms" "counts_ok (length ms) pt n K_pause (Suc k)" using inv by (auto simp: tcp_inv_def counts_ok_def)
  show "crank (length ms) K_pause (Suc k) < crank (length ms) K_reply k" using k(1) by simp
  from k show "tcp_inv fd cport ms (s\<lparr>t_out := says 1 [reply_line (ms ! k)] (t_out s)\<rparr>) pt n K_pause (Suc k)"
    using inv by (simp add: cl_simps take_Suc_conv_app_nth)
qed (simp_all add: kern_simps)

lemma cl_pause:
  assumes inv: "tcp_inv fd cport ms s pt n K_pause k"
  shows "cl_moves stops fd cport ms s pt n K_pause k"
proof (rule cl_next [where ct' = "if k < length ms then K_send else K_close" and k' = k and u = s])
  have "counts_ok (length ms) pt n (if k < length ms then K_send else K_close) k" "k \<le> length ms" using inv by (auto simp: tcp_inv_def counts_ok_def)
  then show "tcp_inv fd cport ms s pt n (if k < length ms then K_send else K_close) k"
    using inv by (cases "k < length ms") (simp_all add: cl_simps)
qed (simp_all add: kern_simps)

lemma cl_end:
  assumes inv: "tcp_inv fd cport ms s pt n ct k" and "over ct"
  shows "cl_moves stops fd cport ms s pt n ct k"
proof -
  have counts: "counts_ok (length ms) pt n ct' k" if "over ct'" for ct'
    using inv assms(2) that by (auto simp: tcp_inv_def counts_ok_def over_def)
  have next1: "tcp_inv fd cport ms (s\<lparr>t_closed := True\<rparr>) pt n K_bye k" if "ct = K_close"
    using inv counts [of K_bye] that by (simp add: cl_simps)
  have next2: "tcp_inv fd cport ms (s\<lparr>t_out := says 1 [''[CLIENT] Done.''] (t_out s)\<rparr>) pt n K_ret k" if "ct = K_bye"
    using inv counts [of K_ret] that by (simp add: cl_simps)
  have next3: "tcp_inv fd cport ms (s\<lparr>t_closed := True\<rparr>) pt n K_dead k" if "ct = K_ret"
    using inv counts [of K_dead] that by (simp add: cl_simps)
  consider "ct = K_close" | "ct = K_bye" | "ct = K_ret" | "ct = K_dead" using assms(2) by (auto simp: over_def)
  then show ?thesis
  proof cases
    case 1
    with next1 show ?thesis by (intro cl_next [where ct' = K_bye]) (auto simp: client_end_def kern_simps)
  next
    case 2
    with next2 show ?thesis by (intro cl_next [where ct' = K_ret]) (auto simp: kern_simps)
  next
    case 3
    with next3 show ?thesis by (intro cl_next [where ct' = K_dead]) (auto simp: kern_simps)
  next
    case 4
    then show ?thesis by (simp add: cl_moves_def)
  qed
qed

lemma cl_all: "sendable ms \<Longrightarrow> tcp_inv fd cport ms s pt n ct k \<Longrightarrow> cl_moves stops fd cport ms s pt n ct k"
  by (cases ct) (simp_all add: cl_hello cl_send cl_wait cl_reply cl_pause cl_end over_def)

section \<open>Runs\<close>

abbreviation tcp_step :: "(nat \<Rightarrow> bool) \<Rightarrow> nat \<Rightarrow> tcpn \<times> int pst list \<Rightarrow> tcpn \<times> int pst list \<Rightarrow> bool" where
  "tcp_step stops cport \<equiv> pool_step (net_step (tcp_kern stops cport) tcp_ends)"

abbreviation tcp_begin :: "nat \<Rightarrow> int \<Rightarrow> string list \<Rightarrow> tcpn \<times> int pst list" where
  "tcp_begin fuel fd ms \<equiv> (tcp_start, [Live (serve fuel 4 3), Live (client_talk fd ms)])"

text \<open>A state of a run with at most \<open>b\<close> steps to go.\<close>

definition tcp_ok :: "int \<Rightarrow> nat \<Rightarrow> string list \<Rightarrow> nat \<Rightarrow> tcpn \<times> int pst list \<Rightarrow> bool" where
  "tcp_ok fd cport ms b st \<longleftrightarrow> sendable ms \<and> (\<exists>pt f n ct k. snd st = [server_at cport ms pt f n, client_at fd ms ct k]
     \<and> tcp_inv fd cport ms (fst st) pt n ct k \<and> srank pt f + crank (length ms) ct k \<le> b)"

definition tcp_work :: "int \<Rightarrow> nat \<Rightarrow> string list \<Rightarrow> tcpn \<times> int pst list \<Rightarrow> nat" where
  "tcp_work fd cport ms st = (LEAST b. tcp_ok fd cport ms b st)"

text \<open>The server has used up its fuel, or both processes have returned 0.\<close>

definition tcp_final :: "tcpn \<times> int pst list \<Rightarrow> bool" where
  "tcp_final st \<longleftrightarrow> hd (snd st) = Live More \<or> snd st = [Dead (Done 0), Dead (Done 0)]"

lemma tcp_okI:
  "sendable ms \<Longrightarrow> tcp_inv fd cport ms s pt n ct k \<Longrightarrow>
     tcp_ok fd cport ms (srank pt f + crank (length ms) ct k) (s, [server_at cport ms pt f n, client_at fd ms ct k])"
  unfolding tcp_ok_def by fastforce

lemma tcp_ok_step:
  assumes "tcp_ok fd cport ms b st" and "tcp_step stops cport st t"
  shows "\<exists>c < b. tcp_ok fd cport ms c t"
proof -
  obtain pt f n ct k where ms: "sendable ms" and st: "snd st = [server_at cport ms pt f n, client_at fd ms ct k]"
    and inv: "tcp_inv fd cport ms (fst st) pt n ct k" and b: "srank pt f + crank (length ms) ct k \<le> b"
    using assms(1) by (auto simp: tcp_ok_def)
  obtain i u l where i: "i < length (snd st)" "net_step (tcp_kern stops cport) tcp_ends i (fst st) (snd st ! i) = Some (u, l)" "t = (u, (snd st)[i := l])"
    using assms(2) by (auto simp: pool_step_def)
  consider "i = 0" | "i = 1" using i(1) st by fastforce
  then show ?thesis
  proof cases
    case 1
    then obtain pt' f' n' where "l = server_at cport ms pt' f' n'" "tcp_inv fd cport ms u pt' n' ct k" "srank pt' f' < srank pt f"
      using srv_all [OF ms inv, of stops f] i(2) st by (auto simp: srv_moves_def)
    then show ?thesis using tcp_okI [OF ms, of fd cport u pt' n' ct k f'] b i(3) st 1
      by (intro exI [of _ "srank pt' f' + crank (length ms) ct k"]) simp
  next
    case 2
    then obtain ct' k' where "l = client_at fd ms ct' k'" "tcp_inv fd cport ms u pt n ct' k'" "crank (length ms) ct' k' < crank (length ms) ct k"
      using cl_all [OF ms inv, of stops] i(2) st by (auto simp: cl_moves_def)
    then show ?thesis using tcp_okI [OF ms, of fd cport u pt n ct' k' f] b i(3) st 2
      by (intro exI [of _ "srank pt f + crank (length ms) ct' k'"]) simp
  qed
qed

lemma server_enabled: "pt \<noteq> S_dead \<Longrightarrow> pt = S_test \<longrightarrow> 0 < f \<Longrightarrow> net_step (tcp_kern stops cport) tcp_ends 0 s (server_at cport ms pt f n) \<noteq> None"
  by (cases pt; cases f) (simp_all add: serve_def srv_rest_def handle_new_connection_def handle_client_def tcp_kern_def split: prod.splits)

lemma call_when_down: "t_down s \<Longrightarrow> net_step (tcp_kern stops cport) tcp_ends 1 s (Live (Sys c q)) \<noteq> None"
  by (cases c) (simp_all add: tcp_kern_def tcp_client_kern_def)

lemma client_enabled:
  assumes inv: "tcp_inv fd cport ms s S_dead n ct k" and "ct \<noteq> K_dead"
  shows "net_step (tcp_kern stops cport) tcp_ends 1 s (client_at fd ms ct k) \<noteq> None"
proof -
  have down: "t_down s" and wf: "client_wf (length ms) ct k" using inv by (auto simp: tcp_inv_def kernel_ok_def counts_ok_def srv_gone_def)
  have "drop k ms = ms ! k # drop (Suc k) ms" if "k < length ms" using that by (simp add: Cons_nth_drop_Suc)
  then show ?thesis using assms(2) wf call_when_down [OF down]
    by (cases ct) (simp_all add: client_talk_def talk_rest_def client_end_def del: net_step.simps(1))
qed

lemma tcp_progress:
  assumes "tcp_ok fd cport ms b st" and "\<not> tcp_final st"
  shows "\<exists>t. tcp_step stops cport st t"
proof -
  obtain pt f n ct k where st: "snd st = [server_at cport ms pt f n, client_at fd ms ct k]" and inv: "tcp_inv fd cport ms (fst st) pt n ct k"
    using assms(1) by (auto simp: tcp_ok_def)
  have "\<exists>i < length (snd st). net_step (tcp_kern stops cport) tcp_ends i (fst st) (snd st ! i) \<noteq> None"
  proof (cases "pt = S_dead")
    case True
    then have "ct \<noteq> K_dead" using assms(2) st by (auto simp: tcp_final_def)
    then show ?thesis using client_enabled inv True st by (intro exI [of _ 1]) simp
  next
    case False
    moreover have "pt = S_test \<longrightarrow> 0 < f" using assms(2) st by (cases f) (auto simp: tcp_final_def srv_rest_def)
    ultimately show ?thesis using server_enabled [of pt f] st by (intro exI [of _ 0]) simp
  qed
  then show ?thesis by (fastforce simp: pool_step_def)
qed

interpretation tcpn: bounded_system "\<lambda>st. sendable ms \<and> st = tcp_begin fuel fd ms" "tcp_step stops cport" "\<lambda>st. \<exists>b. tcp_ok fd cport ms b st"
  "tcp_work fd cport ms" tcp_final for fuel fd ms stops cport
proof (unfold_locales, goal_cases)
  case (1 st)
  then have "tcp_ok fd cport ms (srank S_start fuel + crank (length ms) K_hello 0) st"
    using tcp_okI [OF _ tcp_start_inv, of ms fd cport fuel] by simp
  then show ?case by blast
next
  case (2 s t)
  then show ?case using tcp_ok_step by blast
next
  case (3 s t)
  then have "tcp_ok fd cport ms (tcp_work fd cport ms s) s" unfolding tcp_work_def by (auto intro: LeastI)
  then obtain c where "c < tcp_work fd cport ms s" "tcp_ok fd cport ms c t" using tcp_ok_step 3(1) by blast
  then show ?case unfolding tcp_work_def by (meson Least_le le_less_trans)
next
  case (4 s)
  then show ?case using tcp_progress by blast
qed

text \<open>
  What the invariant says of the lines printed and of a client that ended.
\<close>

lemma tcp_ok_lines:
  assumes "tcp_ok fd cport ms b (s, [srv, cl])"
  shows "\<exists>k \<le> length ms. prefix (t_out s 1) (client_log fd (take k ms)) \<and> (k < length ms \<longrightarrow> t_down s)
      \<and> (is_dead cl \<longrightarrow> cl = Dead (Done 0) \<and> t_out s 1 = client_log fd (take k ms))"
    and "\<exists>j. t_out s 0 = take j (server_log cport ms) \<or> t_out s 0 = take j (server_log cport ms) @ [''[SERVER] Shutting down.'']"
proof -
  obtain pt f n ct k where cl: "cl = client_at fd ms ct k" and inv: "tcp_inv fd cport ms s pt n ct k"
    using assms by (auto simp: tcp_ok_def)
  have out: "t_out s 1 = talk_lines fd ms ct k" "t_out s 0 = log_lines cport ms pt n" and early: "over ct \<Longrightarrow> k < length ms \<Longrightarrow> t_down s"
    and k: "k \<le> length ms" "ct = K_hello \<Longrightarrow> k = 0"
    using inv by (cases ct; auto simp: tcp_inv_def kernel_ok_def counts_ok_def)+
  have all: "prefix (hello_line fd # map reply_line (take k ms)) (client_log fd ms)"
    unfolding client_log_def by (simp add: take_map [symmetric] prefix_prefix take_is_prefix)
  show "\<exists>k \<le> length ms. prefix (t_out s 1) (client_log fd (take k ms)) \<and> (k < length ms \<longrightarrow> t_down s)
      \<and> (is_dead cl \<longrightarrow> cl = Dead (Done 0) \<and> t_out s 1 = client_log fd (take k ms))"
  proof (cases "over ct")
    case True
    then show ?thesis using early k(1) out(1) cl
      by (intro exI [of _ k]) (auto simp: over_def talk_lines_def client_log_def)
  next
    case False
    then have "\<not> is_dead cl" "prefix (t_out s 1) (client_log fd ms)" using out(1) cl all by (cases ct; simp add: over_def talk_lines_def)+
    then show ?thesis by (intro exI [of _ "length ms"]) simp
  qed
  show "\<exists>j. t_out s 0 = take j (server_log cport ms) \<or> t_out s 0 = take j (server_log cport ms) @ [''[SERVER] Shutting down.'']"
    using out(2) by (auto simp: log_lines_def)
qed

section \<open>Properties\<close>


text \<open>A whole conversation: the client is served, says goodbye, and the server is stopped.\<close>

lemmas tcp_run_simps = kern_simps tcp_events_def srv_rest_def serve_def handle_event_def handle_new_connection_def handle_client_def
  at_index_def Let_def cstr_def echo_reply_def snprintf_bytes_def peer_text_def localhost new_line_def got_line_def left_line_def
  client_talk_def client_end_def hello_line_def reply_line_def says_def

abbreviation tcp_demo_solo :: "nat \<Rightarrow> nat \<Rightarrow> tcpn \<Rightarrow> int pst \<Rightarrow> (tcpn \<times> int pst) option" where
  "tcp_demo_solo \<equiv> solo (tcp_kern (\<lambda>n. n = 3) 40000) tcp_ends"




end
