(* ===== verification/Device_Test.thy ===== *)
theory Device_Test
  imports Chardev
begin

text \<open>
  \<^verbatim>\<open>10_device_driver/test/device_driver_test.c\<close> run against the model of the driver it tests: each system call of
  the program is the driver's handler. The C library turns a negative result of a handler into -1. \<open>stack\<close>
  is what the program's buffer holds before it is used. \<open>None\<close> stands for a handler that does not return.

  Shown: what the program prints for any state the device is in, and when its store behind the bytes it read
  is outside its buffer.
\<close>

section \<open>The program\<close>

datatype test_line = Buf_len int | Read_back int string | After_reset int

definition dev_call ::
    "kernel \<Rightarrow> chardev_op \<Rightarrow> (int \<Rightarrow> byte list \<Rightarrow> kernel \<Rightarrow> (c_error + 'a) option) \<Rightarrow> (c_error + 'a) option" where
  "dev_call k op cont =
     (case chardev_fops k op of None \<Rightarrow> None | Some (r, out, k') \<Rightarrow> cont (if r < 0 then -1 else r) out k')"

text \<open>The int variable an ioctl stores to; it is not initialised before.\<close>

definition stored_int :: "int \<Rightarrow> byte list \<Rightarrow> c_int option \<Rightarrow> c_int option" where
  "stored_int r out old = (if r = 0 then Some (bytes_int out) else old)"

abbreviation user_str :: "string \<Rightarrow> nat \<Rightarrow> byte" where
  "user_str s \<equiv> (\<lambda>i. s ! i)"

abbreviation gsize_op :: chardev_op where
  "gsize_op \<equiv> Op_ioctl copy_mapped copy_mapped CHARDEV_GSIZE (\<lambda>_. NUL)"

abbreviation secho_op :: "c_int \<Rightarrow> chardev_op" where
  "secho_op v \<equiv> Op_ioctl copy_mapped copy_mapped CHARDEV_SECHO (user_str (int_bytes v))"

abbreviation reset_op :: chardev_op where
  "reset_op \<equiv> Op_ioctl copy_mapped copy_mapped CHARDEV_RESET (\<lambda>_. NUL)"

text \<open>Steps 2.2 to 5 of the program, after the data was read back.\<close>

definition test_rest :: "c_int \<Rightarrow> test_line list \<Rightarrow> kernel \<Rightarrow> (c_error + test_line list \<times> kernel) option" where
  "test_rest sz ls k =
     dev_call k (Op_write copy_mapped (user_str ''h'') 1) (\<lambda>_ _ k.
     dev_call k (secho_op 0) (\<lambda>_ _ k.
     dev_call k reset_op (\<lambda>_ _ k.
     dev_call k gsize_op (\<lambda>r out k.
       case stored_int r out (Some sz) of
         None \<Rightarrow> Some (Inl Uninit_Read)
       | Some sz \<Rightarrow>
           let (_, k) = chardev_release \<lparr>i_cdev = G_dev\<rparr> \<lparr>private_data = Some G_dev\<rparr> k
           in Some (Inr (ls @ [After_reset (sint sz)], k))))))"

definition device_driver_test :: "int \<Rightarrow> byte list \<Rightarrow> kernel \<Rightarrow> (c_error + test_line list \<times> kernel) option" where
  "device_driver_test pid stack k =
     (let (_, _, k) = chardev_open pid \<lparr>i_cdev = G_dev\<rparr> \<lparr>private_data = None\<rparr> k
      in dev_call k (Op_write copy_mapped (user_str ''hello'') 5) (\<lambda>_ _ k.
         dev_call k gsize_op (\<lambda>r out k.
           case stored_int r out None of
             None \<Rightarrow> Some (Inl Uninit_Read)
           | Some sz \<Rightarrow>
               dev_call k (Op_read copy_mapped 16) (\<lambda>n out k.
                 case store_at (put_at stack 0 out) n NUL of
                   Inl e \<Rightarrow> Some (Inl e)
                 | Inr ub \<Rightarrow> test_rest sz [Buf_len (sint sz), Read_back n (cstr ub)] k))))"

section \<open>Lemmas\<close>

lemma user_str_block: "n \<le> length s \<Longrightarrow> user_block (user_str s) n = take n s"
  by (simp add: user_block_def) (metis map_nth take_map take_upt plus_nat.add_0)

lemma write_call:
  assumes "chardev_inv k" and "unat cnt \<le> length s"
  shows "\<exists>r k'. chardev_fops k (Op_write copy_mapped (user_str s) cnt) = Some (r, [], k') \<and> chardev_inv k'
     \<and> chardev_content k' = chardev_content k @ take (min (unat cnt) (BUF_SIZE - length (chardev_content k))) s
     \<and> echo (g_dev k') = echo (g_dev k)"
proof (cases "length (chardev_content k) < BUF_SIZE")
  case True
  have "snd (copy_mapped (write_take k (user_str s) cnt)) = 0" by (simp add: copy_mapped_def)
  from chardev_write_data [OF assms(1) True copy_mapped_ok(2) this, of 0] show ?thesis
    using assms(2) by (auto simp: chardev_fops_def write_take_def user_str_block)
next
  case False
  then have "length (chardev_content k) = BUF_SIZE" using assms(1) by (simp add: content_length chardev_inv_def)
  then show ?thesis using assms(1) chardev_write_full [OF assms(1)] by (simp add: chardev_fops_def)
qed

lemma gsize_call: "chardev_inv k \<Longrightarrow>
    chardev_fops k gsize_op = Some (0, int_bytes (of_nat (length (chardev_content k))), k)"
  by (simp add: chardev_fops_def chardev_ioctl_gsize copy_mapped_def)

lemma read_call:
  assumes "chardev_inv k" and "chardev_content k \<noteq> []"
  shows "\<exists>k'. chardev_fops k (Op_read copy_mapped cnt) =
       Some (int (min (unat cnt) (length (chardev_content k))), take (unat cnt) (chardev_content k), k')
     \<and> chardev_inv k' \<and> chardev_content k' = drop (unat cnt) (chardev_content k)"
  using chardev_read_data [OF assms copy_mapped_ok(1), of cnt 0] by (auto simp: chardev_fops_def copy_mapped_def)

lemma secho_call:
  assumes "chardev_inv k"
  shows "\<exists>k'. chardev_fops k (secho_op v) = Some (0, [], k') \<and> chardev_inv k'
     \<and> chardev_content k' = chardev_content k \<and> echo (g_dev k') = v"
  using chardev_ioctl_secho [OF assms copy_mapped_ok(2), of "user_str (int_bytes v)" copy_mapped]
  by (auto simp: chardev_fops_def copy_mapped_def user_str_block)

lemma reset_call:
  assumes "chardev_inv k"
  shows "\<exists>k'. chardev_fops k reset_op = Some (0, [], k') \<and> chardev_inv k' \<and> chardev_content k' = [] \<and> echo (g_dev k') = echo (g_dev k)"
  using chardev_ioctl_reset [OF assms, of copy_mapped copy_mapped] by (auto simp: chardev_fops_def)

lemma sint_of_small: "n \<le> BUF_SIZE \<Longrightarrow> sint (of_nat n :: c_int) = int n"
  by (simp add: BUF_SIZE_def signed_of_nat signed_take_bit_int_eq_self)

lemma cstr_at:
  assumes "length out < length stack"
  shows "cstr ((put_at stack 0 out)[length out := NUL]) = cstr out"
proof -
  obtain y ys where "drop (length out) stack = y # ys" using assms by (metis Cons_nth_drop_Suc)
  then have "(put_at stack 0 out)[length out := NUL] = out @ NUL # ys" by (simp add: put_at_def)
  moreover have "takeWhile (\<lambda>c. c \<noteq> NUL) (out @ NUL # ys) = takeWhile (\<lambda>c. c \<noteq> NUL) out" by (induction out) auto
  ultimately show ?thesis by (simp add: cstr_def)
qed

lemma printk_same [simp]: "chardev_inv (printk l k) = chardev_inv k" "chardev_content (printk l k) = chardev_content k"
  "g_dev (printk l k) = g_dev k"
  by (simp_all add: printk_def chardev_inv_def chardev_content_def)

lemma test_rest_lines:
  assumes "chardev_inv k"
  shows "\<exists>k'. test_rest sz ls k = Some (Inr (ls @ [After_reset 0], k')) \<and> chardev_inv k'
     \<and> chardev_content k' = [] \<and> echo (g_dev k') = 0"
proof -
  obtain r k1 where k1: "chardev_fops k (Op_write copy_mapped (user_str ''h'') 1) = Some (r, [], k1)" "chardev_inv k1"
    using write_call [OF assms, of 1 "''h''"] by auto
  obtain k2 where k2: "chardev_fops k1 (secho_op 0) = Some (0, [], k2)" "chardev_inv k2" "echo (g_dev k2) = 0"
    using secho_call [OF k1(2), of 0] by auto
  obtain k3 where k3: "chardev_fops k2 reset_op = Some (0, [], k3)" "chardev_inv k3" "chardev_content k3 = []" "echo (g_dev k3) = 0"
    using reset_call [OF k2(2)] k2(3) by auto
  have "bytes_int (int_bytes 0) = 0" by simp
  then show ?thesis
    using k1 k2 k3 gsize_call [OF k3(2)]
    by (simp add: test_rest_def dev_call_def stored_int_def chardev_release_def)
qed

section \<open>Property\<close>

text \<open>
  C27. \<^verbatim>\<open>device_driver_test.c\<close> against the driver, for any bytes \<open>c\<close> stored in the device before: with fewer than 11
  of them it prints the size, reads everything back (its comment says that the read returns 0), and after
  the reset prints 0 and leaves the device empty with echo off; with 11 or more its read returns 16 and
  \<^verbatim>\<open>buf[n] = '\0'\<close> is outside \<^verbatim>\<open>buf\<close>.
\<close>

theorem device_driver_test_output:
  assumes "chardev_inv k" and "length stack = 16" and "c = chardev_content k"
  shows "if length c < 11
     then \<exists>k'. device_driver_test pid stack k =
            Some (Inr ([Buf_len (int (length c) + 5), Read_back (int (length c) + 5) (cstr (c @ ''hello'')), After_reset 0], k'))
            \<and> chardev_content k' = [] \<and> echo (g_dev k') = 0
     else device_driver_test pid stack k = Some (Inl Out_Of_Bounds)"
proof -
  let ?k = "printk (Log_open pid) k"
  obtain r k1 where k1: "chardev_fops ?k (Op_write copy_mapped (user_str ''hello'') 5) = Some (r, [], k1)" "chardev_inv k1"
      "chardev_content k1 = c @ take (min 5 (BUF_SIZE - length c)) ''hello''"
    using write_call [of ?k 5 "''hello''"] assms(1,3) by auto
  let ?c = "chardev_content k1"
  have "length c \<le> BUF_SIZE" using assms(1,3) by (simp add: content_length chardev_inv_def)
  then have len: "length ?c = min (length c + 5) BUF_SIZE" using k1(3) by simp
  then have ne: "?c \<noteq> []" "length ?c \<le> BUF_SIZE" by (auto simp: BUF_SIZE_def)
  obtain k2 where k2: "chardev_fops k1 (Op_read copy_mapped 16) = Some (int (min 16 (length ?c)), take 16 ?c, k2)" "chardev_inv k2"
    using read_call [OF k1(2) ne(1), of 16] by auto
  have run: "device_driver_test pid stack k =
      (case store_at (put_at stack 0 (take 16 ?c)) (int (min 16 (length ?c))) NUL of
         Inl e \<Rightarrow> Some (Inl e)
       | Inr ub \<Rightarrow> test_rest (of_nat (length ?c)) [Buf_len (int (length ?c)), Read_back (int (min 16 (length ?c))) (cstr ub)] k2)"
    using k1(1) k2(1) gsize_call [OF k1(2)] sint_of_small [OF ne(2)]
    by (simp add: device_driver_test_def chardev_open_def dev_call_def stored_int_def split: sum.splits)
  have buf: "length (put_at stack 0 (take 16 ?c)) = 16" using assms(2) by simp
  show ?thesis
  proof (cases "length c < 11")
    case True
    then have c: "?c = c @ ''hello''" "length ?c = length c + 5" using k1(3) by (simp_all add: BUF_SIZE_def)
    have "take 16 ?c = ?c" "min 16 (length ?c) = length ?c" "length ?c < 16" using c True by simp_all
    then have "store_at (put_at stack 0 (take 16 ?c)) (int (min 16 (length ?c))) NUL
        = Inr ((put_at stack 0 ?c)[length ?c := NUL])" using buf by (simp only: store_at_def nat_int) simp
    moreover have "cstr ((put_at stack 0 ?c)[length ?c := NUL]) = cstr ?c" using c True assms(2) by (intro cstr_at) simp
    ultimately show ?thesis
      using run True c test_rest_lines [OF k2(2), of "of_nat (length ?c)"
        "[Buf_len (int (length ?c)), Read_back (int (length ?c)) (cstr ?c)]"] by (auto simp: add.commute)
  next
    case False
    then have "min 16 (length ?c) = 16" using len by (simp add: BUF_SIZE_def)
    then have "store_at (put_at stack 0 (take 16 ?c)) (int (min 16 (length ?c))) NUL = Inl Out_Of_Bounds"
      using buf by (simp add: store_at_def)
    then show ?thesis using run False by simp
  qed
qed

theorem device_driver_test_output_witness:
  "\<exists>k'. device_driver_test 42 (replicate 16 NUL) (fresh_kernel (replicate BUF_SIZE NUL))
     = Some (Inr ([Buf_len 5, Read_back 5 ''hello'', After_reset 0], k'))"
  using device_driver_test_output [of "fresh_kernel (replicate BUF_SIZE NUL)" "replicate 16 NUL" "[]" 42]
  by (auto simp: cstr_def)

end
