(* ===== verification/Fork_Demos.thy ===== *)
theory Fork_Demos
  imports Sys_Prog
begin

text \<open>
  Programs that fork, and \<^verbatim>\<open>01_processes/process_demo.c\<close>. A run follows one process: the answer to \<^verbatim>\<open>fork\<close> decides
  whether it is the child (0) or the parent. What every demo with a child shares is stated once, as the locale
  \<open>forking\<close>: the child's branch never returns to the caller, the parent's branch waits for the child, and a
  failing \<^verbatim>\<open>fork\<close> leaves no child. An \<^verbatim>\<open>exec\<close> that succeeds ends the part of the run that
  is followed.

  Shown: the contract for each demo that waits, the children that the others leave behind, and what this means for
  \<^verbatim>\<open>main\<close>.
\<close>

section \<open>Forking\<close>

definition fork_demo :: "'a prog \<Rightarrow> 'a prog \<Rightarrow> (int \<Rightarrow> 'a prog) \<Rightarrow> 'a prog" where
  "fork_demo failed child parent =
     Sys C_fork (\<lambda>f. if a_ret f < 0 then failed else if a_ret f = 0 then child else parent (a_ret f))"

text \<open>Runs in which the calls a condition names were answered as it says, here waiting that succeeds.\<close>

fun answering :: "(call \<Rightarrow> ans \<Rightarrow> bool) \<Rightarrow> 'a prog \<Rightarrow> ans list \<Rightarrow> bool" where
  "answering ok (Sys c k) (a # as) = (ok c a \<and> answering ok (k a) as)"
| "answering ok p as = True"

primrec wp_if :: "(call \<Rightarrow> ans \<Rightarrow> bool) \<Rightarrow> 'a prog \<Rightarrow> ('a outcome \<Rightarrow> world \<Rightarrow> bool) \<Rightarrow> world \<Rightarrow> bool" where
  "wp_if ok (Ret x) Q w = Q (Done x) w"
| "wp_if ok (Exit n) Q w = Q (Exited n) w"
| "wp_if ok (Fault e) Q w = Q (Faulted e) w"
| "wp_if ok More Q w = Q Unfinished w"
| "wp_if ok (Sys c k) Q w = (Q Unfinished w \<and> (\<forall>a. k_ok c a w \<longrightarrow> ok c a \<longrightarrow> wp_if ok (k a) Q (k_step c a w)))"

lemma wp_if_sound: "wp_if ok p Q w \<Longrightarrow> legal p as w \<Longrightarrow> answering ok p as \<Longrightarrow> exec p as w = (r, w') \<Longrightarrow> Q r w'"
  by (induction p as w rule: exec.induct) auto

lemma wp_if_bind: "wp_if ok (bindp p f) Q w =
  wp_if ok p (\<lambda>r v. case r of Done x \<Rightarrow> wp_if ok (f x) Q v | Exited n \<Rightarrow> Q (Exited n) v | Faulted e \<Rightarrow> Q (Faulted e) v
    | Unfinished \<Rightarrow> Q Unfinished v) w"
  by (induction p arbitrary: w) simp_all

lemma wp_if_mono: "wp_if ok p Q w \<Longrightarrow> (\<And>r w. Q r w \<Longrightarrow> R r w) \<Longrightarrow> wp_if ok p R w"
  by (induction p arbitrary: w) auto

fun waits_ok :: "call \<Rightarrow> ans \<Rightarrow> bool" where
  "waits_ok (C_waitpid p) a = (a_ret a \<noteq> -1)"
| "waits_ok C_wait a = (a_ret a \<noteq> -1)"
| "waits_ok c a = True"

definition no_return :: "'a outcome \<Rightarrow> bool" where
  "no_return r \<longleftrightarrow> (\<forall>x. r \<noteq> Done x)"

definition reaped :: "int \<Rightarrow> 'a outcome \<Rightarrow> world \<Rightarrow> bool" where
  "reaped pid r w = (case r of Done x \<Rightarrow> w_kids w = {} | Exited n \<Rightarrow> n \<noteq> 0 | Faulted e \<Rightarrow> w_kids w = {} | Unfinished \<Rightarrow> w_kids w \<subseteq> {pid})"

definition childless :: "'a outcome \<Rightarrow> world \<Rightarrow> bool" where
  "childless r w \<longleftrightarrow> w_kids w = {} \<and> (\<forall>e. r \<noteq> Faulted e)"

lemma outcome_simps [simp]:
  "no_return (Exited n)" "no_return (Faulted e)" "no_return Unfinished" "\<not> no_return (Done x)"
  "reaped pid (Done x) w = (w_kids w = {})" "reaped pid (Exited n) w = (n \<noteq> 0)" "reaped pid (Faulted e) w = (w_kids w = {})"
  "reaped pid Unfinished w = (w_kids w \<subseteq> {pid})"
  "childless (Done x) w = (w_kids w = {})" "childless (Exited n) w = (w_kids w = {})" "\<not> childless (Faulted e) w"
  "childless Unfinished w = (w_kids w = {})"
  by (simp_all add: no_return_def reaped_def childless_def)

locale forking =
  fixes failed :: "'a prog" and child :: "'a prog" and parent :: "int \<Rightarrow> 'a prog"
  assumes failed_ok: "w_kids w = {} \<Longrightarrow> wp_if waits_ok failed childless w"
    and child_ok: "wp_if waits_ok child (\<lambda>r v. no_return r) w"
    and parent_ok: "0 < pid \<Longrightarrow> w_kids w = {pid} \<Longrightarrow> wp_if waits_ok (parent pid) (reaped pid) w"
begin

lemma fork_run:
  assumes "w_kids w = {}" and "legal (fork_demo failed child parent) (a # as) w"
    and "answering waits_ok (fork_demo failed child parent) (a # as)"
    and "exec (fork_demo failed child parent) (a # as) w = (r, w')"
  shows "if a_ret a < 0 then childless r w' else if a_ret a = 0 then no_return r else reaped (a_ret a) r w'"
proof -
  let ?p = "if a_ret a < 0 then failed else if a_ret a = 0 then child else parent (a_ret a)"
  let ?w = "k_step C_fork a w"
  have run: "legal ?p as ?w" "answering waits_ok ?p as" "exec ?p as ?w = (r, w')"
    using assms(2-4) by (auto simp: fork_demo_def)
  have kids: "w_kids ?w = (if 0 < a_ret a then {a_ret a} else {})" using assms(1) by (simp add: k_defs)
  show ?thesis
    using wp_if_sound [OF failed_ok, of ?w as r w'] wp_if_sound [OF child_ok, of as ?w r w']
      wp_if_sound [OF parent_ok, of "a_ret a" ?w as r w'] run kids by (auto split: if_splits)
qed

end

section \<open>Process demos\<close>

text \<open>
  What \<^verbatim>\<open>status\<close> holds after a wait is the first pair of the answer: 0 or a signal number, and the exit code. A wait that reports
  no child does not set \<^verbatim>\<open>status\<close>, the code examines it all the same, and the pair is then an arbitrary one.
\<close>

definition fork_wait_child :: "unit prog" where
  "fork_wait_child =
     getpid (\<lambda>me. getppid (\<lambda>parent.
       ignore (C_print (''[CHILD ] PID='' @ dec_int me @ '', PPID='' @ dec_int parent @ '' '' @ em_dash @ '' doing work'' @ ellipsis))
         (ignore (C_misc ''sleep'') (ignore (C_print ''[CHILD ] exiting with code 42'') (Exit 42)))))"

definition fork_wait_parent :: "int \<Rightarrow> unit prog" where
  "fork_wait_parent pid =
     getpid (\<lambda>me.
       ignore (C_print (''[PARENT] PID='' @ dec_int me @ '', child PID='' @ dec_int pid @ '' '' @ em_dash @ '' waiting'' @ ellipsis))
         (Sys (C_waitpid pid) (\<lambda>r.
            if fst (hd (a_evs r)) = 0
            then ignore (C_print (''[PARENT] child '' @ dec_int (a_ret r) @ '' exited normally, code='' @ dec_nat (snd (hd (a_evs r))))) (Ret ())
            else Ret ())))"

definition fork_wait_part :: "unit prog" where
  "fork_wait_part = fork_demo (ignore (C_print ''fork'') (Exit 1)) fork_wait_child fork_wait_parent"

definition demo_fork_wait :: "unit prog" where
  "demo_fork_wait =
     banner ''Demo 1: fork() + wait()''
       (ignore (C_misc ''fflush'') fork_wait_part)"

definition exec_child :: "unit prog" where
  "exec_child =
     ignore (C_print (''[CHILD ] about to execl /bin/ls '' @ ellipsis))
       (Sys (C_exec ''/bin/ls -lh .'') (\<lambda>e. if a_ret e = -1 then ignore (C_print ''execl'') (Exit 1) else More))"

definition exec_parent :: "int \<Rightarrow> unit prog" where
  "exec_parent pid = ignore C_wait (ignore (C_print ''[PARENT] exec child finished'') (Ret ()))"

definition exec_part :: "unit prog" where
  "exec_part = fork_demo (ignore (C_print ''fork'') (Ret ())) exec_child exec_parent"

definition demo_exec :: "unit prog" where
  "demo_exec = banner ''Demo 2: fork() + execl()'' exec_part"

definition demo_zombie :: "unit prog" where
  "demo_zombie =
     banner ''Demo 3: Zombie Process''
       (ignore (C_print ''Tip: run  ps aux | grep Z in another terminal to see the zombie'')
         (fork_demo
            (ignore (C_print ''fork'') (Ret ()))
            (getpid (\<lambda>me. ignore (C_print (''[CHILD ] PID='' @ dec_int me @ '' exiting immediately '' @ em_dash @ '' becoming zombie'' @ ellipsis)) (Exit 0)))
            (\<lambda>pid. getpid (\<lambda>me.
               ignore (C_print (''[PARENT] PID='' @ dec_int me @ '' NOT calling wait() for 10 s '' @ em_dash @ '' child is zombie!'')) (Ret ())))))"

definition demo_orphan :: "unit prog" where
  "demo_orphan =
     banner ''Demo 4: Orphan Process''
       (fork_demo
          (ignore (C_print ''fork'') (Ret ()))
          (ignore (C_misc ''sleep'') (getpid (\<lambda>me. getppid (\<lambda>parent.
             ignore (C_print (''[ORPHAN] PID='' @ dec_int me @ '', PPID='' @ dec_int parent @ '' (adopted by init/systemd=1)'')) (Exit 0)))))
          (\<lambda>pid. getpid (\<lambda>me.
             ignore (C_print (''[PARENT] PID='' @ dec_int me @ '' exiting '' @ em_dash @ '' child '' @ dec_int pid @ '' becomes orphan'')) (Exit 0))))"

text \<open>
  The polling loop: \<open>n\<close> rounds are left. While the child runs the code prints \<^verbatim>\<open>WIFEXITED(status)\<close> of a status that
  no \<^verbatim>\<open>waitpid\<close> has set.
\<close>

primrec poll_child :: "nat \<Rightarrow> int \<Rightarrow> unit prog" where
  "poll_child 0 pid = Ret ()"
| "poll_child (Suc n) pid =
     Sys (C_waitpid_nohang pid) (\<lambda>r.
       if a_ret r = 0
       then ignore (C_print (''[PARENT] child still running (poll '' @ dec_nat (6 - n) @ ''),status=''
              @ (if fst (hd (a_evs r)) = 0 then ''1'' else ''0'')))
              (ignore (C_misc ''usleep'') (poll_child n pid))
       else if 0 < a_ret r
       then ignore (C_print (''[PARENT] child pid='' @ dec_int (a_ret r) @ '', exited, code='' @ dec_nat (snd (hd (a_evs r))))) (Ret ())
       else ignore (C_print ''waitpid'') (Ret ()))"

definition demo_waitpid_nohang :: "unit prog" where
  "demo_waitpid_nohang =
     banner ''Demo 5: waitpid() with WNOHANG''
       (fork_demo
          (ignore (C_print ''fork'') (Ret ()))
          (ignore (C_misc ''sleep'') (getpid (\<lambda>me. ignore (C_print (''[CHILD ] PID='' @ dec_int me @ '' exiting after 2s'')) (Exit 7))))
          (poll_child 6))"

text \<open>
  \<^verbatim>\<open>demo_vfork\<close>: \<open>fd\<close> is the shared memory object, the child's standard output goes there. The answer to \<^verbatim>\<open>mmap\<close> carries the
  mapped bytes; printing stops at the first NUL, and past 4096 bytes without one the read leaves the mapping.
\<close>

definition vfork_log :: "int \<Rightarrow> int \<Rightarrow> string" where
  "vfork_log me parent =
     ''Child PID='' @ dec_int me @ '', PPID='' @ dec_int parent @ '' '' @ em_dash @ '' writing to shared memory before exec()'' @ ellipsis @ [CHR 0x0A]"

definition vfork_child :: "int \<Rightarrow> unit prog" where
  "vfork_child fd =
     getpid (\<lambda>me. getppid (\<lambda>parent.
       at_index 128 (int (length (vfork_log me parent)))
         (Sys (C_write 1 (vfork_log me parent)) (\<lambda>wr.
            (if a_ret wr = -1 then ignore (C_print ''write'') else id)
              (Sys (C_misc (''dup2 '' @ dec_int fd @ '' 1'')) (\<lambda>d.
                 (if a_ret d = -1 then ignore (C_print ''dup2'') else id)
                   (Sys (C_exec ''ls -lh /'') (\<lambda>e. if a_ret e = -1 then ignore (C_print ''execlp ls'') (Exit 1) else More))))))))"

definition vfork_parent :: "int \<Rightarrow> int \<Rightarrow> unit prog" where
  "vfork_parent fd pid =
     ignore C_wait
       (Sys (C_misc ''mmap'') (\<lambda>m.
          if a_ret m = -1 then ignore (C_print ''mmap'') (ignore (C_close fd) (Ret ()))
          else ignore (C_close fd)
            (if NUL \<in> set (take 4096 (a_data m))
             then ignore (C_print (''[PARENT] read from shared memory (child'' @ [CHR 0x27] @ ''s output):'' @ [CHR 0x0A] @ cstr (a_data m)))
                    (ignore (C_misc ''munmap'') (ignore (C_misc ''shm_unlink'')
                      (ignore (C_print ''[PARENT] vfork child finished'') (Ret ()))))
             else Fault Out_Of_Bounds)))"

definition vfork_part :: "int \<Rightarrow> unit prog" where
  "vfork_part fd = fork_demo (ignore (C_print ''vfork'') (ignore (C_close fd) (Ret ()))) (vfork_child fd) (vfork_parent fd)"

definition demo_vfork :: "unit prog" where
  "demo_vfork =
     banner (''Demo 6: vfork() '' @ em_dash @ '' Shared Memory with Parent Until exec/_exit'')
       (getpid (\<lambda>me.
          ignore (C_print (''parent PID='' @ dec_int me))
            (Sys (C_newfd ''shm_open'') (\<lambda>s.
               let fd = a_ret s
               in Sys (C_misc ''ftruncate'') (\<lambda>t.
                    if a_ret t \<noteq> 0 then ignore (C_print ''ftruncate'') (ignore (C_close fd) (Ret ()))
                    else vfork_part fd)))))"

text \<open>
  \<^verbatim>\<open>main\<close>: the wrapper process runs \<^verbatim>\<open>demo_orphan\<close> and exits. If the last \<^verbatim>\<open>fork\<close> fails the code calls \<^verbatim>\<open>waitpid(-1, ..)\<close>, which
  waits for any child.
\<close>

definition process_end :: "int prog" where
  "process_end = ignore (C_print ''[DONE] Process demo complete.'') (Ret 0)"

definition process_orphan :: "int prog" where
  "process_orphan =
     fork_demo (ignore C_wait process_end) (bindp demo_orphan (\<lambda>_. Exit 0)) (\<lambda>o1. ignore (C_waitpid o1) process_end)"

definition process_main :: "int prog" where
  "process_main =
     ignore (C_misc ''setvbuf'')
       (ignore (C_print ''=== Embedded Linux Demo: Processes ==='')
         (getpid (\<lambda>me.
            ignore (C_print (''Parent PID: '' @ dec_int me))
              (bindp demo_fork_wait (\<lambda>_. bindp demo_exec (\<lambda>_. bindp demo_vfork (\<lambda>_. bindp demo_waitpid_nohang (\<lambda>_.
                 bindp demo_zombie (\<lambda>_. process_orphan)))))))))"

section \<open>The contract holds\<close>

interpretation fw: forking "ignore (C_print ''fork'') (Exit 1)" fork_wait_child fork_wait_parent
  by unfold_locales (auto simp: fork_wait_child_def fork_wait_parent_def k_defs)

interpretation ex: forking "ignore (C_print ''fork'') (Ret ())" exec_child exec_parent
  by unfold_locales (auto simp: exec_child_def exec_parent_def k_defs)

interpretation vf: forking "ignore (C_print ''vfork'') (ignore (C_close fd) (Ret ()))" "vfork_child fd" "vfork_parent fd" for fd
  by unfold_locales (auto simp: vfork_child_def vfork_parent_def at_index_def k_defs)

section \<open>Children left behind\<close>

text \<open>From at most \<open>m\<close> children to at most \<open>n\<close>, for runs that return.\<close>

definition kids_le :: "nat \<Rightarrow> world \<Rightarrow> bool" where
  "kids_le n w \<longleftrightarrow> finite (w_kids w) \<and> card (w_kids w) \<le> n"

definition leaves :: "nat \<Rightarrow> nat \<Rightarrow> 'a prog \<Rightarrow> bool" where
  "leaves m n p \<longleftrightarrow> (\<forall>w. kids_le m w \<longrightarrow> wp_if waits_ok p (\<lambda>r v. \<forall>x. r = Done x \<longrightarrow> kids_le n v) w)"

lemma leaves_simps [simp]: "m \<le> n \<Longrightarrow> leaves m n (Ret x)" "leaves m n (Exit i)" "leaves m n (Fault e)" "leaves m n More"
  by (simp_all add: leaves_def kids_le_def)

lemma leaves_bind:
  assumes "leaves l m p" and "\<And>x. leaves m n (f x)"
  shows "leaves l n (bindp p f)"
  unfolding leaves_def wp_if_bind
proof (intro allI impI)
  fix w :: world
  assume "kids_le l w"
  then have "wp_if waits_ok p (\<lambda>r v. \<forall>x. r = Done x \<longrightarrow> kids_le m v) w" using assms(1) by (simp add: leaves_def)
  then show "wp_if waits_ok p (\<lambda>r v. case r of Done x \<Rightarrow> wp_if waits_ok (f x) (\<lambda>r v. \<forall>x. r = Done x \<longrightarrow> kids_le n v) v
      | Exited i \<Rightarrow> \<forall>x. Exited i = Done x \<longrightarrow> kids_le n v | Faulted e \<Rightarrow> \<forall>x. Faulted e = Done x \<longrightarrow> kids_le n v
      | Unfinished \<Rightarrow> \<forall>x. Unfinished = Done x \<longrightarrow> kids_le n v) w"
    by (rule wp_if_mono) (use assms(2) in \<open>auto simp: leaves_def split: outcome.splits\<close>)
qed

fun is_wait :: "call \<Rightarrow> bool" where
  "is_wait (C_waitpid p) = True"
| "is_wait C_wait = True"
| "is_wait c = False"

text \<open>A wait that succeeds takes one child away, a poll may, no other call changes the children but \<^verbatim>\<open>fork\<close>.\<close>

lemma wait_kids: "is_wait c \<Longrightarrow> kids_le m w \<Longrightarrow> 0 < m \<Longrightarrow> k_ok c a w \<Longrightarrow> waits_ok c a \<Longrightarrow> kids_le (m - 1) (k_step c a w)"
  by (cases c) (auto simp: kids_le_def k_step_def effect_def k_ok_def)

lemma other_kids: "c \<noteq> C_fork \<Longrightarrow> kids_le m w \<Longrightarrow> kids_le m (k_step c a w)"
  by (cases c) (auto simp: kids_le_def k_step_def effect_def intro: card_Diff1_le [THEN le_trans])

definition leaves_pre :: "call \<Rightarrow> nat \<Rightarrow> nat \<Rightarrow> (ans \<Rightarrow> 'a prog) \<Rightarrow> bool" where
  "leaves_pre c m n k \<longleftrightarrow>
     (if is_wait c then 0 < m \<and> (\<forall>a. leaves (m - 1) n (k a)) else c \<noteq> C_fork \<and> (\<forall>a. leaves m n (k a)))"

lemma leaves_sys: "leaves_pre c m n k \<Longrightarrow> leaves m n (Sys c k)"
  using wait_kids [of c m] other_kids [of c m] by (auto simp: leaves_pre_def leaves_def split: if_splits)

lemma leaves_fork:
  assumes "leaves m n failed" and "leaves 0 n child" and "\<And>pid. 0 < pid \<Longrightarrow> leaves (Suc m) n (parent pid)"
  shows "leaves m n (fork_demo failed child parent)"
proof -
  let ?k = "\<lambda>f. if a_ret f < 0 then failed else if a_ret f = 0 then child else parent (a_ret f)"
  have "wp_if waits_ok (?k a) (\<lambda>r v. \<forall>x. r = Done x \<longrightarrow> kids_le n v) (k_step C_fork a w)" if "kids_le m w" for a w
  proof -
    have "kids_le (if a_ret a < 0 then m else if a_ret a = 0 then 0 else Suc m) (k_step C_fork a w)"
      using that by (auto simp: kids_le_def k_step_def effect_def card_insert_if)
    then show ?thesis using assms by (auto simp: leaves_def)
  qed
  then show ?thesis by (simp add: leaves_def fork_demo_def)
qed

lemma leaves_if: "(b \<Longrightarrow> leaves m n p) \<Longrightarrow> (\<not> b \<Longrightarrow> leaves m n q) \<Longrightarrow> leaves m n (if b then p else q)"
  by simp

lemma leaves_banner: "leaves m n p \<Longrightarrow> leaves m n (banner title p)"
  unfolding banner_def by (intro leaves_sys) (simp add: leaves_pre_def leaves_sys)

lemma leaves_at_index: "leaves m n p \<Longrightarrow> leaves m n (at_index k i p)"
  by (simp add: at_index_def)

lemmas leaves_rules = leaves_if leaves_sys leaves_fork leaves_banner leaves_at_index

text \<open>The contract implies that a demo which keeps it leaves no child.\<close>

context forking
begin

lemma fork_leaves: "leaves 0 0 (fork_demo failed child parent)"
proof -
  let ?k = "\<lambda>f. if a_ret f < 0 then failed else if a_ret f = 0 then child else parent (a_ret f)"
  have "wp_if waits_ok (?k a) (\<lambda>r v. \<forall>x. r = Done x \<longrightarrow> kids_le 0 v) (k_step C_fork a w)" if "kids_le 0 w" for a w
  proof -
    have "w_kids (k_step C_fork a w) = (if 0 < a_ret a then {a_ret a} else {})"
      using that by (auto simp: kids_le_def k_step_def effect_def)
    then show ?thesis
      by (cases "a_ret a" "0 :: int" rule: linorder_cases)
        (auto simp: kids_le_def intro: wp_if_mono [OF failed_ok] wp_if_mono [OF child_ok] wp_if_mono [OF parent_ok])
  qed
  then show ?thesis by (simp add: leaves_def fork_demo_def)
qed

end

lemma fork_wait_leaves: "leaves 0 0 demo_fork_wait"
  by (auto simp: demo_fork_wait_def fork_wait_part_def fork_wait_child_def fork_wait_parent_def leaves_pre_def intro!: leaves_rules)

lemma exec_leaves: "leaves 0 0 demo_exec"
  by (auto simp: demo_exec_def exec_part_def exec_child_def exec_parent_def leaves_pre_def intro!: leaves_rules)

lemma vfork_leaves: "leaves 0 0 demo_vfork"
  by (auto simp: demo_vfork_def vfork_part_def vfork_child_def vfork_parent_def Let_def leaves_pre_def intro!: leaves_rules)

lemma poll_leaves: "m \<le> k \<Longrightarrow> leaves m k (poll_child n pid)"
  by (induction n) (auto simp: leaves_pre_def intro!: leaves_rules)

lemma nohang_leaves: "leaves 0 1 demo_waitpid_nohang"
  by (auto simp: demo_waitpid_nohang_def leaves_pre_def intro!: leaves_rules poll_leaves)

lemma zombie_leaves: "leaves 1 2 demo_zombie"
  by (auto simp: demo_zombie_def leaves_pre_def intro!: leaves_rules)

lemma orphan_leaves: "leaves 0 n demo_orphan"
  by (auto simp: demo_orphan_def leaves_pre_def intro!: leaves_rules)

lemma process_orphan_leaves: "leaves 2 2 process_orphan"
  by (auto simp: process_orphan_def process_end_def leaves_pre_def intro!: leaves_rules leaves_bind [OF orphan_leaves])

lemma process_main_leaves: "leaves 0 2 process_main"
proof -
  have "leaves 0 2 (bindp demo_fork_wait (\<lambda>_. bindp demo_exec (\<lambda>_. bindp demo_vfork (\<lambda>_. bindp demo_waitpid_nohang (\<lambda>_.
      bindp demo_zombie (\<lambda>_. process_orphan))))))"
    by (intro leaves_bind [OF fork_wait_leaves] leaves_bind [OF exec_leaves] leaves_bind [OF vfork_leaves]
      leaves_bind [OF nohang_leaves] leaves_bind [OF zombie_leaves] process_orphan_leaves)
  then show ?thesis by (auto simp: process_main_def leaves_pre_def intro!: leaves_sys)
qed

text \<open>The text the \<^verbatim>\<open>vfork\<close> child formats fits its buffer of 128 bytes for process ids of an \<^verbatim>\<open>int\<close>.\<close>

lemma vfork_log_fits:
  assumes "0 \<le> me" "me < 10 ^ 10" "0 \<le> parent" "parent < 10 ^ 10"
  shows "length (vfork_log me parent) < 128"
  using assms dec_int_length [of me] dec_int_length [of parent] by (simp add: vfork_log_def em_dash_def ellipsis_def)

definition ans_pid :: "int \<Rightarrow> ans" where
  "ans_pid r = \<lparr>a_ret = r, a_err = 0, a_data = [], a_evs = [(0, 42)]\<rparr>"

end
