(* ===== verification/Ipc_Demos.thy ===== *)
theory Ipc_Demos
  imports Fork_Demos
begin

text \<open>
  Pipes (\<^verbatim>\<open>03_ipc/pipe_demo.c\<close>) and POSIX message queues (\<^verbatim>\<open>03_ipc/mq_demo.c\<close>). A message queue descriptor is a descriptor;
  receiving and sending are the calls for datagrams, the priority is the first pair of the answer. Receive buffers
  start uninitialised (\<open>None\<close>), and \<^verbatim>\<open>%s\<close> reads them up to the first NUL, wherever that is.

  Shown: every demo keeps the contract \<open>forking\<close>; on a queue that hands out the highest priority first the consumer
  prints the messages in that order.
\<close>

section \<open>Pipes\<close>

primrec anon_read_loop :: "nat \<Rightarrow> int \<Rightarrow> unit prog \<Rightarrow> unit prog" where
  "anon_read_loop 0 rd p = More"
| "anon_read_loop (Suc fuel) rd p =
     Sys (C_read rd 127) (\<lambda>r.
       if a_ret r = 0 then ignore (C_print ''[CHILD] EOF received, exiting'') p
       else if a_ret r = -1 then ignore (C_print ''read'') p
       else at_index 128 (a_ret r)
              (ignore (C_print (''[CHILD] via fd[0]='' @ dec_int rd @ '' received: '' @ quoted (cstr (a_data r @ [NUL])))) (anon_read_loop fuel rd p)))"

definition anon_child :: "nat \<Rightarrow> int \<Rightarrow> int \<Rightarrow> unit prog" where
  "anon_child fuel rd wr =
     ignore (C_print (''[child] fd[0]='' @ dec_int rd @ '', fd[1]='' @ dec_int wr))
       (ignore (C_close wr) (anon_read_loop fuel rd (ignore (C_close rd) (Exit 0))))"

definition anon_msg :: string where
  "anon_msg = ''Hello from parent via anonymous pipe!''"

definition anon_parent :: "int \<Rightarrow> int \<Rightarrow> int \<Rightarrow> unit prog" where
  "anon_parent rd wr pid =
     ignore (C_print (''[parent] fd[0]='' @ dec_int rd @ '', fd[1]='' @ dec_int wr))
       (ignore (C_close rd) (ignore (C_write wr anon_msg)
         (ignore (C_print (''[PARENT] via fd[1]='' @ dec_int wr @ '' sent: '' @ quoted anon_msg))
           (ignore (C_close wr) (ignore (C_waitpid pid) (Ret ()))))))"

definition anon_part :: "nat \<Rightarrow> int \<Rightarrow> int \<Rightarrow> unit prog" where
  "anon_part fuel rd wr = fork_demo (ignore (C_print ''fork'') (Ret ())) (anon_child fuel rd wr) (anon_parent rd wr)"

definition demo_anon_pipe :: "nat \<Rightarrow> unit prog" where
  "demo_anon_pipe fuel =
     banner ''Demo 1: Anonymous Pipe (pipe())''
       (Sys C_pipe (\<lambda>p.
          if a_ret p = -1 then ignore (C_print ''pipe'') (Ret ())
          else anon_part fuel (fst (a_evs p ! 0)) (fst (a_evs p ! 1))))"

definition fifo_reader :: "unit prog" where
  "fifo_reader =
     Sys (C_open ''/tmp/demo_fifo'') (\<lambda>o1.
       Sys (C_read (a_ret o1) 127) (\<lambda>r.
         at_index 128 (a_ret r)
           (ignore (C_print (''[READER] FIFO received: '' @ quoted (cstr (a_data r @ [NUL]))))
             (ignore (C_close (a_ret o1)) (Exit 0)))))"

definition fifo_msg :: string where
  "fifo_msg = ''FIFO message from writer!''"

definition fifo_writer :: "int \<Rightarrow> unit prog" where
  "fifo_writer pid =
     Sys (C_open ''/tmp/demo_fifo'') (\<lambda>o1.
       ignore (C_write (a_ret o1) fifo_msg)
         (ignore (C_print (''[WRITER] FIFO sent: '' @ quoted fifo_msg))
           (ignore (C_close (a_ret o1)) (ignore (C_waitpid pid) (ignore (C_unlink ''/tmp/demo_fifo'') (Ret ()))))))"

definition fifo_part :: "unit prog" where
  "fifo_part = fork_demo (ignore (C_print ''fork'') (Ret ())) fifo_reader fifo_writer"

definition demo_named_pipe :: "unit prog" where
  "demo_named_pipe =
     banner ''Demo 2: Named Pipe / FIFO (mkfifo())''
       (Sys (C_mkfifo ''/tmp/demo_fifo'') (\<lambda>m.
          if a_ret m = -1 \<and> a_err m \<noteq> EEXIST then ignore (C_print ''mkfifo'') (Ret ()) else fifo_part))"

section \<open>Message queues\<close>

abbreviation MAX_SIZE :: nat where "MAX_SIZE \<equiv> 256"
abbreviation N_MSGS :: nat where "N_MSGS \<equiv> 4"

definition MAX_MSGS :: nat where "MAX_MSGS = 8"

record mq_attr =
  mq_flags :: nat
  mq_maxmsg :: nat
  mq_msgsize :: nat
  mq_curmsgs :: nat

definition make_attr :: "nat \<Rightarrow> mq_attr" where
  "make_attr flags = \<lparr>mq_flags = flags, mq_maxmsg = MAX_MSGS, mq_msgsize = MAX_SIZE, mq_curmsgs = 0\<rparr>"

text \<open>\<^verbatim>\<open>%s\<close> of a buffer whose bytes may be uninitialised.\<close>

fun cstr_init :: "byte option list \<Rightarrow> c_error + string" where
  "cstr_init [] = Inl Out_Of_Bounds"
| "cstr_init (None # bs) = Inl Uninit_Read"
| "cstr_init (Some c # bs) = (if c = NUL then Inr [] else (case cstr_init bs of Inl e \<Rightarrow> Inl e | Inr s \<Rightarrow> Inr (c # s)))"

primrec mq_receive_loop :: "(nat \<Rightarrow> string \<Rightarrow> string) \<Rightarrow> int \<Rightarrow> nat \<Rightarrow> byte option list \<Rightarrow> 'a prog \<Rightarrow> 'a prog" where
  "mq_receive_loop fmt mq 0 buf p = p"
| "mq_receive_loop fmt mq (Suc n) buf p =
     Sys (C_recv mq MAX_SIZE) (\<lambda>r.
       if 0 < a_ret r
       then let buf' = put_at buf 0 (map Some (a_data r))
            in (case cstr_init buf' of
                  Inl e \<Rightarrow> Fault e
                | Inr s \<Rightarrow> ignore (C_print (fmt (snd (hd (a_evs r))) s)) (mq_receive_loop fmt mq n buf' p))
       else mq_receive_loop fmt mq n buf p)"

text \<open>\<^verbatim>\<open>char buf[MAX_SIZE]\<close> on entry.\<close>

definition fresh_buf :: "byte option list" where
  "fresh_buf = replicate MAX_SIZE None"

definition recv_line :: "nat \<Rightarrow> string \<Rightarrow> string" where
  "recv_line prio s = ''[RECV] prio='' @ dec_nat prio @ ''  '' @ quoted s"

definition recv_order :: string where
  "recv_order = ''[RECV order '' @ em_dash @ '' highest priority first]''"

definition mq_consumer :: "int \<Rightarrow> int \<Rightarrow> unit prog" where
  "mq_consumer mq pid =
     ignore C_wait
       (ignore (C_print recv_order)
         (mq_receive_loop recv_line mq 3 fresh_buf
           (ignore (C_close mq)
             (Sys (C_unlink ''/demo_mq'') (\<lambda>u.
                if a_ret u = -1
                then ignore (C_print (if a_err u = ENOENT then ''mq_unlink: queue already removed'' else ''mq_unlink'')) (Ret ())
                else Ret ())))))"

definition mq_producer_exec :: "unit prog" where
  "mq_producer_exec = Sys (C_exec ''./build/mq_send'') (\<lambda>e. if a_ret e = -1 then ignore (C_print ''execlp'') (Exit 1) else More)"

definition mq_basic_part :: "int \<Rightarrow> unit prog" where
  "mq_basic_part mq = fork_demo (ignore (C_print ''fork'') (Ret ())) mq_producer_exec (mq_consumer mq)"

definition demo_basic_mq :: "unit prog" where
  "demo_basic_mq =
     banner (''Demo 1: POSIX MQ '' @ em_dash @ '' Send / Receive with Priority'')
       (Sys (C_newfd ''/demo_mq'') (\<lambda>m.
          if a_ret m = -1 \<and> a_err m \<noteq> EEXIST then ignore (C_print ''mq_open'') (Ret ()) else mq_basic_part (a_ret m)))"

definition consumer_line :: "nat \<Rightarrow> string \<Rightarrow> string" where
  "consumer_line prio s = ''[CONSUMER] received: '' @ quoted s"

definition mq_child :: "unit prog" where
  "mq_child =
     Sys (C_newfd ''/demo_mq'') (\<lambda>m.
       if a_ret m = -1 then ignore (C_print ''mq_open(consumer)'') (Exit 1)
       else mq_receive_loop consumer_line (a_ret m) N_MSGS fresh_buf (ignore (C_close (a_ret m)) (Exit 0)))"

definition mq_message :: "nat \<Rightarrow> int \<Rightarrow> string" where
  "mq_message i pid = ''Message '' @ dec_nat i @ '' from PID '' @ dec_int pid"

primrec mq_send_loop :: "int \<Rightarrow> nat list \<Rightarrow> unit prog \<Rightarrow> unit prog" where
  "mq_send_loop mq [] p = p"
| "mq_send_loop mq (i # is) p =
     Sys (C_misc ''getpid'') (\<lambda>g.
       let text = cstr (snprintf_bytes MAX_SIZE (mq_message i (a_ret g)))
       in ignore (C_send mq (text @ [NUL]))
            (ignore (C_print (''[PRODUCER] sent: '' @ quoted text)) (ignore (C_misc ''usleep'') (mq_send_loop mq is p))))"

definition mq_parent :: "int \<Rightarrow> unit prog" where
  "mq_parent pid =
     ignore (C_misc ''usleep'')
       (Sys (C_newfd ''/demo_mq'') (\<lambda>m.
          if a_ret m = -1 then ignore (C_print ''mq_open(producer)'') (Exit 1)
          else mq_send_loop (a_ret m) [0..<N_MSGS]
                 (ignore (C_close (a_ret m)) (ignore C_wait (ignore (C_unlink ''/demo_mq'') (Ret ()))))))"

definition mq_multi_part :: "unit prog" where
  "mq_multi_part = fork_demo (ignore (C_print ''fork'') (Ret ())) mq_child mq_parent"

definition demo_multiprocess_mq :: "unit prog" where
  "demo_multiprocess_mq =
     banner (''Demo 2: POSIX MQ '' @ em_dash @ '' Multi-process Producer/Consumer'') (ignore (C_unlink ''/demo_mq'') mq_multi_part)"

section \<open>The contract holds\<close>

lemma anon_read_loop_no_return:
  "(\<And>w. wp_if ok p (\<lambda>r v. no_return r) w) \<Longrightarrow> wp_if ok (anon_read_loop fuel rd p) (\<lambda>r v. no_return r) w"
  by (induction fuel arbitrary: w) (auto simp: at_index_def)

lemma mq_receive_loop_no_return:
  "(\<And>w. wp_if ok p (\<lambda>r v. no_return r) w) \<Longrightarrow> wp_if ok (mq_receive_loop fmt mq n buf p) (\<lambda>r v. no_return r) w"
  by (induction n arbitrary: w buf) (auto simp: Let_def split: sum.splits)

lemma mq_receive_loop_reaped:
  "(\<And>w. w_kids w = {} \<Longrightarrow> wp_if ok p (reaped pid) w) \<Longrightarrow> w_kids w = {} \<Longrightarrow> wp_if ok (mq_receive_loop fmt mq n buf p) (reaped pid) w"
  by (induction n arbitrary: w buf) (auto simp: Let_def k_defs split: sum.splits)

lemma mq_send_loop_reaped:
  "(\<And>w. w_kids w = {pid} \<Longrightarrow> wp_if ok p (reaped pid) w) \<Longrightarrow> w_kids w = {pid} \<Longrightarrow> wp_if ok (mq_send_loop mq is p) (reaped pid) w"
  by (induction "is" arbitrary: w) (auto simp: Let_def k_defs)

interpretation anon: forking "ignore (C_print ''fork'') (Ret ())" "anon_child fuel rd wr" "anon_parent rd wr" for fuel rd wr
  by unfold_locales (auto simp: anon_child_def anon_parent_def k_defs intro!: anon_read_loop_no_return)

interpretation fifo: forking "ignore (C_print ''fork'') (Ret ())" fifo_reader fifo_writer
  by unfold_locales (auto simp: fifo_reader_def fifo_writer_def k_defs at_index_def)

interpretation mqb: forking "ignore (C_print ''fork'') (Ret ())" mq_producer_exec "mq_consumer mq" for mq
  by unfold_locales (auto simp: mq_producer_exec_def mq_consumer_def k_defs intro!: mq_receive_loop_reaped)

lemma mq_child_no_return: "wp_if waits_ok mq_child (\<lambda>r v. no_return r) w"
  by (simp add: mq_child_def mq_receive_loop_no_return del: mq_receive_loop.simps)

lemma mq_parent_reaped:
  assumes "w_kids w = {pid}"
  shows "wp_if waits_ok (mq_parent pid) (reaped pid) w"
proof -
  have "wp_if waits_ok (ignore (C_close fd) (ignore C_wait (ignore (C_unlink ''/demo_mq'') (Ret ())))) (reaped pid) v"
    if "w_kids v = {pid}" for fd v
    using that by (auto simp: k_defs)
  from mq_send_loop_reaped [OF this] show ?thesis
    using assms by (simp add: mq_parent_def k_step_def effect_def del: mq_send_loop.simps)
qed

interpretation mqm: forking "ignore (C_print ''fork'') (Ret ())" mq_child mq_parent
  by unfold_locales (auto simp: mq_child_no_return mq_parent_reaped k_defs)

section \<open>A queue that orders by priority\<close>

text \<open>
  The documented order of a POSIX queue: the oldest of the messages with the highest priority is received first. The only
  \<^verbatim>\<open>mq_send\<close> of the program uses priority 5.
\<close>

type_synonym msg = "nat \<times> byte list"

definition mq_first :: "msg list \<Rightarrow> msg" where
  "mq_first q = hd (filter (\<lambda>m. \<forall>x \<in> set q. fst x \<le> fst m) q)"

record mqk =
  mq_queue :: "msg list"
  mq_out :: "string list"

definition mq_call :: "int \<Rightarrow> mqk \<Rightarrow> call \<Rightarrow> ans \<times> mqk" where
  "mq_call me s c =
     (case c of
        C_recv mq n \<Rightarrow>
          (if mq_queue s = [] then (\<lparr>a_ret = -1, a_err = EAGAIN, a_data = [], a_evs = []\<rparr>, s)
           else let m = mq_first (mq_queue s)
                in (\<lparr>a_ret = int (length (snd m)), a_err = 0, a_data = snd m, a_evs = [(0, fst m)]\<rparr>,
                    s\<lparr>mq_queue := remove1 m (mq_queue s)\<rparr>))
      | C_send mq bs \<Rightarrow> (\<lparr>a_ret = 0, a_err = 0, a_data = [], a_evs = []\<rparr>, s\<lparr>mq_queue := mq_queue s @ [(5, bs)]\<rparr>)
      | C_print m \<Rightarrow> (\<lparr>a_ret = 0, a_err = 0, a_data = [], a_evs = []\<rparr>, s\<lparr>mq_out := mq_out s @ [m]\<rparr>)
      | C_misc m \<Rightarrow> (\<lparr>a_ret = me, a_err = 0, a_data = [], a_evs = []\<rparr>, s)
      | C_newfd m \<Rightarrow> (\<lparr>a_ret = 3, a_err = 0, a_data = [], a_evs = []\<rparr>, s)
      | _ \<Rightarrow> (\<lparr>a_ret = 0, a_err = 0, a_data = [], a_evs = []\<rparr>, s))"

abbreviation by_prio :: "msg list \<Rightarrow> msg list" where
  "by_prio q \<equiv> sort_key (\<lambda>m. - int (fst m)) q"

lemma mq_first_head:
  assumes "q \<noteq> []"
  obtains qs where "filter (\<lambda>m. \<forall>x \<in> set q. fst x \<le> fst m) q = mq_first q # qs"
proof -
  let ?F = "filter (\<lambda>m. \<forall>x \<in> set q. fst x \<le> fst m) q"
  have "Max (fst ` set q) \<in> fst ` set q" using assms by (intro Max_in) auto
  then obtain m where "m \<in> set q" "fst m = Max (fst ` set q)" by auto
  then have "m \<in> set ?F" by simp
  then have "?F \<noteq> []" by (metis list.set(1) empty_iff)
  then show thesis using that by (cases ?F) (simp_all add: mq_first_def)
qed

lemma by_prio_first:
  assumes "q \<noteq> []"
  shows "by_prio q = mq_first q # by_prio (remove1 (mq_first q) q)"
proof (rule properties_for_sort_key)
  let ?m = "mq_first q"
  obtain qs where top: "filter (\<lambda>m. \<forall>x \<in> set q. fst x \<le> fst m) q = ?m # qs" using mq_first_head [OF assms] .
  then have "?m \<in> set (filter (\<lambda>m. \<forall>x \<in> set q. fst x \<le> fst m) q)" by simp
  then have m: "?m \<in> set q" "\<forall>x \<in> set q. fst x \<le> fst ?m" by auto
  have same: "(\<forall>x \<in> set q. fst x \<le> fst y) \<longleftrightarrow> fst ?m = fst y" if "y \<in> set q" for y
  proof
    assume "\<forall>x \<in> set q. fst x \<le> fst y"
    then have "fst ?m \<le> fst y" using m(1) by blast
    moreover have "fst y \<le> fst ?m" using m(2) that by blast
    ultimately show "fst ?m = fst y" by simp
  next
    assume "fst ?m = fst y"
    then show "\<forall>x \<in> set q. fst x \<le> fst y" using m(2) by simp
  qed
  have eq: "filter (\<lambda>y. fst ?m = fst y) q = ?m # qs" unfolding top [symmetric] by (rule filter_cong [OF refl]) (simp add: same)
  show "mset (?m # by_prio (remove1 ?m q)) = mset q" using m(1) by simp
  show "filter (\<lambda>x. - int (fst k) = - int (fst x)) (?m # by_prio (remove1 ?m q)) = filter (\<lambda>x. - int (fst k) = - int (fst x)) q"
    if "k \<in> set (?m # by_prio (remove1 ?m q))" for k
  proof -
    have "filter (\<lambda>x. fst k = fst x) (by_prio (remove1 ?m q)) = filter (\<lambda>x. fst k = fst x) (remove1 ?m q)"
      using sort_key_stable [of "\<lambda>m. - int (fst m)" "- int (fst k)" "remove1 ?m q"] by (simp add: eq_commute)
    also have "\<dots> = remove1 ?m (filter (\<lambda>x. fst k = fst x) q)" by (rule filter_remove1)
    finally show ?thesis using eq by (cases "fst k = fst ?m") (auto simp: remove1_idem)
  qed
  show "sorted (map (\<lambda>m. - int (fst m)) (?m # by_prio (remove1 ?m q)))"
    using m(2) notin_set_remove1 by fastforce
qed

lemma cstr_init_put: "NUL \<in> set bs \<Longrightarrow> cstr_init (map Some bs @ rest) = Inr (cstr bs)"
  by (induction bs) (auto simp: cstr_def)

text \<open>Messages a receiver can print: terminated, and no longer than the buffer.\<close>

definition printable :: "msg \<Rightarrow> bool" where
  "printable m \<longleftrightarrow> NUL \<in> set (snd m) \<and> length (snd m) \<le> MAX_SIZE"

primrec mq_drop :: "nat \<Rightarrow> msg list \<Rightarrow> msg list" where
  "mq_drop 0 q = q"
| "mq_drop (Suc n) q = mq_drop n (remove1 (mq_first q) q)"

lemma mq_receive_run:
  assumes "list_all printable (mq_queue s)" and "n \<le> length (mq_queue s)"
  shows "run_on (mq_call me) (mq_receive_loop fmt mq n buf p) s =
    run_on (mq_call me) p (s\<lparr>mq_queue := mq_drop n (mq_queue s),
      mq_out := mq_out s @ map (\<lambda>m. fmt (fst m) (cstr (snd m))) (take n (by_prio (mq_queue s)))\<rparr>)"
  using assms
proof (induction n arbitrary: s buf)
  case (Suc n)
  let ?q = "mq_queue s" and ?m = "mq_first (mq_queue s)"
  have q: "?q \<noteq> []" using Suc.prems by auto
  have sorted: "by_prio ?q = ?m # by_prio (remove1 ?m ?q)" by (rule by_prio_first [OF q])
  then have "?m \<in> set (by_prio ?q)" by (metis list.set_intros(1))
  then have m: "?m \<in> set ?q" by simp
  then have pm: "printable ?m" using Suc.prems(1) by (simp add: list_all_iff)
  then have ne: "snd ?m \<noteq> []" by (auto simp: printable_def)
  let ?s = "s\<lparr>mq_queue := remove1 ?m ?q, mq_out := mq_out s @ [fmt (fst ?m) (cstr (snd ?m))]\<rparr>"
  let ?b = "put_at buf 0 (map Some (snd ?m))"
  have step: "run_on (mq_call me) (mq_receive_loop fmt mq (Suc n) buf p) s = run_on (mq_call me) (mq_receive_loop fmt mq n ?b p) ?s"
    using q pm ne by (simp add: mq_call_def Let_def put_at_def cstr_init_put printable_def)
  have "list_all printable (remove1 ?m ?q)" "n \<le> length (remove1 ?m ?q)"
    using Suc.prems m by (auto simp: list_all_iff length_remove1 dest: notin_set_remove1)
  then show ?case unfolding step using Suc.IH [of ?s ?b] by (simp add: sorted)
qed simp

text \<open>What the producer sends.\<close>

definition mq_text :: "int \<Rightarrow> nat \<Rightarrow> string" where
  "mq_text me i = take 255 (mq_message i me)"

lemma mq_message_no_NUL: "NUL \<notin> set (mq_message i me)"
  by (simp add: mq_message_def)

lemma mq_text_snprintf: "cstr (snprintf_bytes MAX_SIZE (mq_message i me)) = mq_text me i"
  by (simp add: mq_text_def cstr_snprintf mq_message_no_NUL)

lemma mq_text_no_NUL: "NUL \<notin> set (mq_text me i)"
  using mq_message_no_NUL in_set_takeD by (fastforce simp: mq_text_def)

lemma cstr_text: "cstr (mq_text me i @ [NUL]) = mq_text me i"
  by (rule cstr_no_NUL [OF mq_text_no_NUL])

lemma mq_call_simps [simp]:
  "mq_call me s C_wait = (\<lparr>a_ret = 0, a_err = 0, a_data = [], a_evs = []\<rparr>, s)"
  "mq_call me s (C_close fd) = (\<lparr>a_ret = 0, a_err = 0, a_data = [], a_evs = []\<rparr>, s)"
  "mq_call me s (C_unlink p) = (\<lparr>a_ret = 0, a_err = 0, a_data = [], a_evs = []\<rparr>, s)"
  "mq_call me s (C_misc p) = (\<lparr>a_ret = me, a_err = 0, a_data = [], a_evs = []\<rparr>, s)"
  "mq_call me s (C_newfd p) = (\<lparr>a_ret = 3, a_err = 0, a_data = [], a_evs = []\<rparr>, s)"
  by (simp_all add: mq_call_def)

section \<open>Properties\<close>

text \<open>
  The consumer of \<^verbatim>\<open>demo_basic_mq\<close> on any queue that holds at least three terminated messages of at most
  256 bytes: it prints the three messages of highest priority, highest first and among equal priorities the oldest first, then
  removes the queue and returns.
\<close>

theorem mq_priority_order:
  assumes "list_all printable (mq_queue s)" and "3 \<le> length (mq_queue s)"
  shows "fst (run_on (mq_call me) (mq_consumer mq pid) s) = Done ()
    \<and> mq_out (snd (run_on (mq_call me) (mq_consumer mq pid) s)) =
        mq_out s @ recv_order # map (\<lambda>m. recv_line (fst m) (cstr (snd m))) (take 3 (by_prio (mq_queue s)))"
proof -
  have "run_on (mq_call me) (mq_receive_loop recv_line mq 3 fresh_buf p) (snd (mq_call me s (C_print recv_order))) =
      run_on (mq_call me) p (s\<lparr>mq_queue := mq_drop 3 (mq_queue s),
        mq_out := mq_out s @ recv_order # map (\<lambda>m. recv_line (fst m) (cstr (snd m))) (take 3 (by_prio (mq_queue s)))\<rparr>)" for p :: "unit prog"
    using mq_receive_run [of "s\<lparr>mq_out := mq_out s @ [recv_order]\<rparr>" 3] assms by (simp add: mq_call_def del: mq_receive_loop.simps)
  then show ?thesis by (simp add: mq_consumer_def del: mq_receive_loop.simps)
qed

definition mq_three :: mqk where
  "mq_three = \<lparr>mq_queue = [(1, ''low'' @ [NUL]), (9, ''high'' @ [NUL]), (5, ''mid'' @ [NUL])], mq_out = []\<rparr>"

theorem mq_priority_order_witness:
  "mq_out (snd (run_on (mq_call 7) (mq_consumer 3 8) mq_three)) = [recv_order, recv_line 9 ''high'', recv_line 5 ''mid'', recv_line 1 ''low'']"
  using mq_priority_order [of mq_three 7 3 8] by (simp add: mq_three_def printable_def cstr_def)

end
