(* ===== verification/Udp_Echo.thy ===== *)
theory Udp_Echo
  imports Ipc_Demos
begin

text \<open>
  \<^verbatim>\<open>07_networking/udp_demo.c\<close>: a server that echoes four datagrams to a client in a forked process.

  Shown: the demo keeps the contract \<open>forking\<close>. What client and server do together is in the theory \<open>Net_Demos\<close>.
\<close>

abbreviation BUF_SZ :: nat where "BUF_SZ \<equiv> 512"

definition udp_text :: "int \<Rightarrow> nat \<Rightarrow> string" where
  "udp_text me i = ''UDP datagram #'' @ dec_nat i @ '' from PID '' @ dec_int me"

primrec udp_client_loop :: "int \<Rightarrow> nat list \<Rightarrow> int prog \<Rightarrow> int prog" where
  "udp_client_loop cfd [] p = p"
| "udp_client_loop cfd (i # is) p =
     Sys (C_misc ''getpid'') (\<lambda>g.
       let msg = cstr (snprintf_bytes BUF_SZ (udp_text (a_ret g) i))
       in ignore (C_send cfd (msg @ [NUL]))
            (ignore (C_print (''[CLIENT] sent: '' @ quoted msg))
              (Sys (C_recv cfd (BUF_SZ - 1)) (\<lambda>r.
                 if 0 < a_ret r
                 then at_index BUF_SZ (a_ret r)
                        (ignore (C_print (''[CLIENT] got echo: '' @ quoted (cstr (a_data r @ [NUL]))))
                          (ignore (C_misc ''usleep'') (udp_client_loop cfd is p)))
                 else ignore (C_misc ''usleep'') (udp_client_loop cfd is p)))))"

definition udp_client :: "int \<Rightarrow> int prog" where
  "udp_client srv =
     ignore (C_close srv) (ignore (C_misc ''usleep'')
       (Sys C_socket (\<lambda>c.
          ignore (C_misc ''inet_pton 127.0.0.1'') (ignore (C_connect (a_ret c))
            (ignore (C_print ''[CLIENT] UDP connected to 127.0.0.1:9090'')
              (udp_client_loop (a_ret c) [0..<N_MSGS] (ignore (C_close (a_ret c)) (Exit 0))))))))"

primrec udp_server_loop :: "int \<Rightarrow> nat \<Rightarrow> int prog \<Rightarrow> int prog" where
  "udp_server_loop srv 0 p = p"
| "udp_server_loop srv (Suc n) p =
     Sys (C_recv srv (BUF_SZ - 1)) (\<lambda>r.
       if a_ret r < 0 then ignore (C_print ''recvfrom'') p
       else at_index BUF_SZ (a_ret r)
              (ignore (C_print (''[SERVER] from '' @ peer_text r @ '': '' @ quoted (cstr (a_data r @ [NUL]))))
                (ignore (C_send srv (take (nat (a_ret r)) (a_data r))) (udp_server_loop srv n p))))"

definition udp_server :: "int \<Rightarrow> int \<Rightarrow> int prog" where
  "udp_server srv pid =
     udp_server_loop srv N_MSGS
       (ignore (C_waitpid pid) (ignore (C_close srv) (ignore (C_print ''[DONE] UDP demo complete.'') (Ret 0))))"

definition udp_part :: "int \<Rightarrow> int prog" where
  "udp_part srv = fork_demo (ignore (C_print ''fork'') (Ret 1)) (udp_client srv) (udp_server srv)"

definition udp_main :: "int prog" where
  "udp_main =
     ignore (C_print ''=== Embedded Linux Demo: UDP ==='')
       (Sys C_socket (\<lambda>s.
          ignore (C_setsockopt (a_ret s) 2)
            (ignore (C_bind (a_ret s) 9090)
              (ignore (C_print ''[SERVER] UDP socket bound to port 9090'') (udp_part (a_ret s))))))"

section \<open>The contract holds\<close>

lemma udp_client_loop_no_return:
  "(\<And>w. wp_if ok p (\<lambda>r v. no_return r) w) \<Longrightarrow> wp_if ok (udp_client_loop cfd is p) (\<lambda>r v. no_return r) w"
  by (induction "is" arbitrary: w) (auto simp: Let_def at_index_def)

lemma udp_server_loop_reaped:
  assumes "\<And>w. w_kids w = {pid} \<Longrightarrow> wp_if ok p (reaped pid) w" and "w_kids w = {pid}"
  shows "wp_if ok (udp_server_loop srv n p) (reaped pid) w"
  using assms(2)
proof (induction n arbitrary: w)
  case (Suc n)
  then show ?case using assms(1) by (auto simp: k_defs at_index_def)
qed (simp add: assms(1))

lemma udp_client_no_return: "wp_if waits_ok (udp_client srv) (\<lambda>r v. no_return r) w"
  by (simp add: udp_client_def udp_client_loop_no_return del: udp_client_loop.simps)

lemma udp_server_reaped: "w_kids w = {pid} \<Longrightarrow> wp_if waits_ok (udp_server srv pid) (reaped pid) w"
  unfolding udp_server_def by (rule udp_server_loop_reaped) (auto simp: k_defs)

interpretation udp: forking "ignore (C_print ''fork'') (Ret 1)" "udp_client srv" "udp_server srv" for srv
  by unfold_locales (auto simp: udp_client_no_return udp_server_reaped k_defs)

section \<open>The texts\<close>

lemma udp_text_no_NUL: "NUL \<notin> set (udp_text me i)"
  by (simp add: udp_text_def)

end
