(* ===== verification/Fd_Demos.thy ===== *)
theory Fd_Demos
  imports Sys_Prog
begin

unbundle bit_operations_syntax

text \<open>
  Demos whose point is a sequence of system calls on descriptors they open themselves: the serial port
  (\<^verbatim>\<open>16_uart\<close>), the GPIO lines and the watchdog (\<^verbatim>\<open>15_gpio\<close>), \<^verbatim>\<open>select\<close> on a pipe (\<^verbatim>\<open>06_file_io\<close>), the self-pipe trick, the plain
  pipe and \<^verbatim>\<open>signalfd\<close> (\<^verbatim>\<open>04_signals\<close>). The character \<^verbatim>\<open>demo_pipe\<close>
  prints is left out when nothing was read. The write of the signal handler
  of the self-pipe demo is part of the program: \<^verbatim>\<open>kill\<close> to the own process runs the handler before it returns.

  Shown: every one of them closes exactly what it opened on every path, whatever the kernel answers, and
  never names a descriptor that is not open nor stores outside its buffer; and the terminal flags the
  serial demo sets.
\<close>

section \<open>Serial port\<close>

abbreviation PARENB :: c_int where "PARENB \<equiv> 0x100"
abbreviation CSTOPB :: c_int where "CSTOPB \<equiv> 0x40"
abbreviation CSIZE :: c_int where "CSIZE \<equiv> 0x30"
abbreviation CS8 :: c_int where "CS8 \<equiv> 0x30"
abbreviation CBAUD :: c_int where "CBAUD \<equiv> 0x100F"
abbreviation B9600 :: c_int where "B9600 \<equiv> 0xD"

text \<open>\<^verbatim>\<open>cfsetospeed\<close> and \<^verbatim>\<open>cfsetispeed\<close> of the Linux C library replace the speed bits of \<^verbatim>\<open>c_cflag\<close>.\<close>

definition cfsetspeed :: "c_int \<Rightarrow> c_int \<Rightarrow> c_int" where
  "cfsetspeed cflag speed = (cflag AND NOT CBAUD) OR speed"

definition uart_cflag :: "c_int \<Rightarrow> c_int" where
  "uart_cflag cflag =
     (let c = cfsetspeed cflag B9600;
          c = cfsetspeed c B9600;
          c = c AND NOT PARENB;
          c = c AND NOT CSTOPB;
          c = c AND NOT CSIZE
      in c OR CS8)"

text \<open>The answer to \<^verbatim>\<open>tcgetattr\<close> carries \<^verbatim>\<open>c_cflag\<close> as four bytes.\<close>

definition demo_uart_send_receive :: "unit prog" where
  "demo_uart_send_receive =
     banner ''UART demo1: send and receive data''
     (bindp (plain_open ''/dev/ttyUSB0'') (\<lambda>fd.
       if fd < 0 then ignore (C_print ''open uart'') (Ret ())
       else Sys (C_tcgetattr fd) (\<lambda>t.
         if a_ret t \<noteq> 0 then ignore (C_print ''tcgetattr'') (ignore (C_close fd) (Ret ()))
         else Sys (C_tcsetattr fd (uart_cflag (bytes_int (a_data t)))) (\<lambda>s.
           if a_ret s \<noteq> 0 then ignore (C_print ''tcsetattr'') (ignore (C_close fd) (Ret ()))
           else ignore (C_write fd (''Hello UART'' @ [CHR 0x0A]))
             (ignore (C_print (''Sent: Hello UART'' @ [CHR 0x0A]))
               (Sys (C_read fd 255) (\<lambda>r.
                  if 0 < a_ret r
                  then at_index 256 (a_ret r)
                         (ignore (C_print (''Received: '' @ cstr (a_data r @ [NUL]))) (ignore (C_close fd) (Ret ())))
                  else ignore (C_print ''read uart'') (ignore (C_close fd) (Ret ())))))))))"

section \<open>Watchdog\<close>

primrec kick :: "int \<Rightarrow> nat \<Rightarrow> unit prog \<Rightarrow> unit prog" where
  "kick fd 0 p = p"
| "kick fd (Suc n) p =
     ignore (C_write fd [NUL]) (ignore (C_print ''Kicked the watchdog'') (ignore (C_misc ''sleep'') (kick fd n p)))"

definition watchdog_run :: "unit prog" where
  "watchdog_run =
     bindp (plain_open ''/dev/watchdog'') (\<lambda>fd.
       if fd = -1 then ignore (C_print ''open'') (Ret ())
       else ignore (C_print ''Watchdog demo: if you kill the process within 5s, system will reboot after 10s'')
              (kick fd 5 (ignore (C_write fd ''V'') (ignore (C_close fd) (Ret ())))))"

definition watchdog_demo :: "unit prog" where
  "watchdog_demo =
     Sys (C_misc ''access /dev/watchdog'') (\<lambda>a.
       if a_ret a \<noteq> 0
       then Sys (C_misc ''modprobe softdog soft_margin=10'') (\<lambda>m.
              if a_ret m \<noteq> 0 then ignore (C_print ''failed to load softdog module'') (Ret ())
              else watchdog_run)
       else watchdog_run)"

section \<open>GPIO lines\<close>

text \<open>
  \<^verbatim>\<open>libgpiod\<close> is a library of its own: its calls are answered like system calls, a chip handle counts as a descriptor and NULL as -1.
  A line that was not found is -1 as well. The answer to an event carries its kind (1 for a rising edge) and time.
\<close>

primrec toggle_loop :: "nat list \<Rightarrow> unit prog \<Rightarrow> unit prog" where
  "toggle_loop [] p = p"
| "toggle_loop (i # is) p =
     ignore (C_misc (''gpiod_line_set_value '' @ dec_nat (i mod 2)))
       (ignore (C_print (''Set GPIO 17 to '' @ dec_nat (i mod 2))) (ignore (C_misc ''sleep'') (toggle_loop is p)))"

definition demo_toggle_gpio :: "unit prog" where
  "demo_toggle_gpio =
     banner ''GPIO demo1: toggle GPIO 17 (BCM numbering) every second''
     (Sys (C_newfd ''gpiod_chip_open /dev/gpiochip0'') (\<lambda>c.
       if a_ret c = -1 then ignore (C_print ''gpiod_chip_open'') (Ret ())
       else Sys (C_misc ''gpiod_chip_get_line 17'') (\<lambda>l.
         if a_ret l = -1 then ignore (C_print ''gpiod_chip_get_line'') (ignore (C_close (a_ret c)) (Ret ()))
         else ignore (C_misc ''gpiod_line_request_output 0'')
                (toggle_loop [0..<4] (ignore (C_misc ''gpiod_line_release'') (ignore (C_close (a_ret c)) (Ret ())))))))"

primrec gpio_event_loop :: "nat \<Rightarrow> int prog" where
  "gpio_event_loop 0 = More"
| "gpio_event_loop (Suc fuel) =
     Sys (C_misc ''gpiod_line_event_wait'') (\<lambda>r.
       if a_ret r = 1
       then Sys (C_misc ''gpiod_line_event_read'') (\<lambda>e.
              ignore (C_print ((if a_ret e = 1 then ''Rising edge at '' else ''Falling edge at '')
                @ dec_int (fst (hd (a_evs e))) @ ''.'' @ pad9 (snd (hd (a_evs e))))) (gpio_event_loop fuel))
       else gpio_event_loop fuel)"

definition demo_gpio_events :: "nat \<Rightarrow> int prog" where
  "demo_gpio_events fuel =
     banner ''GPIO demo: wait for edges on GPIO 17 (BCM numbering)''
     (Sys (C_newfd ''gpiod_chip_open /dev/gpiochip0'') (\<lambda>c.
       if a_ret c = -1 then ignore (C_print ''gpiod_chip_open'') (Ret (-1))
       else Sys (C_misc ''gpiod_chip_get_line 17'') (\<lambda>l.
         if a_ret l = -1 then ignore (C_print ''gpiod_chip_get_line'') (ignore (C_close (a_ret c)) (Ret (-1)))
         else ignore (C_misc ''gpiod_line_request'') (gpio_event_loop fuel))))"

section \<open>Pipes within one process\<close>

definition demo_select :: "unit prog" where
  "demo_select =
     banner ''Demo 3: select() with Timeout''
     (Sys C_pipe (\<lambda>p.
        if a_ret p < 0 then ignore (C_print ''pipe'') (Ret ())
        else let rd = fst (a_evs p ! 0); wr = fst (a_evs p ! 1)
             in ignore (C_print (''select() waiting 500ms for data on pipe read-end'' @ ellipsis))
                  (Sys (C_misc ''select'') (\<lambda>s.
                     ignore (C_print (if a_ret s = 0 then ''select() timed out '' @ em_dash @ '' no data (expected)''
                         else if 0 < a_ret s then ''select() says data is ready'' else ''select''))
                       (ignore (C_write wr ''X'')
                         (Sys (C_misc ''select'') (\<lambda>t.
                            (if 0 < a_ret t \<and> a_evs t \<noteq> []
                             then ignore (C_print (''select() immediately detected data '' @ em_dash @ '' fd is readable '' @ check_mark)) else id)
                              (ignore (C_close rd) (ignore (C_close wr) (Ret ()))))))))))"

text \<open>\<^verbatim>\<open>demo_ioctl\<close> of \<^verbatim>\<open>06_file_io\<close>: the answer to \<^verbatim>\<open>TIOCGWINSZ\<close> carries columns and rows, and the size in pixels.\<close>

definition demo_ioctl :: "unit prog" where
  "demo_ioctl =
     banner (''Demo 2: ioctl() '' @ em_dash @ '' Terminal Window Size'')
     (Sys (C_ioctl 1 0x5413) (\<lambda>a.
       if a_ret a = 0
       then ignore (C_print (''Terminal: '' @ dec_int (fst (a_evs a ! 0)) @ '' cols x '' @ dec_nat (snd (a_evs a ! 0)) @ '' rows   (pixel: ''
              @ dec_int (fst (a_evs a ! 1)) @ '' x '' @ dec_nat (snd (a_evs a ! 1)) @ '')'')) (Ret ())
       else Sys (C_misc ''strerror'') (\<lambda>e.
              ignore (C_print (''ioctl TIOCGWINSZ not available (not a terminal): '' @ a_data e)) (Ret ()))))"

text \<open>The handler \<^verbatim>\<open>pipe_sig_handler\<close> runs inside \<^verbatim>\<open>kill\<close>.\<close>

definition pipe_sig_handler :: "int \<Rightarrow> unit prog \<Rightarrow> unit prog" where
  "pipe_sig_handler wr p = ignore (C_write wr ''S'') p"

definition demo_self_pipe :: "unit prog" where
  "demo_self_pipe =
     banner ''Demo 4: Self-Pipe Trick''
     (Sys C_pipe (\<lambda>p.
       if a_ret p = -1 then ignore (C_print ''pipe'') (Ret ())
       else let rd = fst (a_evs p ! 0); wr = fst (a_evs p ! 1)
            in ignore (C_fcntl wr 4 2048)
                 (ignore (C_misc ''sigaction SIGUSR2'')
                   (ignore (C_print (''Sending SIGUSR2 '' @ em_dash @ '' handler writes to pipe'' @ ellipsis))
                     (getpid (\<lambda>me. ignore (C_misc (''kill '' @ dec_int me @ '' SIGUSR2'')) (pipe_sig_handler wr
                       (Sys (C_read rd 8) (\<lambda>r.
                          (if 0 < a_ret r
                           then ignore (C_print (''Read '' @ dec_int (a_ret r) @ '' byte(s) from self-pipe '' @ em_dash @ '' signal safely converted!''))
                           else id)
                            (ignore (C_close rd) (ignore (C_close wr) (Ret ()))))))))))))"

definition demo_pipe :: "unit prog" where
  "demo_pipe =
     banner ''Demo 4.1: Self-Pipe Trick simple''
     (Sys C_pipe (\<lambda>p.
       if a_ret p = -1 then ignore (C_print ''pipe'') (Ret ())
       else let rd = fst (a_evs p ! 0); wr = fst (a_evs p ! 1)
            in ignore (C_write wr ''A'')
                 (Sys (C_read rd 1) (\<lambda>r.
                    ignore (C_print (''pip read amout '' @ dec_int (a_ret r) @ '': '' @ take 1 (a_data r)))
                      (ignore (C_close rd) (ignore (C_close wr) (Ret ())))))))"

section \<open>Signals as a descriptor\<close>

text \<open>\<^verbatim>\<open>sizeof(struct signalfd_siginfo)\<close> is 128; \<^verbatim>\<open>ssi_signo\<close> is its first word and \<^verbatim>\<open>ssi_pid\<close> its fourth.\<close>

definition siginfo_line :: "byte list \<Rightarrow> string" where
  "siginfo_line fdsi =
     ''signalfd read: signo='' @ dec_nat (unat (bytes_int (take 4 fdsi))) @ '', PID='' @ dec_nat (unat (bytes_int (take 4 (drop 12 fdsi))))"

definition demo_signalfd :: "unit prog" where
  "demo_signalfd =
     banner (''Demo 5: signalfd() '' @ em_dash @ '' Read Signals Like a File'')
     (ignore (C_misc ''sigprocmask SIG_BLOCK SIGUSR1'')
       (Sys (C_newfd ''signalfd'') (\<lambda>s.
          let sfd = a_ret s
          in if sfd = -1 then ignore (C_print ''signalfd'') (Ret ())
             else ignore (C_print (''Sending SIGUSR1 '' @ em_dash @ '' will be read via signalfd'' @ ellipsis))
                    (getpid (\<lambda>me. ignore (C_misc (''kill '' @ dec_int me @ '' SIGUSR1''))
                      (Sys (C_read sfd 128) (\<lambda>r.
                         (if a_ret r = 128 then ignore (C_print (siginfo_line (a_data r))) else id)
                           (ignore (C_close sfd) (Ret ())))))))))"

section \<open>Balance\<close>

lemma uart_balanced: "moves_fds F F demo_uart_send_receive"
  by (auto simp: demo_uart_send_receive_def plain_open_def moves_simps filled_def intro!: moves_rules)

lemma kick_moves: "fd \<in> F \<Longrightarrow> moves_fds F T p \<Longrightarrow> moves_fds F T (kick fd n p)"
  by (induction n) (auto simp: moves_simps intro!: moves_rules)

lemma watchdog_balanced: "moves_fds F F watchdog_demo"
  by (auto simp: watchdog_demo_def watchdog_run_def plain_open_def moves_simps intro!: moves_rules kick_moves)

lemma toggle_moves: "moves_fds F T p \<Longrightarrow> moves_fds F T (toggle_loop is p)"
  by (induction "is") (auto simp: moves_simps intro!: moves_rules)

lemma toggle_balanced: "moves_fds F F demo_toggle_gpio"
  by (auto simp: demo_toggle_gpio_def moves_simps simp del: toggle_loop.simps intro!: moves_rules toggle_moves)

lemma gpio_events_moves: "moves_fds F F (demo_gpio_events fuel)"
proof -
  have "moves_fds G T (gpio_event_loop fuel)" for G T
    by (induction fuel) (auto simp: moves_simps intro!: moves_rules)
  then show ?thesis by (auto simp: demo_gpio_events_def moves_simps intro!: moves_rules)
qed

text \<open>Once the line was requested the event loop never returns: the code behind it is not reached.\<close>

lemma gpio_events_returns_only_errors:
  "wp (demo_gpio_events fuel) (\<lambda>r v. \<forall>n. r = Done n \<longrightarrow> n = -1) w"
proof -
  have "wp (gpio_event_loop fuel) (\<lambda>r v. \<forall>n. r = Done n \<longrightarrow> n = -1) w" for w
    by (induction fuel arbitrary: w) simp_all
  then show ?thesis by (simp add: demo_gpio_events_def banner_def)
qed

lemma ioctl_balanced: "1 \<in> F \<Longrightarrow> moves_fds F F demo_ioctl"
  by (auto simp: demo_ioctl_def moves_simps intro!: moves_rules)

lemma select_balanced: "moves_fds F F demo_select"
  by (auto simp: demo_select_def Let_def moves_simps intro!: moves_rules)

lemma self_pipe_balanced: "moves_fds F F demo_self_pipe"
  by (auto simp: demo_self_pipe_def pipe_sig_handler_def Let_def moves_simps intro!: moves_rules)

lemma pipe_balanced: "moves_fds F F demo_pipe"
  by (auto simp: demo_pipe_def Let_def moves_simps intro!: moves_rules)

lemma signalfd_balanced: "moves_fds F F demo_signalfd"
  by (auto simp: demo_signalfd_def Let_def moves_simps intro!: moves_rules)

section \<open>Terminal flags\<close>

text \<open>
  The serial port is set to 9600 baud, eight data bits, no parity, one stop bit, and every other bit of
  \<^verbatim>\<open>c_cflag\<close> keeps the value \<^verbatim>\<open>tcgetattr\<close> returned; setting the flags again changes nothing.
\<close>

theorem uart_8n1:
  "uart_cflag c AND CBAUD = B9600 \<and> uart_cflag c AND CSIZE = CS8 \<and> uart_cflag c AND PARENB = 0 \<and> uart_cflag c AND CSTOPB = 0
   \<and> uart_cflag c AND NOT (CBAUD OR CSIZE OR PARENB OR CSTOPB) = c AND NOT (CBAUD OR CSIZE OR PARENB OR CSTOPB)
   \<and> uart_cflag (uart_cflag c) = uart_cflag c"
  by (simp add: uart_cflag_def cfsetspeed_def Let_def and.assoc bit.conj_disj_distrib2)

end
