(* ===== verification/Timers.thy ===== *)
theory Timers
  imports Fd_Demos
begin

text \<open>
  \<^verbatim>\<open>08_timers/timer_demo.c\<close>. An answer to \<^verbatim>\<open>clock_gettime\<close> carries the seconds and nanoseconds as its first
  pair; an answer to \<^verbatim>\<open>pause\<close> carries one pair for every run of the handler since the program last looked, with the
  overrun of that expiration. Time is 64-bit unsigned as \<^verbatim>\<open>now_ns\<close> computes it, the counters are 32-bit signed.

  The elapsed time in milliseconds that is printed besides the nanoseconds, a floating-point number, is left out.

  Shown: elapsed times are right also when \<^verbatim>\<open>now_ns\<close> wraps; each of the three waiting loops ends after at most
  five rounds with a count of at least five, if every round brings an expiration and the counts stay below
  a bound; the \<^verbatim>\<open>timerfd\<close> demo closes what it opened on every path.
\<close>

section \<open>Elapsed time\<close>

type_synonym timespec = "int \<times> nat"

definition now_ns :: "timespec \<Rightarrow> 64 word" where
  "now_ns ts = of_int (fst ts) * 1000000000 + of_nat (snd ts)"

definition show_ts :: "string \<Rightarrow> timespec \<Rightarrow> string" where
  "show_ts name ts = name @ dec_int (fst ts) @ ''.'' @ pad9 (snd ts) @ '' s''"

definition clock_gettime :: "string \<Rightarrow> (timespec \<Rightarrow> 'a prog) \<Rightarrow> 'a prog" where
  "clock_gettime clock k = Sys (C_misc clock) (\<lambda>a. k (hd (a_evs a)))"

definition demo_clock_nanosleep :: "(64 word) prog" where
  "demo_clock_nanosleep =
     banner ''Demo 1: clock_gettime() + nanosleep()''
     (clock_gettime ''CLOCK_REALTIME'' (\<lambda>now_real.
       clock_gettime ''CLOCK_MONOTONIC'' (\<lambda>now_mono.
         ignore (C_print (show_ts ''CLOCK_REALTIME : '' now_real))
           (ignore (C_print (show_ts ''CLOCK_MONOTONIC: '' now_mono))
             (clock_gettime ''CLOCK_MONOTONIC'' (\<lambda>t0.
               ignore (C_misc ''nanosleep 0.100000000'')
                 (clock_gettime ''CLOCK_MONOTONIC'' (\<lambda>t1.
                    let elapsed = now_ns t1 - now_ns t0
                    in ignore (C_print (''nanosleep(100ms) actual: '' @ dec_nat (unat elapsed) @ '' ns'')) (Ret elapsed)))))))))"

section \<open>Counting expirations\<close>

text \<open>The loop \<^verbatim>\<open>while (count < 5) body\<close> of three demos.\<close>

primrec while_below_5 :: "nat \<Rightarrow> (c_int \<Rightarrow> c_int prog) \<Rightarrow> c_int \<Rightarrow> c_int prog" where
  "while_below_5 0 body c = (if sint c < 5 then More else Ret c)"
| "while_below_5 (Suc fuel) body c = (if sint c < 5 then bindp (body c) (while_below_5 fuel body) else Ret c)"

definition sigalrm_handler :: "c_int \<Rightarrow> c_int" where
  "sigalrm_handler g_alarm_count = g_alarm_count + 1"

definition posix_timer_handler :: "nat \<Rightarrow> c_int \<Rightarrow> c_int" where
  "posix_timer_handler overrun g_posix_count = g_posix_count + (1 + of_nat overrun)"

text \<open>\<^verbatim>\<open>pause()\<close>: the handlers run, in order.\<close>

definition pause_alarm :: "c_int \<Rightarrow> c_int prog" where
  "pause_alarm c = Sys (C_misc ''pause'') (\<lambda>a. Ret (fold (\<lambda>_. sigalrm_handler) (a_evs a) c))"

definition pause_posix :: "c_int \<Rightarrow> c_int prog" where
  "pause_posix c = Sys (C_misc ''pause'') (\<lambda>a. Ret (fold (posix_timer_handler \<circ> snd) (a_evs a) c))"

definition demo_setitimer :: "nat \<Rightarrow> c_int prog" where
  "demo_setitimer fuel =
     banner ''Demo 2: setitimer() / SIGALRM''
     (ignore (C_misc ''sigaction SIGALRM sigalrm_handler'')
       (ignore (C_misc ''setitimer 0.100000 0.100000'')
         (ignore (C_print (''Waiting for 5 SIGALRM ticks'' @ ellipsis))
           (bindp (while_below_5 fuel pause_alarm 0) (\<lambda>n.
              ignore (C_misc ''setitimer 0 0'')
                (ignore (C_misc ''sigaction SIGALRM old_sa'')
                  (ignore (C_print (''Got '' @ dec_int (sint n) @ '' SIGALRM signals '' @ check_mark)) (Ret n))))))))"

definition posix_wait :: "nat \<Rightarrow> c_int prog" where
  "posix_wait fuel =
     ignore (C_misc ''timer_settime 0.100000000 0.100000000'')
       (ignore (C_print (''Waiting for 5 POSIX timer expirations'' @ ellipsis))
         (bindp (while_below_5 fuel pause_posix 0) (\<lambda>n.
            ignore (C_misc ''timer_settime 0.100000000 0'')
              (ignore (C_misc ''timer_delete'')
                (ignore (C_print (''Got '' @ dec_int (sint n) @ '' timer expirations '' @ check_mark)) (Ret n))))))"

definition demo_posix_timer :: "nat \<Rightarrow> c_int prog" where
  "demo_posix_timer fuel =
     banner ''Demo 3: timer_create() with SIGEV_SIGNAL''
     (ignore (C_misc ''sigaction SIGRTMIN posix_timer_handler'')
       (Sys (C_misc ''timer_create'') (\<lambda>t.
          if a_ret t = -1 then ignore (C_print ''timer_create'') (Ret 0) else posix_wait fuel)))"

section \<open>Timer descriptors\<close>

definition bytes_u64 :: "byte list \<Rightarrow> 64 word" where
  "bytes_u64 bs = of_nat (foldr (\<lambda>b acc. of_char b + 256 * acc) bs 0)"

definition timerfd_round :: "int \<Rightarrow> int \<Rightarrow> c_int \<Rightarrow> c_int prog" where
  "timerfd_round epfd tfd fire_count =
     Sys (C_epoll_wait epfd 1) (\<lambda>e.
       if 0 < a_ret e
       then Sys (C_read tfd 8) (\<lambda>r.
              if a_ret r = 8
              then let exp = bytes_u64 (a_data r); total = fire_count + ucast exp
                   in ignore (C_print (''  timerfd fired '' @ dec_int (a_ret e) @ '', exp='' @ dec_nat (unat exp)
                        @ '', total='' @ dec_int (sint total))) (Ret total)
              else ignore (C_print ''read timerfd'') (Ret fire_count))
       else Ret fire_count)"

definition timerfd_wait :: "nat \<Rightarrow> int \<Rightarrow> int \<Rightarrow> unit prog" where
  "timerfd_wait fuel epfd tfd =
     ignore (C_print (''timerfd firing every 100ms '' @ em_dash @ '' waiting for 5 expirations'' @ ellipsis))
       (bindp (while_below_5 fuel (timerfd_round epfd tfd) 0) (\<lambda>n.
          ignore (C_close epfd) (ignore (C_close tfd) (ignore (C_print (''timerfd demo done '' @ check_mark)) (Ret ())))))"

definition demo_timerfd :: "nat \<Rightarrow> unit prog" where
  "demo_timerfd fuel =
     banner ''Demo 4: timerfd_create() + epoll''
     (Sys (C_newfd ''timerfd'') (\<lambda>t.
        let tfd = a_ret t
        in if tfd < 0 then ignore (C_print ''timerfd_create'') (Ret ())
           else Sys (C_misc ''timerfd_settime'') (\<lambda>s.
             if a_ret s < 0 then ignore (C_print ''timerfd_settime'') (ignore (C_close tfd) (Ret ()))
             else Sys C_epoll_create (\<lambda>e.
               let epfd = a_ret e
               in if epfd < 0 then ignore (C_print ''epoll_create1'') (ignore (C_close tfd) (Ret ()))
                  else Sys (C_epoll_ctl epfd True tfd) (\<lambda>c.
                    if a_ret c = -1
                    then ignore (C_print ''epoll_ctl'') (ignore (C_close epfd) (ignore (C_close tfd) (Ret ())))
                    else timerfd_wait fuel epfd tfd)))))"

section \<open>Lemmas\<close>

definition true_ns :: "timespec \<Rightarrow> int" where
  "true_ns ts = fst ts * 1000000000 + int (snd ts)"

lemma now_ns_true: "now_ns ts = of_int (true_ns ts)"
  by (simp add: now_ns_def true_ns_def)

lemma elapsed_exact:
  assumes "0 \<le> true_ns t1 - true_ns t0" and "true_ns t1 - true_ns t0 < 2 ^ 64"
  shows "uint (now_ns t1 - now_ns t0) = true_ns t1 - true_ns t0"
proof -
  have "uint (now_ns t1 - now_ns t0) = take_bit 64 (true_ns t1 - true_ns t0)"
    by (simp add: now_ns_true unsigned_of_int del: of_int_diff add: of_int_diff [symmetric])
  then show ?thesis using assms by (simp add: take_bit_int_eq_self)
qed

text \<open>A counter that stays non-negative and grows in every round reaches 5 in time.\<close>

lemma while_below_5_ends:
  assumes step: "\<And>c s. 0 \<le> sint c \<Longrightarrow> sint c < 5 \<Longrightarrow> \<exists>c' s'. run_on kern (body c) s = (Done c', s') \<and> sint c < sint c'"
    and "0 \<le> sint c" and "5 - sint c \<le> int fuel"
  shows "\<exists>n s'. run_on kern (while_below_5 fuel body c) s = (Done n, s') \<and> 5 \<le> sint n"
  using assms(2,3)
proof (induction fuel arbitrary: c s)
  case (Suc fuel)
  show ?case
  proof (cases "sint c < 5")
    case True
    then obtain c' s' where b: "run_on kern (body c) s = (Done c', s')" "sint c < sint c'" using step Suc.prems(1) by blast
    then obtain n t where "run_on kern (while_below_5 fuel body c') s' = (Done n, t)" "5 \<le> sint n"
      using Suc.IH [of c' s'] Suc.prems by auto
    then show ?thesis using True b by (simp add: run_on_bind)
  qed simp
qed simp

lemma sint_add_small:
  assumes "0 \<le> sint (c :: c_int)" and "sint c < 5" and "n < 2 ^ 30"
  shows "sint (c + of_nat n) = sint c + int n"
proof -
  have "c + of_nat n = of_int (sint c + int n)" by simp
  then have "sint (c + of_nat n) = signed_take_bit 31 (sint c + int n)" by (simp only: signed_of_int) simp
  then show ?thesis using assms by (simp add: signed_take_bit_int_eq_self)
qed

definition expirations :: "(int \<times> nat) list \<Rightarrow> nat" where
  "expirations evs = sum_list (map (\<lambda>e. Suc (snd e)) evs)"

lemma fold_sigalrm: "fold (\<lambda>_. sigalrm_handler) evs c = c + of_nat (length evs)"
  by (induction evs arbitrary: c) (simp_all add: sigalrm_handler_def)

lemma fold_posix: "fold (posix_timer_handler \<circ> snd) evs c = c + of_nat (expirations evs)"
  by (induction evs arbitrary: c) (simp_all add: posix_timer_handler_def expirations_def ac_simps)

lemma expirations_length: "length evs \<le> expirations evs"
  by (induction evs) (simp_all add: expirations_def)

lemma expirations_pos: "evs \<noteq> [] \<Longrightarrow> 0 < expirations evs"
  by (cases evs) (simp_all add: expirations_def)

text \<open>What the manual pages promise of a kernel: \<^verbatim>\<open>pause\<close> returns after a handler ran; a readable timer tells its expirations.\<close>

definition pause_wakes :: "('s \<Rightarrow> call \<Rightarrow> ans \<times> 's) \<Rightarrow> bool" where
  "pause_wakes kern \<longleftrightarrow>
     (\<forall>s. let evs = a_evs (fst (kern s (C_misc ''pause''))) in evs \<noteq> [] \<and> expirations evs < 2 ^ 30)"

definition timer_fires :: "('s \<Rightarrow> call \<Rightarrow> ans \<times> 's) \<Rightarrow> bool" where
  "timer_fires kern \<longleftrightarrow>
     (\<forall>s epfd. 0 < a_ret (fst (kern s (C_epoll_wait epfd 1))))
     \<and> (\<forall>s tfd. let r = fst (kern s (C_read tfd 8))
                in a_ret r = 8 \<and> 0 < unat (bytes_u64 (a_data r)) \<and> unat (bytes_u64 (a_data r)) < 2 ^ 30)"

lemma pause_alarm_counts:
  assumes "pause_wakes kern" and "0 \<le> sint c" and "sint c < 5"
  shows "\<exists>c' s'. run_on kern (pause_alarm c) s = (Done c', s') \<and> sint c < sint c'"
proof -
  let ?evs = "a_evs (fst (kern s (C_misc ''pause'')))"
  have "?evs \<noteq> []" "expirations ?evs < 2 ^ 30" using assms(1) by (simp_all add: pause_wakes_def Let_def)
  then have "0 < length ?evs" "length ?evs < 2 ^ 30" using expirations_length [of ?evs] by (simp, linarith)
  then show ?thesis using sint_add_small [OF assms(2,3)] by (simp add: pause_alarm_def fold_sigalrm)
qed

lemma pause_posix_counts:
  assumes "pause_wakes kern" and "0 \<le> sint c" and "sint c < 5"
  shows "\<exists>c' s'. run_on kern (pause_posix c) s = (Done c', s') \<and> sint c < sint c'"
proof -
  let ?evs = "a_evs (fst (kern s (C_misc ''pause'')))"
  have "?evs \<noteq> []" "expirations ?evs < 2 ^ 30" using assms(1) by (simp_all add: pause_wakes_def Let_def)
  moreover from this(1) have "0 < expirations ?evs" by (rule expirations_pos)
  ultimately show ?thesis using sint_add_small [OF assms(2,3)] by (simp add: pause_posix_def fold_posix)
qed

lemma timerfd_round_counts:
  assumes "timer_fires kern" and "0 \<le> sint c" and "sint c < 5"
  shows "\<exists>c' s'. run_on kern (timerfd_round epfd tfd c) s = (Done c', s') \<and> sint c < sint c'"
proof -
  define t where "t = snd (kern s (C_epoll_wait epfd 1))"
  define x where "x = bytes_u64 (a_data (fst (kern t (C_read tfd 8))))"
  have "0 < a_ret (fst (kern s (C_epoll_wait epfd 1)))" "a_ret (fst (kern t (C_read tfd 8))) = 8" and x: "0 < unat x" "unat x < 2 ^ 30"
    using assms(1) by (simp_all add: timer_fires_def Let_def x_def)
  then have "\<exists>s'. run_on kern (timerfd_round epfd tfd c) s = (Done (c + ucast x), s')"
    by (simp add: timerfd_round_def Let_def t_def x_def)
  moreover have "(ucast x :: c_int) = of_nat (unat x)" by simp
  then have "sint (c + ucast x) = sint c + int (unat x)" using sint_add_small [OF assms(2,3) x(2)] by (simp only:)
  moreover have "0 < int (unat x)" using x(1) by (simp only: of_nat_0_less_iff)
  ultimately show ?thesis by (metis less_add_same_cancel1)
qed

text \<open>The loops as the demos start them.\<close>

lemma alarm_loop_ends:
  assumes "pause_wakes kern" and "5 \<le> fuel"
  obtains n s' where "run_on kern (while_below_5 fuel pause_alarm 0) s = (Done n, s')" and "5 \<le> sint n"
  using while_below_5_ends [of kern pause_alarm 0 fuel s] pause_alarm_counts [OF assms(1)] assms(2) by auto

lemma posix_loop_ends:
  assumes "pause_wakes kern" and "5 \<le> fuel"
  obtains n s' where "run_on kern (while_below_5 fuel pause_posix 0) s = (Done n, s')" and "5 \<le> sint n"
  using while_below_5_ends [of kern pause_posix 0 fuel s] pause_posix_counts [OF assms(1)] assms(2) by auto

lemma timerfd_loop_ends:
  assumes "timer_fires kern" and "5 \<le> fuel"
  obtains n s' where "run_on kern (while_below_5 fuel (timerfd_round e t) 0) s = (Done n, s')" and "5 \<le> sint n"
  using while_below_5_ends [of kern "timerfd_round e t" 0 fuel s] timerfd_round_counts [OF assms(1)] assms(2) by auto

lemma setitimer_ends: "pause_wakes kern \<Longrightarrow> 5 \<le> fuel \<Longrightarrow> \<exists>n s'. run_on kern (demo_setitimer fuel) s = (Done n, s') \<and> 5 \<le> sint n"
proof -
  assume a: "pause_wakes kern" "5 \<le> fuel"
  have "\<exists>n s'. run_on kern (bindp (while_below_5 fuel pause_alarm 0) (\<lambda>n. ignore c1 (ignore c2 (ignore (c3 n) (Ret n))))) t = (Done n, s') \<and> 5 \<le> sint n"
    for c1 c2 c3 t by (rule alarm_loop_ends [OF a, of t]) (simp add: run_on_bind)
  then show ?thesis by (simp add: demo_setitimer_def)
qed

lemma posix_wait_ends: "pause_wakes kern \<Longrightarrow> 5 \<le> fuel \<Longrightarrow> \<exists>n s'. run_on kern (posix_wait fuel) s = (Done n, s') \<and> 5 \<le> sint n"
proof -
  assume a: "pause_wakes kern" "5 \<le> fuel"
  have "\<exists>n s'. run_on kern (bindp (while_below_5 fuel pause_posix 0) (\<lambda>n. ignore c1 (ignore c2 (ignore (c3 n) (Ret n))))) t = (Done n, s') \<and> 5 \<le> sint n"
    for c1 c2 c3 t by (rule posix_loop_ends [OF a, of t]) (simp add: run_on_bind)
  then show ?thesis by (simp add: posix_wait_def)
qed

lemma timerfd_wait_ends: "timer_fires kern \<Longrightarrow> 5 \<le> fuel \<Longrightarrow> \<exists>s'. run_on kern (timerfd_wait fuel e t) s = (Done (), s')"
proof -
  assume a: "timer_fires kern" "5 \<le> fuel"
  have "\<exists>s'. run_on kern (bindp (while_below_5 fuel (timerfd_round e t) 0) (\<lambda>n. ignore c1 (ignore c2 (ignore c3 (Ret ()))))) u = (Done (), s')"
    for c1 c2 c3 u by (rule timerfd_loop_ends [OF a, of e t u]) (simp add: run_on_bind)
  then show ?thesis by (simp add: timerfd_wait_def)
qed

lemma timerfd_round_moves: "epfd \<in> F \<Longrightarrow> tfd \<in> F \<Longrightarrow> moves_fds F F (timerfd_round epfd tfd c)"
  by (auto simp: timerfd_round_def Let_def moves_simps intro!: moves_rules)

lemma while_below_5_moves: "(\<And>c. moves_fds F F (body c)) \<Longrightarrow> moves_fds F F (while_below_5 fuel body c)"
  by (induction fuel arbitrary: c) (auto intro!: moves_rules moves_bind)

lemma timerfd_wait_moves:
  assumes "e \<in> G" and "t \<in> G" and "e \<noteq> t" and "G - {e} - {t} = F"
  shows "moves_fds G F (timerfd_wait fuel e t)"
proof -
  have "moves_fds G F (bindp (while_below_5 fuel (timerfd_round e t) 0) (\<lambda>n.
      ignore (C_close e) (ignore (C_close t) (ignore (C_print (''timerfd demo done '' @ check_mark)) (Ret ())))))"
    by (rule moves_bind [OF while_below_5_moves [OF timerfd_round_moves [OF assms(1,2)]]])
      (use assms in \<open>auto simp: moves_simps intro!: moves_rules\<close>)
  then show ?thesis by (auto simp: timerfd_wait_def moves_simps intro!: moves_rules)
qed

lemma timerfd_balanced: "moves_fds F F (demo_timerfd fuel)"
  by (auto simp: demo_timerfd_def Let_def moves_simps intro!: moves_rules timerfd_wait_moves)

section \<open>Properties\<close>

definition ans_time :: "timespec \<Rightarrow> ans" where
  "ans_time ts = \<lparr>a_ret = 0, a_err = 0, a_data = [], a_evs = [ts]\<rparr>"

text \<open>
  \<^verbatim>\<open>demo_clock_nanosleep\<close>, after its banner: whatever the clock shows, the elapsed time it reports is the true difference of the
  two readings, as long as that is not negative and fits 64 bits; the product and the sum in \<^verbatim>\<open>now_ns\<close> may have
  wrapped.
\<close>

theorem nanosleep_elapsed:
  assumes "true_ns t0 \<le> true_ns t1" and "true_ns t1 - true_ns t0 < 2 ^ 64"
  shows "\<exists>e w'. exec demo_clock_nanosleep [b1, b2, b3, ans_time r, ans_time m, p1, p2, ans_time t0, sl, ans_time t1, p3] w = (Done e, w')
    \<and> uint e = true_ns t1 - true_ns t0"
  using elapsed_exact [of t1 t0] assms by (simp add: demo_clock_nanosleep_def banner_def clock_gettime_def Let_def ans_time_def)

theorem nanosleep_elapsed_witness:
  "\<exists>e w'. exec demo_clock_nanosleep [ans_time (0, 0), ans_time (0, 0), ans_time (0, 0), ans_time (0, 0), ans_time (0, 0), ans_time (0, 0), ans_time (0, 0),
      ans_time (18446744073, 700000000), ans_time (0, 0), ans_time (18446744073, 800000000), ans_time (0, 0)] world0 = (Done e, w')
    \<and> uint e = 100000000"
  using nanosleep_elapsed [of "(18446744073, 700000000)" "(18446744073, 800000000)"] by (simp add: true_ns_def)


definition steady_kernel :: "unit \<Rightarrow> call \<Rightarrow> ans \<times> unit" where
  "steady_kernel s c = (\<lparr>a_ret = 8, a_err = 0, a_data = [CHR 0x01, NUL, NUL, NUL, NUL, NUL, NUL, NUL], a_evs = [(14, 0)]\<rparr>, ())"


end
