(* ===== verification/File_Io.thy ===== *)
theory File_Io
  imports Fd_Demos
begin

text \<open>
  \<^verbatim>\<open>06_file_io/fileio_demo.c\<close>: write, seek and read back; scatter and gather; \<^verbatim>\<open>sendfile\<close>; draining pipes that
  epoll reported. The programs are the same whether the kernel's answers are arbitrary or come from the
  file system below, which has what these demos use of one: contents by path, and open files with an
  offset.

  Shown: on the file system what is written is read back, for any lines and any buffers, and the copy
  equals the source; with arbitrary answers, which of the demos misuse descriptors, and when the drained
  bytes leave the 32-byte buffer.
\<close>

section \<open>Basic file I/O\<close>

primrec write_all :: "int \<Rightarrow> string list \<Rightarrow> 'a prog \<Rightarrow> 'a prog" where
  "write_all fd [] p = p"
| "write_all fd (l # ls) p = ignore (C_write fd l) (write_all fd ls p)"

definition fileio_lines :: "string list" where
  "fileio_lines = [''Line 1: Embedded Linux'' @ [CHR 0x0A], ''Line 2: Kernel Drivers'' @ [CHR 0x0A],
     ''Line 3: System Calls'' @ [CHR 0x0A]]"

abbreviation (input) SEEK_SET :: nat where "SEEK_SET \<equiv> 0"
abbreviation (input) SEEK_END :: nat where "SEEK_END \<equiv> 2"

text \<open>\<^verbatim>\<open>demo_basic_fileio\<close> for the lines \<open>ls\<close>; the code has \<open>fileio_lines\<close>.\<close>

definition demo_basic_fileio :: "string list \<Rightarrow> unit prog" where
  "demo_basic_fileio ls =
     banner ''Demo 1: Basic File I/O (open/write/lseek/read)''
     (Sys (C_create ''/tmp/fileio_demo.txt'') (\<lambda>o1.
       let fd = a_ret o1
       in if fd < 0 then ignore (C_print ''open'') (Ret ())
          else write_all fd ls
            (ignore (C_lseek fd 0 SEEK_SET)
              (Sys (C_read fd 255) (\<lambda>r.
                 let n = a_ret r
                 in at_index 256 n
                      (ignore (C_print (''Read back '' @ dec_int n @ '' bytes:'' @ [CHR 0x0A] @ cstr (a_data r @ [NUL])))
                        (Sys (C_lseek fd 0 SEEK_END) (\<lambda>e.
                           ignore (C_print (''File size: '' @ dec_int (a_ret e) @ '' bytes''))
                             (ignore (C_close fd) (ignore (C_unlink ''/tmp/fileio_demo.txt'') (Ret ())))))))))))"

section \<open>Scatter and gather\<close>

fun split_lens :: "nat list \<Rightarrow> 'a list \<Rightarrow> 'a list list" where
  "split_lens [] xs = []"
| "split_lens (n # ns) xs = take n xs # split_lens ns (drop n xs)"

definition iov_buffers :: "string list" where
  "iov_buffers = [''[HEADER] '', ''payload data '', ''[TRAILER]'' @ [CHR 0x0A]]"

text \<open>
  \<^verbatim>\<open>demo_scatter_gather\<close> for the buffers \<open>hs\<close>, each read back into an array of 32 bytes. What the arrays hold
  is printed up to the NUL stored behind the length that was asked for.
\<close>

definition demo_scatter_gather :: "string list \<Rightarrow> string list prog" where
  "demo_scatter_gather hs =
     banner (''Demo 6: writev() / readv() '' @ em_dash @ '' Scatter/Gather I/O'')
     (Sys (C_create ''/tmp/iov_demo.bin'') (\<lambda>o1.
       let fd = a_ret o1
       in Sys (C_writev fd hs) (\<lambda>wr.
            ignore (C_print (''writev: '' @ dec_int (a_ret wr) @ '' bytes written''))
              (ignore (C_lseek fd 0 SEEK_SET)
                (Sys (C_readv fd (map length hs)) (\<lambda>r.
                   if list_all (\<lambda>h. length h < 32) hs
                   then let rs = split_lens (map length hs) (a_data r)
                        in ignore (C_print (''readv: '' @ concat (map (\<lambda>x. '' ['' @ cstr (x @ [NUL]) @ '']'') rs)))
                             (ignore (C_close fd) (ignore (C_unlink ''/tmp/iov_demo.bin'') (Ret rs)))
                   else Fault Out_Of_Bounds))))))"

section \<open>Sendfile\<close>

definition data_line :: "nat \<Rightarrow> string" where
  "data_line i = ''Data line '' @ dec_nat i @ [CHR 0x0A]"

text \<open>
  The answer to \<^verbatim>\<open>fstat\<close> carries \<^verbatim>\<open>st_size\<close> as its first pair. \<open>sendfile_copy\<close> is \<^verbatim>\<open>demo_sendfile\<close> for \<open>n\<close> lines up to the
  report; the code has 100 lines.
\<close>

definition sendfile_copy :: "nat \<Rightarrow> (int \<times> int \<times> int) prog" where
  "sendfile_copy n =
     Sys (C_create ''/tmp/sendfile_src.bin'') (\<lambda>o1.
       write_all (a_ret o1) (map (\<lambda>i. take 63 (data_line i)) [0..<n])
         (ignore (C_close (a_ret o1))
           (Sys (C_open ''/tmp/sendfile_src.bin'') (\<lambda>o2.
              Sys (C_create ''/tmp/sendfile_dst.bin'') (\<lambda>o3.
                Sys (C_fstat (a_ret o2)) (\<lambda>st.
                  Sys (C_sendfile (a_ret o3) (a_ret o2) (snd (hd (a_evs st)))) (\<lambda>sent.
                    Ret (a_ret o2, a_ret o3, a_ret sent))))))))"

definition demo_sendfile :: "nat \<Rightarrow> int prog" where
  "demo_sendfile n =
     banner (''Demo 5: sendfile() '' @ em_dash @ '' Zero-Copy Transfer'')
     (bindp (sendfile_copy n) (\<lambda>(src, dst, sent).
       ignore (C_print (''sendfile: copied '' @ dec_int sent @ '' bytes without user-space buffer '' @ check_mark))
         (ignore (C_close src) (ignore (C_close dst)
           (ignore (C_unlink ''/tmp/sendfile_src.bin'') (ignore (C_unlink ''/tmp/sendfile_dst.bin'') (Ret sent)))))))"

section \<open>Draining what epoll reported\<close>

abbreviation DRAIN_SIZE :: nat where "DRAIN_SIZE \<equiv> 32"

text \<open>\<open>got\<close> is what \<^verbatim>\<open>buf\<close> holds so far, \<^verbatim>\<open>total\<close> its length. Every read may store 32 more bytes.\<close>

primrec drain_fd :: "nat \<Rightarrow> int \<Rightarrow> byte list \<Rightarrow> byte list prog" where
  "drain_fd 0 fd got = More"
| "drain_fd (Suc fuel) fd got =
     Sys (C_read fd DRAIN_SIZE) (\<lambda>r.
       if 0 < a_ret r
       then (if length got + nat (a_ret r) \<le> DRAIN_SIZE
             then ignore (C_print (''  fd='' @ dec_int fd @ '' drained '' @ dec_int (a_ret r) @ '' bytes''))
                    (drain_fd fuel fd (got @ a_data r))
             else Fault Out_Of_Bounds)
       else Ret got)"

primrec drain_events :: "nat \<Rightarrow> (int \<times> nat) list \<Rightarrow> byte list \<Rightarrow> byte list prog" where
  "drain_events fuel [] got = Ret got"
| "drain_events fuel (ev # evs) got = bindp (drain_fd fuel (fst ev) got) (drain_events fuel evs)"

definition epoll_rest :: "nat \<Rightarrow> int \<Rightarrow> int \<Rightarrow> int \<Rightarrow> int \<Rightarrow> int \<Rightarrow> unit prog" where
  "epoll_rest fuel epfd r1 w1 r2 w2 =
     ignore (C_epoll_ctl epfd True r1) (ignore (C_epoll_ctl epfd True r2)
       (ignore (C_write w1 ''Hello'') (ignore (C_write w2 ''Hello2'')
         (Sys (C_epoll_wait epfd 4) (\<lambda>e1.
            ignore (C_print (''1st epoll_wait returned '' @ dec_int (a_ret e1) @ '' event(s), write again without read''))
              (ignore (C_write w1 ''World'')
                (Sys (C_epoll_wait epfd 4) (\<lambda>e2.
                   ignore (C_print (''2nd epoll_wait returned '' @ dec_int (a_ret e2) @ '' event(s)''))
                     (bindp (drain_events fuel (a_evs e2) []) (\<lambda>got.
                        at_index DRAIN_SIZE (int (length got))
                          (ignore (C_print ('' total get '' @ dec_nat (length got) @ '' bytes: '' @ cstr (got @ [NUL]) @ '' )''))
                            (ignore (C_close epfd) (ignore (C_close r1) (ignore (C_close w1)
                              (ignore (C_close r2) (ignore (C_close w2) (Ret ())))))))))))))))))"

definition demo_epoll :: "nat \<Rightarrow> unit prog" where
  "demo_epoll fuel =
     banner (''Demo 4: epoll() '' @ em_dash @ '' Level-Triggered & Edge-Triggered'')
     (Sys C_pipe (\<lambda>p.
       if a_ret p < 0 then ignore (C_print ''pipe'') (Ret ())
       else let r1 = fst (a_evs p ! 0); w1 = fst (a_evs p ! 1)
            in ignore (C_fcntl r1 4 2048)
                 (Sys C_pipe (\<lambda>q.
                    if a_ret q < 0 then ignore (C_print ''pipe'') (Ret ())
                    else let r2 = fst (a_evs q ! 0); w2 = fst (a_evs q ! 1)
                         in ignore (C_fcntl r2 4 2048)
                              (Sys C_epoll_create (\<lambda>e.
                                 if a_ret e < 0 then ignore (C_print ''epoll_create1'') (Ret ())
                                 else epoll_rest fuel (a_ret e) r1 w1 r2 w2))))))"

section \<open>A file system\<close>

record fs =
  fs_files :: "string \<Rightarrow> byte list option"
  fs_open :: "int \<Rightarrow> (string \<times> nat) option"
  fs_next :: int
  fs_out :: "string list"

definition ans_ret :: "int \<Rightarrow> ans" where
  "ans_ret r = \<lparr>a_ret = r, a_err = 0, a_data = [], a_evs = []\<rparr>"

definition fs_content :: "fs \<Rightarrow> string \<Rightarrow> byte list" where
  "fs_content s p = (case fs_files s p of Some c \<Rightarrow> c | None \<Rightarrow> [])"

definition new_handle :: "string \<Rightarrow> fs \<Rightarrow> ans \<times> fs" where
  "new_handle p s = (ans_ret (fs_next s), s\<lparr>fs_open := (fs_open s)(fs_next s \<mapsto> (p, 0)), fs_next := fs_next s + 1\<rparr>)"

definition fs_write :: "int \<Rightarrow> byte list \<Rightarrow> fs \<Rightarrow> ans \<times> fs" where
  "fs_write fd bs s =
     (case fs_open s fd of
        None \<Rightarrow> (ans_ret (-1), s)
      | Some (p, off) \<Rightarrow>
          (ans_ret (int (length bs)),
           s\<lparr>fs_files := (fs_files s)(p \<mapsto> put_at (fs_content s p) off bs), fs_open := (fs_open s)(fd \<mapsto> (p, off + length bs))\<rparr>))"

definition fs_read :: "int \<Rightarrow> nat \<Rightarrow> fs \<Rightarrow> ans \<times> fs" where
  "fs_read fd n s =
     (case fs_open s fd of
        None \<Rightarrow> (ans_ret (-1), s)
      | Some (p, off) \<Rightarrow>
          let bs = take n (drop off (fs_content s p))
          in ((ans_ret (int (length bs)))\<lparr>a_data := bs\<rparr>, s\<lparr>fs_open := (fs_open s)(fd \<mapsto> (p, off + length bs))\<rparr>))"

definition fs_call :: "fs \<Rightarrow> call \<Rightarrow> ans \<times> fs" where
  "fs_call s c =
     (case c of
        C_create p \<Rightarrow> new_handle p (s\<lparr>fs_files := (fs_files s)(p \<mapsto> [])\<rparr>)
      | C_open p \<Rightarrow> (case fs_files s p of None \<Rightarrow> (ans_ret (-1), s) | Some _ \<Rightarrow> new_handle p s)
      | C_close fd \<Rightarrow> (ans_ret (if fs_open s fd = None then -1 else 0), s\<lparr>fs_open := (fs_open s)(fd := None)\<rparr>)
      | C_write fd bs \<Rightarrow> fs_write fd bs s
      | C_writev fd bss \<Rightarrow> fs_write fd (concat bss) s
      | C_read fd n \<Rightarrow> fs_read fd n s
      | C_readv fd ns \<Rightarrow> fs_read fd (sum_list ns) s
      | C_lseek fd off wh \<Rightarrow>
          (case fs_open s fd of
             None \<Rightarrow> (ans_ret (-1), s)
           | Some (p, _) \<Rightarrow>
               let pos = (if wh = SEEK_END then length (fs_content s p) else 0) + nat off
               in (ans_ret (int pos), s\<lparr>fs_open := (fs_open s)(fd \<mapsto> (p, pos))\<rparr>))
      | C_fstat fd \<Rightarrow>
          (case fs_open s fd of
             None \<Rightarrow> (ans_ret (-1), s)
           | Some (p, _) \<Rightarrow> ((ans_ret 0)\<lparr>a_evs := [(0, length (fs_content s p))]\<rparr>, s))
      | C_sendfile dst src n \<Rightarrow>
          (case fs_open s src of
             None \<Rightarrow> (ans_ret (-1), s)
           | Some (p, _) \<Rightarrow> fs_write dst (take n (fs_content s p)) s)
      | C_unlink p \<Rightarrow> (ans_ret 0, s\<lparr>fs_files := (fs_files s)(p := None)\<rparr>)
      | C_print m \<Rightarrow> (ans_ret 0, s\<lparr>fs_out := fs_out s @ [m]\<rparr>)
      | _ \<Rightarrow> (ans_ret 0, s))"

section \<open>Lemmas\<close>

lemma put_at_length_end [simp]: "put_at xs (length xs) ys = xs @ ys"
  by (simp add: put_at_def)

lemma split_lens_concat: "split_lens (map length xss) (concat xss @ zs) = xss"
  by (induction xss) simp_all

lemma run_write_all:
  "0 \<le> fd \<Longrightarrow> fs_open s fd = Some (p, length c) \<Longrightarrow> fs_files s p = Some c \<Longrightarrow>
     run_on fs_call (write_all fd ls k) s =
     run_on fs_call k (s\<lparr>fs_files := (fs_files s)(p \<mapsto> c @ concat ls), fs_open := (fs_open s)(fd \<mapsto> (p, length (c @ concat ls)))\<rparr>)"
proof (induction ls arbitrary: s c)
  case Nil
  then have same: "(fs_files s)(p \<mapsto> c) = fs_files s" "(fs_open s)(fd \<mapsto> (p, length c)) = fs_open s" by auto
  show ?case by (simp only: write_all.simps concat.simps append_Nil2 same) simp
next
  case (Cons l ls)
  let ?s = "s\<lparr>fs_files := (fs_files s)(p \<mapsto> c @ l), fs_open := (fs_open s)(fd \<mapsto> (p, length (c @ l)))\<rparr>"
  have "fs_call s (C_write fd l) = (ans_ret (int (length l)), ?s)"
    using Cons.prems by (simp add: fs_call_def fs_write_def fs_content_def)
  then show ?case using Cons.IH [of ?s "c @ l"] Cons.prems by (simp cong: if_cong)
qed

text \<open>Handles are handed out in order.\<close>

definition fs_ok :: "fs \<Rightarrow> bool" where
  "fs_ok s \<longleftrightarrow> 0 \<le> fs_next s \<and> (\<forall>fd \<ge> fs_next s. fs_open s fd = None)"

lemma fs_ok_out [simp]: "fs_ok (s\<lparr>fs_out := out\<rparr>) = fs_ok s"
  by (simp add: fs_ok_def)

lemma fs_okD:
  assumes "fs_ok s"
  shows "fs_open s (fs_next s) = None" "0 \<le> fs_next s" "(fs_open s)(fs_next s := None) = fs_open s"
  using assms by (auto simp: fs_ok_def)

lemma fs_banner [simp]: "after_banner fs_call title s = s\<lparr>fs_out := fs_out s @ banner_lines title\<rparr>"
  by (simp add: after_banner_def fs_call_def banner_lines_def)

lemmas fs_simps = fs_call_def new_handle_def fs_write_def fs_read_def fs_content_def ans_ret_def

definition fs0 :: fs where
  "fs0 = \<lparr>fs_files = (\<lambda>_. None), fs_open = (\<lambda>_. None), fs_next = 3, fs_out = []\<rparr>"



text \<open>
  \<^verbatim>\<open>demo_scatter_gather\<close> for any buffers of fewer than 32 bytes: \<^verbatim>\<open>readv\<close> finds in each of its buffers what \<^verbatim>\<open>writev\<close>
  took from the corresponding one.
\<close>

theorem scatter_gather_roundtrip:
  assumes "fs_ok s" and "list_all (\<lambda>h. length h < 32) hs"
  shows "fst (run_on fs_call (demo_scatter_gather hs) s) = Done hs"
  using assms split_lens_concat [of hs "[]"]
  by (simp add: demo_scatter_gather_def Let_def fs_simps put_at_def length_concat fs_ok_def)

theorem scatter_gather_roundtrip_witness:
  "list_all (\<lambda>h. length h < 32) iov_buffers \<and> fst (run_on fs_call (demo_scatter_gather iov_buffers) fs0) = Done iov_buffers"
  using scatter_gather_roundtrip [of fs0 iov_buffers] by (simp add: fs_ok_def fs0_def iov_buffers_def)

definition sendfile_content :: "nat \<Rightarrow> byte list" where
  "sendfile_content n = concat (map (\<lambda>i. take 63 (data_line i)) [0..<n])"

lemma run_sendfile_copy:
  assumes "fs_ok s"
  shows "run_on fs_call (sendfile_copy n) s =
    (Done (fs_next s + 1, fs_next s + 2, int (length (sendfile_content n))),
     s\<lparr>fs_files := (fs_files s)(''/tmp/sendfile_src.bin'' \<mapsto> sendfile_content n, ''/tmp/sendfile_dst.bin'' \<mapsto> sendfile_content n),
       fs_open := (fs_open s)(fs_next s + 1 \<mapsto> (''/tmp/sendfile_src.bin'', 0),
         fs_next s + 2 \<mapsto> (''/tmp/sendfile_dst.bin'', length (sendfile_content n))),
       fs_next := fs_next s + 3\<rparr>)"
  using fs_okD [OF assms]
  by (cases s) (simp add: sendfile_copy_def run_write_all fs_simps sendfile_content_def [symmetric] put_at_def fun_upd_twist add.commute)



section \<open>Pipes watched by epoll\<close>

text \<open>
  What \<^verbatim>\<open>demo_epoll\<close> uses of the kernel: a pipe is a pair of successive descriptors, the bytes written and not
  yet read are kept under the read end, reading an empty pipe fails with \<^verbatim>\<open>EAGAIN\<close>. With \<open>et\<close> (\<^verbatim>\<open>EPOLLET\<close>) a watched
  read end is reported once per write, without it as long as it has data.
\<close>

record pk =
  pk_next :: int
  pk_data :: "int \<Rightarrow> byte list"
  pk_reg :: "int list"
  pk_edge :: "int list"
  pk_out :: "string list"

definition pk0 :: pk where
  "pk0 = \<lparr>pk_next = 3, pk_data = (\<lambda>_. []), pk_reg = [], pk_edge = [], pk_out = []\<rparr>"

definition pk_ready :: "bool \<Rightarrow> pk \<Rightarrow> int list" where
  "pk_ready et s = (if et then filter (\<lambda>fd. fd \<in> set (pk_edge s)) (pk_reg s) else filter (\<lambda>fd. pk_data s fd \<noteq> []) (pk_reg s))"

definition pk_call :: "bool \<Rightarrow> pk \<Rightarrow> call \<Rightarrow> ans \<times> pk" where
  "pk_call et s c =
     (case c of
        C_pipe \<Rightarrow> ((ans_ret 0)\<lparr>a_evs := [(pk_next s, 0), (pk_next s + 1, 0)]\<rparr>, s\<lparr>pk_next := pk_next s + 2\<rparr>)
      | C_epoll_create \<Rightarrow> (ans_ret (pk_next s), s\<lparr>pk_next := pk_next s + 1\<rparr>)
      | C_epoll_ctl ep add fd \<Rightarrow> (ans_ret 0, s\<lparr>pk_reg := pk_reg s @ [fd]\<rparr>)
      | C_epoll_wait ep n \<Rightarrow>
          let evs = take n (pk_ready et s)
          in ((ans_ret (int (length evs)))\<lparr>a_evs := map (\<lambda>fd. (fd, 1)) evs\<rparr>,
              s\<lparr>pk_edge := filter (\<lambda>fd. fd \<notin> set evs) (pk_edge s)\<rparr>)
      | C_write fd bs \<Rightarrow>
          (ans_ret (int (length bs)),
           s\<lparr>pk_data := (pk_data s)(fd - 1 := pk_data s (fd - 1) @ bs), pk_edge := (fd - 1) # pk_edge s\<rparr>)
      | C_read fd n \<Rightarrow>
          if pk_data s fd = [] then (ans_ret (-1), s)
          else let bs = take n (pk_data s fd)
               in ((ans_ret (int (length bs)))\<lparr>a_data := bs\<rparr>, s\<lparr>pk_data := (pk_data s)(fd := drop n (pk_data s fd))\<rparr>)
      | C_print m \<Rightarrow> (ans_ret 0, s\<lparr>pk_out := pk_out s @ [m]\<rparr>)
      | _ \<Rightarrow> (ans_ret 0, s))"

lemma pk_banner [simp]: "after_banner (pk_call et) title s = s\<lparr>pk_out := pk_out s @ banner_lines title\<rparr>"
  by (simp add: after_banner_def pk_call_def banner_lines_def)

lemmas pk_simps = pk_call_def pk_ready_def ans_ret_def pk0_def

text \<open>
  \<^verbatim>\<open>demo_epoll\<close> on two pipes. Edge-triggered, as the code registers them: the first wait reports both, the second only
  the one written again, and draining it finds both messages, 10 bytes. Level-triggered the second wait would
  report both pipes again, and 16 bytes are drained. The loop ends (three reads suffice) and the buffer is large enough.
\<close>

theorem demo_epoll_triggering:
  assumes "2 < fuel"
  shows "(case run_on (pk_call True) (demo_epoll fuel) pk0 of (r, s) \<Rightarrow> r = Done () \<and> pk_out s = banner_lines (''Demo 4: epoll() '' @ em_dash @ '' Level-Triggered & Edge-Triggered'') @
      [''1st epoll_wait returned '' @ dec_int 2 @ '' event(s), write again without read'', ''2nd epoll_wait returned '' @ dec_int 1 @ '' event(s)'',
       ''  fd='' @ dec_int 3 @ '' drained '' @ dec_int 10 @ '' bytes'', '' total get '' @ dec_nat 10 @ '' bytes: HelloWorld )''])
    \<and> (case run_on (pk_call False) (demo_epoll fuel) pk0 of (r, s) \<Rightarrow> r = Done () \<and> pk_out s = banner_lines (''Demo 4: epoll() '' @ em_dash @ '' Level-Triggered & Edge-Triggered'') @
      [''1st epoll_wait returned '' @ dec_int 2 @ '' event(s), write again without read'', ''2nd epoll_wait returned '' @ dec_int 2 @ '' event(s)'',
       ''  fd='' @ dec_int 3 @ '' drained '' @ dec_int 10 @ '' bytes'', ''  fd='' @ dec_int 5 @ '' drained '' @ dec_int 6 @ '' bytes'',
       '' total get '' @ dec_nat 16 @ '' bytes: HelloWorldHello2 )''])"
proof -
  have f: "fuel = Suc (Suc (Suc (fuel - 3)))" using assms by simp
  show ?thesis
    by (subst f, subst f) (simp add: demo_epoll_def banner_lines_def epoll_rest_def Let_def pk_simps at_index_def cstr_def eval_nat_numeral)
qed

theorem demo_epoll_triggering_witness:
  "fst (run_on (pk_call True) (demo_epoll 3) pk0) = Done ()"
  using demo_epoll_triggering [of 3] by (auto split: prod.splits)

text \<open>
  With arbitrary answers: the buffer holds at most 32 bytes unless a fault was reached, and runs that fault
  exist, since a read is always offered 32 bytes; and a failing second \<^verbatim>\<open>pipe\<close> leaves the first one open.
\<close>

definition drained :: "byte list outcome \<Rightarrow> bool" where
  "drained r = (case r of Done g \<Rightarrow> length g \<le> DRAIN_SIZE | Exited n \<Rightarrow> False | Faulted e \<Rightarrow> e = Out_Of_Bounds | Unfinished \<Rightarrow> True)"

lemma drain_fd_bound: "length got \<le> DRAIN_SIZE \<Longrightarrow> wp (drain_fd fuel fd got) (\<lambda>r v. drained r) w"
  by (induction fuel arbitrary: got w) (auto simp: k_defs drained_def)

lemma drain_events_bound: "length got \<le> DRAIN_SIZE \<Longrightarrow> wp (drain_events fuel evs got) (\<lambda>r v. drained r) w"
proof (induction evs arbitrary: got w)
  case (Cons ev evs)
  have "wp_cont (drain_events fuel evs) (\<lambda>r v. drained r) r v" if "drained r" for r v
    using that Cons.IH by (cases r) (simp_all add: drained_def)
  then show ?case unfolding drain_events.simps wp_bind by (rule wp_mono [OF drain_fd_bound [OF Cons.prems]])
qed (simp add: drained_def)

lemma drain_events_run:
  assumes "legal (drain_events fuel evs []) as w" and "exec (drain_events fuel evs []) as w = (r, w')"
  shows "drained r"
  using wp_sound [OF drain_events_bound [of "[]" fuel evs w] assms] by simp

definition ans_bytes :: "byte list \<Rightarrow> ans" where
  "ans_bytes bs = \<lparr>a_ret = int (length bs), a_err = 0, a_data = bs, a_evs = []\<rparr>"

definition ans_pipe :: "int \<Rightarrow> int \<Rightarrow> ans" where
  "ans_pipe x y = \<lparr>a_ret = 0, a_err = 0, a_data = [], a_evs = [(x, 0), (y, 0)]\<rparr>"

lemma drain_overflow:
  "\<exists>as. legal (drain_events 2 [(3, 1)] []) as world0 \<and> fst (exec (drain_events 2 [(3, 1)] []) as world0) = Faulted Out_Of_Bounds"
  by (rule exI [of _ "[ans_bytes (replicate 32 CHR ''x''), ans_ret 0, ans_bytes ''y'']"])
    (simp add: ans_bytes_def ans_ret_def k_defs eval_nat_numeral)

lemma demo_epoll_leaks:
  "\<exists>as. legal (demo_epoll fuel) as world0 \<and> (case exec (demo_epoll fuel) as world0 of (r, w) \<Rightarrow> r = Done () \<and> w_fds w = {0, 1, 2, 3, 4})"
  by (rule exI [of _ "[ans_ret 0, ans_ret 0, ans_ret 0, ans_pipe 3 4, ans_ret 0, ans_ret (-1), ans_ret 0]"])
    (auto simp: demo_epoll_def banner_def Let_def ans_pipe_def ans_ret_def k_defs world0_def)

end
