(* ===== verification/Mains.thy ===== *)
theory Mains
  imports Udp_Echo Timers File_Io
begin

text \<open>
  The \<^verbatim>\<open>main\<close> functions that run the demos of a file one after the other: \<^verbatim>\<open>03_ipc/pipe_demo.c\<close>, \<^verbatim>\<open>03_ipc/mq_demo.c\<close>, \<^verbatim>\<open>06_file_io/fileio_demo.c\<close>,
  \<^verbatim>\<open>08_timers/timer_demo.c\<close>, \<^verbatim>\<open>15_gpio/gpio_demo.c\<close>, \<^verbatim>\<open>16_uart/uart_demo.c\<close>, beside \<^verbatim>\<open>process_main\<close> and \<^verbatim>\<open>udp_main\<close>. A demo that exits, faults
  or goes on for ever ends the program there. Fuel is handed to the loops that may run for ever.

  Shown: how many children each program that forks leaves, and that the programs on descriptors close what they open.
\<close>

section \<open>Programs\<close>

abbreviation after :: "'a prog \<Rightarrow> 'b prog \<Rightarrow> 'b prog" where
  "after p q \<equiv> bindp p (\<lambda>_. q)"

definition pipe_main :: "nat \<Rightarrow> int prog" where
  "pipe_main fuel =
     ignore (C_print ''=== Embedded Linux Demo: Pipes & FIFOs ==='')
       (after (demo_anon_pipe fuel) (after demo_named_pipe (ignore (C_print ''[DONE] Pipe demo complete.'') (Ret 0))))"

definition mq_main :: "int prog" where
  "mq_main =
     ignore (C_print ''=== Embedded Linux Demo: POSIX Message Queues ==='')
       (after demo_basic_mq (after demo_multiprocess_mq (ignore (C_print ''[DONE] MQ demo complete.'') (Ret 0))))"

definition fileio_main :: "nat \<Rightarrow> int prog" where
  "fileio_main fuel =
     ignore (C_print ''=== Embedded Linux Demo: File I/O & Multiplexing ==='')
       (after (demo_basic_fileio fileio_lines) (after demo_ioctl (after demo_select (after (demo_epoll fuel) (after (demo_sendfile 100)
         (after (demo_scatter_gather iov_buffers) (ignore (C_print ''[DONE] File I/O demo complete.'') (Ret 0))))))))"

definition timer_main :: "nat \<Rightarrow> int prog" where
  "timer_main fuel =
     ignore (C_print ''=== Embedded Linux Demo: Timers ==='')
       (after demo_clock_nanosleep (after (demo_setitimer fuel) (after (demo_posix_timer fuel) (after (demo_timerfd fuel)
         (ignore (C_print ''[DONE] Timer demo complete.'') (Ret 0))))))"

definition gpio_main :: "nat \<Rightarrow> int prog" where
  "gpio_main fuel = after demo_toggle_gpio (after watchdog_demo (after (demo_gpio_events fuel) (Ret 0)))"

definition uart_main :: "int prog" where
  "uart_main = after demo_uart_send_receive (Ret 0)"

section \<open>Children\<close>

lemma anon_pipe_leaves: "leaves 0 0 (demo_anon_pipe fuel)"
  unfolding demo_anon_pipe_def
  by (auto simp: leaves_pre_def anon_part_def intro!: leaves_banner leaves_if leaves_sys anon.fork_leaves)

lemma named_pipe_leaves: "leaves 0 0 demo_named_pipe"
  unfolding demo_named_pipe_def
  by (auto simp: leaves_pre_def fifo_part_def intro!: leaves_banner leaves_if leaves_sys fifo.fork_leaves)

lemma basic_mq_leaves: "leaves 0 0 demo_basic_mq"
  unfolding demo_basic_mq_def
  by (auto simp: leaves_pre_def mq_basic_part_def intro!: leaves_banner leaves_if leaves_sys mqb.fork_leaves)

lemma multiprocess_mq_leaves: "leaves 0 0 demo_multiprocess_mq"
  unfolding demo_multiprocess_mq_def
  by (auto simp: leaves_pre_def mq_multi_part_def intro!: leaves_banner leaves_sys mqm.fork_leaves)

lemma end_leaves: "leaves 0 0 (ignore (C_print m) (Ret n))"
  by (auto simp: leaves_pre_def intro!: leaves_sys)

lemma pipe_main_leaves: "leaves 0 0 (pipe_main fuel)"
  unfolding pipe_main_def
  by (intro leaves_sys) (auto simp: leaves_pre_def intro!: leaves_bind [OF anon_pipe_leaves] leaves_bind [OF named_pipe_leaves] end_leaves)

lemma mq_main_leaves: "leaves 0 0 mq_main"
  unfolding mq_main_def
  by (intro leaves_sys) (auto simp: leaves_pre_def intro!: leaves_bind [OF basic_mq_leaves] leaves_bind [OF multiprocess_mq_leaves] end_leaves)

lemma udp_main_leaves: "leaves 0 0 udp_main"
  unfolding udp_main_def
  by (auto simp: leaves_pre_def udp_part_def intro!: leaves_sys udp.fork_leaves)

section \<open>Descriptors\<close>

lemma clock_moves: "(\<And>ts. moves_fds F T (k ts)) \<Longrightarrow> moves_fds F T (clock_gettime c k)"
  unfolding clock_gettime_def by (rule moves_sys) (simp add: moves_simps)

lemma nanosleep_moves: "moves_fds F F demo_clock_nanosleep"
  unfolding demo_clock_nanosleep_def
  by (intro moves_banner clock_moves) (auto simp: moves_simps Let_def intro!: moves_rules clock_moves)

lemma pauses_move: "moves_fds F F (while_below_5 fuel pause_alarm c)" "moves_fds F F (while_below_5 fuel pause_posix c)"
  by (rule while_below_5_moves; auto simp: pause_alarm_def pause_posix_def moves_simps intro!: moves_rules)+

lemma setitimer_moves: "moves_fds F F (demo_setitimer fuel)"
  unfolding demo_setitimer_def
  by (auto simp: moves_simps intro!: moves_rules moves_bind [OF pauses_move(1)])

lemma posix_timer_moves: "moves_fds F F (demo_posix_timer fuel)"
  unfolding demo_posix_timer_def posix_wait_def
  by (auto simp: moves_simps intro!: moves_rules moves_bind [OF pauses_move(2)])

lemma timer_main_moves: "moves_fds F F (timer_main fuel)"
  unfolding timer_main_def
  by (intro moves_sys) (auto simp: moves_simps intro!: moves_bind [OF nanosleep_moves] moves_bind [OF setitimer_moves]
    moves_bind [OF posix_timer_moves] moves_bind [OF timerfd_balanced] moves_rules)

lemma gpio_main_moves: "moves_fds F F (gpio_main fuel)"
  unfolding gpio_main_def
  by (intro moves_bind [OF toggle_balanced] moves_bind [OF watchdog_balanced] moves_bind [OF gpio_events_moves] moves_Ret)

lemma uart_main_moves: "moves_fds F F uart_main"
  unfolding uart_main_def by (intro moves_bind [OF uart_balanced] moves_Ret)

section \<open>Properties\<close>

text \<open>
  C30. The \<^verbatim>\<open>main\<close> functions that fork, for every legal run in which waiting succeeds, started without children: when the pipe, the message
  queue or the UDP program returns it has waited for every child; when the process demo returns at most two children have not been
  waited for (the zombie of \<^verbatim>\<open>demo_zombie\<close> and the child \<^verbatim>\<open>demo_waitpid_nohang\<close> stopped polling).
\<close>

theorem mains_children:
  assumes "(p, m) \<in> {(process_main, 2), (pipe_main fuel, 0), (mq_main, 0), (udp_main, 0)}"
    and "w_kids w = {}" and "legal p as w" and "answering waits_ok p as" and "exec p as w = (Done n, w')"
  shows "finite (w_kids w') \<and> card (w_kids w') \<le> m"
proof -
  have "leaves 0 m p" using assms(1) process_main_leaves pipe_main_leaves mq_main_leaves udp_main_leaves by auto
  then have "wp_if waits_ok p (\<lambda>r v. \<forall>x. r = Done x \<longrightarrow> kids_le m v) w" using assms(2) by (simp add: leaves_def kids_le_def)
  from wp_if_sound [OF this assms(3-5)] show ?thesis by (simp add: kids_le_def)
qed

theorem mains_children_witness:
  "\<exists>as w'. exec process_main as world0 = (Done 0, w') \<and> card (w_kids w') \<le> 2"
proof -
  let ?as = "map ans_pid [0, 0, 0, 0, 0, 0, 0, 0, 77, 0, 0, 77, 0, 0, 0, 0, -1, 0, 0, 0, 0, 0, 0, 3, -1, 0, 0, 0, 0, 0, -1, 0, 0, 0, 0, 0, 78, 0, 0, -1, 78, 0]"
  note defs = process_main_def process_orphan_def process_end_def banner_def demo_fork_wait_def fork_wait_part_def fork_wait_parent_def demo_exec_def exec_part_def demo_vfork_def
    demo_waitpid_nohang_def demo_zombie_def fork_demo_def ans_pid_def
  have "fst (exec process_main ?as world0) = Done 0" by (simp add: defs Let_def)
  then obtain w' where run: "exec process_main ?as world0 = (Done 0, w')" by (metis prod.collapse)
  have "w_kids world0 = {}" "legal process_main ?as world0" "answering waits_ok process_main ?as"
    by (simp_all add: defs Let_def k_defs world0_def)
  from mains_children [OF _ this run, of 2] run show ?thesis by blast
qed

end
