(* ===== verification/Net_Demos.thy ===== *)
theory Net_Demos
  imports Process_Net Udp_Echo
begin

text \<open>
  The two processes of an IPC demo running at the same time: producer and consumer over a POSIX message queue
  (\<^verbatim>\<open>03_ipc/mq_demo.c\<close>), client and server over datagram sockets
  (\<^verbatim>\<open>07_networking/udp_demo.c\<close>). Process 0 is the parent, process 1 the child. The kernels below are the documented behaviour of the
  calls, blocking included; each process has its own standard output.

  Shown: each demo settles. Whatever the scheduler does, every run ends, neither process is left blocked, and the
  printed lines are always the same.
\<close>

section \<open>Producer and consumer over a message queue\<close>

text \<open>
  All messages have priority 5, so the queue is first in, first out. Both processes open it with the attributes \<^verbatim>\<open>make_attr(0)\<close>: it holds
  \<^verbatim>\<open>mq_maxmsg\<close> messages, and as no flag is set sending to a full one blocks, and so does receiving from an empty one. Removing the name of a queue that nobody has open discards
  what is in it.
\<close>

record mqn =
  n_linked :: bool
  n_queue :: "byte list list"
  n_out :: "nat \<Rightarrow> string list"
  n_gone :: "nat set"

definition mq_again :: ans where
  "mq_again = \<lparr>a_ret = -1, a_err = EAGAIN, a_data = [], a_evs = []\<rparr>"

lemma make_attr_0 [simp]: "mq_flags (make_attr 0) = 0" "mq_maxmsg (make_attr 0) = MAX_MSGS"
  by (simp_all add: make_attr_def)

definition mq_kern :: "(nat \<Rightarrow> int) \<Rightarrow> nat \<Rightarrow> mqn \<Rightarrow> call \<Rightarrow> (ans \<times> mqn) option" where
  "mq_kern pids i s c =
     (case c of
        C_newfd name \<Rightarrow> Some (answer 3, s\<lparr>n_linked := True\<rparr>)
      | C_recv mq n \<Rightarrow>
          (case n_queue s of
             [] \<Rightarrow> if mq_flags (make_attr 0) = 0 then None else Some (mq_again, s)
           | m # ms \<Rightarrow> Some (\<lparr>a_ret = int (length m), a_err = 0, a_data = m, a_evs = [(0, 5)]\<rparr>, s\<lparr>n_queue := ms\<rparr>))
      | C_send mq bs \<Rightarrow> if length (n_queue s) < mq_maxmsg (make_attr 0) then Some (answer 0, s\<lparr>n_queue := n_queue s @ [bs]\<rparr>)
                        else if mq_flags (make_attr 0) = 0 then None else Some (mq_again, s)
      | C_print m \<Rightarrow> Some (answer 0, s\<lparr>n_out := says i [m] (n_out s)\<rparr>)
      | C_misc m \<Rightarrow> Some (answer (pids i), s)
      | C_wait \<Rightarrow> if {0, 1} - {i} \<subseteq> n_gone s then Some (answer (pids 1), s) else None
      | C_unlink name \<Rightarrow> Some (answer 0, s\<lparr>n_linked := False, n_queue := []\<rparr>)
      | _ \<Rightarrow> Some (answer 0, s))"

definition mq_ends :: "nat \<Rightarrow> mqn \<Rightarrow> mqn" where
  "mq_ends i s = s\<lparr>n_gone := insert i (n_gone s)\<rparr>"

text \<open>The calls of the two processes before the producer waits.\<close>

fun mq_calls :: "nat \<Rightarrow> call \<Rightarrow> bool" where
  "mq_calls i (C_newfd name) = True"
| "mq_calls i (C_recv mq n) = (i = 1)"
| "mq_calls i (C_send mq bs) = (i = 0)"
| "mq_calls i (C_print m) = True"
| "mq_calls i (C_misc m) = True"
| "mq_calls i (C_close fd) = True"
| "mq_calls i c = False"

fun_cases mq_calls_elim: "mq_calls i c"

lemma mq_kern_commute:
  assumes "i \<noteq> j" and "mq_calls i c" and "mq_calls j d" and "mq_kern pids i s c = Some (a, s1)" and "mq_kern pids j s d = Some (b, s2)"
  shows "\<exists>s3. mq_kern pids j s1 d = Some (b, s3) \<and> mq_kern pids i s2 c = Some (a, s3)"
  using assms(2,3)
  by (elim mq_calls_elim) (use assms(1,4,5) in \<open>auto simp: mq_kern_def says_commute [of i j] split: list.splits if_splits\<close>)

interpretation mqn: process_net "mq_kern pids" mq_ends n_gone mq_calls "\<lambda>i c. c = C_wait" 2 for pids
proof (unfold_locales, goal_cases)
  case (1 i s c a s')
  then show ?case by (cases c) (auto simp: mq_kern_def split: list.splits if_splits)
next
  case (3 i c s a s')
  then show ?case by (auto simp: mq_kern_def lessThan_nat_numeral lessThan_Suc split: if_splits)
next
  case (4 i j c d s a s1 b s2)
  then show ?case using mq_kern_commute by blast
next
  case (5 i j c s a s1)
  then show ?case by (cases c) (auto simp: mq_kern_def mq_ends_def split: list.splits if_splits)
qed (auto simp: mq_ends_def insert_commute)

lemma mq_kern_simps [simp]:
  "mq_kern pids i s (C_newfd name) = Some (answer 3, s\<lparr>n_linked := True\<rparr>)"
  "mq_kern pids i s (C_print m) = Some (answer 0, s\<lparr>n_out := says i [m] (n_out s)\<rparr>)"
  "mq_kern pids i s (C_misc m) = Some (answer (pids i), s)"
  "mq_kern pids i s (C_close fd) = Some (answer 0, s)"
  "length (n_queue s) < MAX_MSGS \<Longrightarrow> mq_kern pids i s (C_send mq bs) = Some (answer 0, s\<lparr>n_queue := n_queue s @ [bs]\<rparr>)"
  "n_queue s = m # ms \<Longrightarrow> mq_kern pids i s (C_recv mq n) =
     Some (\<lparr>a_ret = int (length m), a_err = 0, a_data = m, a_evs = [(0, 5)]\<rparr>, s\<lparr>n_queue := ms\<rparr>)"
  "{0, 1} - {i} \<subseteq> n_gone s \<Longrightarrow> mq_kern pids i s C_wait = Some (answer (pids 1), s)"
  "mq_kern pids i s (C_unlink name) = Some (answer 0, s\<lparr>n_linked := False, n_queue := []\<rparr>)"
  by (simp_all add: mq_kern_def)

definition sent_line :: "int \<Rightarrow> nat \<Rightarrow> string" where
  "sent_line me i = ''[PRODUCER] sent: '' @ quoted (mq_text me i)"

lemma mq_send_alone:
  assumes "length (n_queue s) + length is \<le> MAX_MSGS"
    and "alone (mq_kern pids) mq_ends 0 (s\<lparr>n_queue := n_queue s @ map (\<lambda>i. mq_text (pids 0) i @ [NUL]) is,
        n_out := says 0 (map (sent_line (pids 0)) is) (n_out s)\<rparr>, Live p) y"
  shows "alone (mq_kern pids) mq_ends 0 (s, Live (mq_send_loop mq is p)) y"
  using assms
proof (induction "is" arbitrary: s)
  case (Cons i "is")
  let ?s = "s\<lparr>n_queue := n_queue s @ [mq_text (pids 0) i @ [NUL]], n_out := says 0 [sent_line (pids 0) i] (n_out s)\<rparr>"
  have "alone (mq_kern pids) mq_ends 0 (?s, Live (mq_send_loop mq is p)) y" using Cons.IH [of ?s] Cons.prems by simp
  then show ?case using Cons.prems(1)
    by (auto simp: Let_def mq_text_snprintf sent_line_def intro!: alone_call)
qed simp

lemma mq_receive_alone:
  assumes "n_queue s = ms @ rest" and "length ms = n" and "list_all (\<lambda>m. NUL \<in> set m) ms"
    and "alone (mq_kern pids) mq_ends 1 (s\<lparr>n_queue := rest, n_out := says 1 (map (\<lambda>m. fmt 5 (cstr m)) ms) (n_out s)\<rparr>, Live p) y"
  shows "alone (mq_kern pids) mq_ends 1 (s, Live (mq_receive_loop fmt mq n buf p)) y"
  using assms
proof (induction ms arbitrary: s buf n)
  case (Cons m ms)
  let ?s = "s\<lparr>n_queue := ms @ rest, n_out := says 1 [fmt 5 (cstr m)] (n_out s)\<rparr>" and ?b = "put_at buf 0 (map Some m)"
  have "alone (mq_kern pids) mq_ends 1 (?s, Live (mq_receive_loop fmt mq (length ms) ?b p)) y"
    using Cons.IH [of ?s "length ms" ?b] Cons.prems by simp
  moreover have "0 < length m" using Cons.prems(3) by auto
  moreover have n: "n = Suc (length ms)" using Cons.prems(2) by simp
  ultimately show ?case using Cons.prems(1,3) unfolding n
    by (auto simp: Let_def put_at_def cstr_init_put intro!: alone_call)
qed auto

text \<open>What each process does before it waits is among its calls.\<close>

lemma calls_send_loop: "calls_until W (mq_calls 0) p \<Longrightarrow> calls_until W (mq_calls 0) (mq_send_loop mq is p)"
  by (induction "is") (simp_all add: Let_def)

lemma calls_receive_loop: "calls_until W (mq_calls 1) p \<Longrightarrow> calls_until W (mq_calls 1) (mq_receive_loop fmt mq n buf p)"
  by (induction n arbitrary: buf) (simp_all add: Let_def split: sum.splits)

definition mq_start :: mqn where
  "mq_start = \<lparr>n_linked = False, n_queue = [], n_out = (\<lambda>_. []), n_gone = {}\<rparr>"

definition mq_result :: "int \<Rightarrow> mqn" where
  "mq_result me = \<lparr>n_linked = False, n_queue = [],
     n_out = says 1 (map (\<lambda>i. ''[CONSUMER] received: '' @ quoted (mq_text me i)) [0..<N_MSGS])
       (says 0 (map (sent_line me) [0..<N_MSGS]) (\<lambda>_. [])),
     n_gone = {0, 1}\<rparr>"

lemma mq_start_inv: "mqn.net_inv mq_start [Live (mq_parent (pids 1)), Live mq_child]"
proof -
  have "mqn.tame 0 mq_start (Live (mq_parent (pids 1)))"
    by (simp add: mqn.tame_def mq_start_def mq_parent_def calls_send_loop del: mq_send_loop.simps upt_rec_numeral)
  moreover have "mqn.tame 1 mq_start (Live mq_child)"
    by (simp add: mqn.tame_def mq_start_def mq_child_def calls_receive_loop [unfolded One_nat_def] del: mq_receive_loop.simps)
  ultimately show ?thesis by (simp add: mqn.net_inv_def less_2_cases_iff nth_Cons')
qed

text \<open>One run: the producer sends everything, the consumer receives everything, the producer waits and removes the queue.\<close>

lemma mq_one_run:
  "(pool_step (net_step (mq_kern pids) mq_ends))\<^sup>*\<^sup>* (mq_start, [Live (mq_parent (pids 1)), Live mq_child])
     (mq_result (pids 0), [Dead (Done ()), Dead (Exited 0)])"
proof -
  let ?step = "pool_step (net_step (mq_kern pids) mq_ends)" and ?ms = "map (\<lambda>i. mq_text (pids 0) i @ [NUL]) [0..<N_MSGS]"
  let ?last = "ignore C_wait (ignore (C_unlink ''/demo_mq'') (Ret ()))"
  let ?s = "mq_start\<lparr>n_linked := True, n_queue := ?ms, n_out := says 0 (map (sent_line (pids 0)) [0..<N_MSGS]) (n_out mq_start)\<rparr>"
  let ?t = "?s\<lparr>n_queue := [], n_out := says 1 (map (\<lambda>m. consumer_line 5 (cstr m)) ?ms) (n_out ?s), n_gone := {1}\<rparr>"
  have "alone (mq_kern pids) mq_ends 0 (mq_start, Live (mq_parent (pids 1))) (?s, Live ?last)"
    unfolding mq_parent_def
  proof (rule alone_call, rule mq_kern_simps(3), rule alone_call, rule mq_kern_simps(1), simp del: mq_send_loop.simps upt_rec_numeral,
      rule mq_send_alone, goal_cases)
    case 2
    show ?case by (rule alone_call, rule mq_kern_simps(4)) (simp add: mq_start_def del: upt_rec_numeral)
  qed (simp add: mq_start_def MAX_MSGS_def)
  then have 1: "?step\<^sup>*\<^sup>* (mq_start, [Live (mq_parent (pids 1)), Live mq_child]) (?s, [Live ?last, Live mq_child])"
    by (rule alone_parent)
  have "alone (mq_kern pids) mq_ends 1 (?s, Live mq_child) (?t, Dead (Exited 0))"
    unfolding mq_child_def
  proof (rule alone_call, rule mq_kern_simps(1), simp del: mq_receive_loop.simps upt_rec_numeral, goal_cases)
    case 1
    show ?case
    proof (rule mq_receive_alone [of _ ?ms "[]", unfolded One_nat_def], goal_cases)
      case 4
      show ?case
        by (rule alone_call, rule mq_kern_simps(4), rule alone_exit) (simp add: mq_start_def mq_ends_def del: upt_rec_numeral)
    qed (simp_all add: mq_start_def list_all_iff del: upt_rec_numeral)
  qed
  then have 2: "?step\<^sup>*\<^sup>* (?s, [Live ?last, Live mq_child]) (?t, [Live ?last, Dead (Exited 0)])"
    by (rule alone_child)
  have "alone (mq_kern pids) mq_ends 0 (?t, Live ?last) (mq_result (pids 0), Dead (Done ()))"
  proof (rule alone_call, rule mq_kern_simps(7), goal_cases)
    case 2
    show ?case
      by (rule alone_call, rule mq_kern_simps(8), rule alone_return)
        (simp add: mq_start_def mq_ends_def mq_result_def consumer_line_def comp_def cstr_text del: upt_rec_numeral)
  qed simp
  then have 3: "?step\<^sup>*\<^sup>* (?t, [Live ?last, Dead (Exited 0)]) (mq_result (pids 0), [Dead (Done ()), Dead (Exited 0)])"
    by (rule alone_parent)
  show ?thesis by (rule rtranclp_trans [OF rtranclp_trans [OF 1 2] 3])
qed


section \<open>Client and server over datagram sockets\<close>

text \<open>
  Each socket has a queue of datagrams that arrived; receiving from an empty one blocks. The loopback interface keeps datagrams
  whole, in order, and loses none. The server's socket is bound before the client exists.
\<close>

record udpn =
  u_in :: "nat \<Rightarrow> byte list list"
  u_out :: "nat \<Rightarrow> string list"
  u_gone :: "nat set"

definition peer :: "nat \<Rightarrow> nat" where
  "peer i = (if i = 0 then 1 else 0)"

text \<open>Both sockets are on 127.0.0.1, the server's has port 9090 and the client's the port \<open>cport\<close> the kernel chose.\<close>

definition sender_port :: "nat \<Rightarrow> nat \<Rightarrow> nat" where
  "sender_port cport i = (if i = 0 then cport else 9090)"

definition udp_kern :: "(nat \<Rightarrow> int) \<Rightarrow> nat \<Rightarrow> nat \<Rightarrow> udpn \<Rightarrow> call \<Rightarrow> (ans \<times> udpn) option" where
  "udp_kern pids cport i s c =
     (case c of
        C_recv fd n \<Rightarrow>
          (case u_in s i of
             [] \<Rightarrow> None
           | d # ds \<Rightarrow> Some (\<lparr>a_ret = int (length (take n d)), a_err = 0, a_data = take n d, a_evs = [(0x7F000001, sender_port cport i)]\<rparr>,
                           s\<lparr>u_in := (u_in s)(i := ds)\<rparr>))
      | C_send fd bs \<Rightarrow> Some (answer (int (length bs)), s\<lparr>u_in := (u_in s)(peer i := u_in s (peer i) @ [bs])\<rparr>)
      | C_print m \<Rightarrow> Some (answer 0, s\<lparr>u_out := says i [m] (u_out s)\<rparr>)
      | C_misc m \<Rightarrow> Some (answer (pids i), s)
      | C_socket \<Rightarrow> Some (answer 4, s)
      | C_waitpid p \<Rightarrow> if {0, 1} - {i} \<subseteq> u_gone s then Some (answer p, s) else None
      | _ \<Rightarrow> Some (answer 0, s))"

definition udp_ends :: "nat \<Rightarrow> udpn \<Rightarrow> udpn" where
  "udp_ends i s = s\<lparr>u_gone := insert i (u_gone s)\<rparr>"

fun udp_calls :: "call \<Rightarrow> bool" where
  "udp_calls (C_recv fd n) = True"
| "udp_calls (C_send fd bs) = True"
| "udp_calls (C_print m) = True"
| "udp_calls (C_misc m) = True"
| "udp_calls C_socket = True"
| "udp_calls (C_connect fd) = True"
| "udp_calls (C_close fd) = True"
| "udp_calls c = False"

fun_cases udp_calls_elim: "udp_calls c"

lemma udp_kern_commute:
  assumes "i < 2" and "j < 2" and "i \<noteq> j" and "udp_calls c" and "udp_calls d" and "udp_kern pids cport i s c = Some (a, s1)"
    and "udp_kern pids cport j s d = Some (b, s2)"
  shows "\<exists>s3. udp_kern pids cport j s1 d = Some (b, s3) \<and> udp_kern pids cport i s2 c = Some (a, s3)"
proof -
  have ij: "peer i = j" "peer j = i" using assms(1-3) by (auto simp: peer_def)
  show ?thesis using assms(4,5)
    by (elim udp_calls_elim)
      (use assms(3,6,7) in \<open>clarsimp simp: udp_kern_def ij says_commute [of i j] fun_upd_twist [of i j] split: list.split_asm\<close>)+
qed

interpretation udpn: process_net "udp_kern pids cport" udp_ends u_gone "\<lambda>i. udp_calls" "\<lambda>i c. \<exists>p. c = C_waitpid p" 2 for pids cport
proof (unfold_locales, goal_cases)
  case (1 i s c a s')
  then show ?case by (cases c) (auto simp: udp_kern_def split: list.splits if_splits)
next
  case (3 i c s a s')
  then show ?case by (auto simp: udp_kern_def lessThan_nat_numeral lessThan_Suc split: if_splits)
next
  case (4 i j c d s a s1 b s2)
  then show ?case using udp_kern_commute by blast
next
  case (5 i j c s a s1)
  then show ?case by (cases c) (auto simp: udp_kern_def udp_ends_def split: list.splits if_splits)
qed (auto simp: udp_ends_def insert_commute)

lemma udp_kern_simps:
  "udp_kern pids cport i s (C_print m) = Some (answer 0, s\<lparr>u_out := says i [m] (u_out s)\<rparr>)"
  "udp_kern pids cport i s (C_misc m) = Some (answer (pids i), s)"
  "udp_kern pids cport i s C_socket = Some (answer 4, s)"
  "udp_kern pids cport i s (C_connect fd) = Some (answer 0, s)"
  "udp_kern pids cport i s (C_close fd) = Some (answer 0, s)"
  "udp_kern pids cport i s (C_send fd bs) = Some (answer (int (length bs)), s\<lparr>u_in := (u_in s)(peer i := u_in s (peer i) @ [bs])\<rparr>)"
  "u_in s i = d # ds \<Longrightarrow> udp_kern pids cport i s (C_recv fd n) =
     Some (\<lparr>a_ret = int (length (take n d)), a_err = 0, a_data = take n d, a_evs = [(0x7F000001, sender_port cport i)]\<rparr>,
       s\<lparr>u_in := (u_in s)(i := ds)\<rparr>)"
  "{0, 1} - {i} \<subseteq> u_gone s \<Longrightarrow> udp_kern pids cport i s (C_waitpid p) = Some (answer p, s)"
  by (simp_all add: udp_kern_def)

lemma calls_udp_client_loop: "calls_until W udp_calls p \<Longrightarrow> calls_until W udp_calls (udp_client_loop cfd is p)"
  by (induction "is") (simp_all add: Let_def at_index_def)

lemma calls_udp_server_loop: "calls_until W udp_calls p \<Longrightarrow> calls_until W udp_calls (udp_server_loop srv n p)"
  by (induction n) (simp_all add: at_index_def)

definition udp_start :: udpn where
  "udp_start = \<lparr>u_in = (\<lambda>_. []), u_out = (\<lambda>_. []), u_gone = {}\<rparr>"

lemma udp_start_inv: "udpn.net_inv udp_start [Live (udp_server srv pid), Live (udp_client srv)]"
proof -
  have "udpn.tame 0 udp_start (Live (udp_server srv pid))"
    by (simp add: udpn.tame_def udp_start_def udp_server_def calls_udp_server_loop del: udp_server_loop.simps)
  moreover have "udpn.tame 1 udp_start (Live (udp_client srv))"
    by (simp add: udpn.tame_def udp_start_def udp_client_def calls_udp_client_loop del: udp_client_loop.simps upt_rec_numeral)
  ultimately show ?thesis by (simp add: udpn.net_inv_def less_2_cases_iff nth_Cons')
qed

text \<open>One message: the client sends it, the server prints it and sends it back, the client prints the echo.\<close>

definition client_lines :: "int \<Rightarrow> nat \<Rightarrow> string list" where
  "client_lines me i = [''[CLIENT] sent: '' @ quoted (udp_text me i), ''[CLIENT] got echo: '' @ quoted (udp_text me i)]"

definition server_line :: "nat \<Rightarrow> int \<Rightarrow> nat \<Rightarrow> string" where
  "server_line cport me i = ''[SERVER] from 127.0.0.1:'' @ dec_nat cport @ '': '' @ quoted (udp_text me i)"

lemma client_seen: "peer_text \<lparr>a_ret = r, a_err = e, a_data = d, a_evs = [(0x7F000001, sender_port cport 0)]\<rparr> = ''127.0.0.1:'' @ dec_nat cport"
  by (simp add: peer_text_def localhost sender_port_def)

abbreviation udp_steps :: "(nat \<Rightarrow> int) \<Rightarrow> nat \<Rightarrow> udpn \<times> int pst list \<Rightarrow> udpn \<times> int pst list \<Rightarrow> bool" where
  "udp_steps pids cport \<equiv> (pool_step (net_step (udp_kern pids cport) udp_ends))\<^sup>*\<^sup>*"

lemma udp_round:
  assumes "u_in s = (\<lambda>_. [])" and "length (udp_text (pids 1) i) < BUF_SZ - 1"
  shows "udp_steps pids cport (s, [Live (udp_server_loop srv (Suc n) p), Live (udp_client_loop cfd (i # is) q)])
    (s\<lparr>u_out := says 1 (client_lines (pids 1) i) (says 0 [server_line cport (pids 1) i] (u_out s))\<rparr>,
     [Live (udp_server_loop srv n p), Live (udp_client_loop cfd is q)])"
proof -
  define me where "me = pids 1"
  have me: "pids (Suc 0) = me" and short: "length (udp_text me i) < BUF_SZ - 1" using assms(2) by (simp_all add: me_def)
  let ?m = "udp_text me i"
  have txt_eq: "cstr (snprintf_bytes BUF_SZ ?m) = ?m" using short by (simp add: cstr_snprintf udp_text_no_NUL)
  have echo_eq: "cstr (?m @ [NUL, NUL]) = ?m" using cstr_no_NUL [OF udp_text_no_NUL, of me i "[NUL]"] by simp
  have nil: "(\<lambda>_ :: nat. [])(j := []) = (\<lambda>_. [] :: byte list list)" for j by auto
  let ?wait = "Sys (C_recv cfd (BUF_SZ - 1)) (\<lambda>r.
     if 0 < a_ret r
     then at_index BUF_SZ (a_ret r) (ignore (C_print (''[CLIENT] got echo: '' @ quoted (cstr (a_data r @ [NUL]))))
            (ignore (C_misc ''usleep'') (udp_client_loop cfd is q)))
     else ignore (C_misc ''usleep'') (udp_client_loop cfd is q))"
  let ?s1 = "s\<lparr>u_in := (\<lambda>_. [])(0 := [?m @ [NUL]]), u_out := says 1 [''[CLIENT] sent: '' @ quoted ?m] (u_out s)\<rparr>"
  let ?s2 = "s\<lparr>u_in := (\<lambda>_. [])(1 := [?m @ [NUL]]), u_out := says 0 [server_line cport me i] (u_out ?s1)\<rparr>"
  let ?s3 = "s\<lparr>u_in := (\<lambda>_. []), u_out := says 1 (client_lines me i) (says 0 [server_line cport me i] (u_out s))\<rparr>"
  have "solo (udp_kern pids cport) udp_ends 1 3 s (Live (udp_client_loop cfd (i # is) q)) = Some (?s1, Live ?wait)"
    using assms(1) by (simp add: me Let_def txt_eq udp_kern_simps peer_def)
  then have 1: "udp_steps pids cport (s, [Live (udp_server_loop srv (Suc n) p), Live (udp_client_loop cfd (i # is) q)])
      (?s1, [Live (udp_server_loop srv (Suc n) p), Live ?wait])"
    by (rule solo_child)
  have "solo (udp_kern pids cport) udp_ends 0 3 ?s1 (Live (udp_server_loop srv (Suc n) p)) = Some (?s2, Live (udp_server_loop srv n p))"
    using short by (cases s) (simp add: me at_index_def udp_kern_simps peer_def echo_eq server_line_def client_seen nil)
  then have 2: "udp_steps pids cport (?s1, [Live (udp_server_loop srv (Suc n) p), Live ?wait]) (?s2, [Live (udp_server_loop srv n p), Live ?wait])"
    by (rule solo_parent)
  have "solo (udp_kern pids cport) udp_ends 1 3 ?s2 (Live ?wait) = Some (?s3, Live (udp_client_loop cfd is q))"
    using short by (cases s) (simp add: me at_index_def udp_kern_simps peer_def echo_eq client_lines_def nil says_commute [of 0 "Suc 0"])
  then have 3: "udp_steps pids cport (?s2, [Live (udp_server_loop srv n p), Live ?wait]) (?s3, [Live (udp_server_loop srv n p), Live (udp_client_loop cfd is q)])"
    by (rule solo_child)
  have "?s3 = s\<lparr>u_out := says 1 (client_lines me i) (says 0 [server_line cport me i] (u_out s))\<rparr>"
    using assms(1) by (cases s) simp
  then show ?thesis using rtranclp_trans [OF rtranclp_trans [OF 1 2] 3] unfolding me_def by (simp only:)
qed

lemma udp_rounds:
  assumes "u_in s = (\<lambda>_. [])" and "list_all (\<lambda>i. length (udp_text (pids 1) i) < BUF_SZ - 1) is"
  shows "udp_steps pids cport (s, [Live (udp_server_loop srv (length is) p), Live (udp_client_loop cfd is q)])
    (s\<lparr>u_out := says 1 (concat (map (client_lines (pids 1)) is)) (says 0 (map (server_line cport (pids 1)) is) (u_out s))\<rparr>, [Live p, Live q])"
  using assms
proof (induction "is" arbitrary: s)
  case (Cons i "is")
  let ?s = "s\<lparr>u_out := says 1 (client_lines (pids 1) i) (says 0 [server_line cport (pids 1) i] (u_out s))\<rparr>"
  let ?t = "?s\<lparr>u_out := says 1 (concat (map (client_lines (pids 1)) is)) (says 0 (map (server_line cport (pids 1)) is) (u_out ?s))\<rparr>"
  have 1: "udp_steps pids cport (s, [Live (udp_server_loop srv (length (i # is)) p), Live (udp_client_loop cfd (i # is) q)])
      (?s, [Live (udp_server_loop srv (length is) p), Live (udp_client_loop cfd is q)])"
    using udp_round [OF Cons.prems(1), of pids i cport srv "length is" p cfd "is" q] Cons.prems(2) by simp
  have 2: "udp_steps pids cport (?s, [Live (udp_server_loop srv (length is) p), Live (udp_client_loop cfd is q)]) (?t, [Live p, Live q])"
    using Cons.IH [of ?s] Cons.prems by simp
  have "?t = s\<lparr>u_out := says 1 (concat (map (client_lines (pids 1)) (i # is))) (says 0 (map (server_line cport (pids 1)) (i # is)) (u_out s))\<rparr>"
    by (simp add: says_commute [of 0 "Suc 0"])
  then show ?case using rtranclp_trans [OF 1 2] by (simp only:)
qed simp

definition udp_result :: "nat \<Rightarrow> int \<Rightarrow> udpn" where
  "udp_result cport me = \<lparr>u_in = (\<lambda>_. []),
     u_out = says 1 (''[CLIENT] UDP connected to 127.0.0.1:9090'' # concat (map (client_lines me) [0..<N_MSGS]))
       (says 0 (map (server_line cport me) [0..<N_MSGS] @ [''[DONE] UDP demo complete.'']) (\<lambda>_. [])),
     u_gone = {0, 1}\<rparr>"

lemma udp_text_short: "0 \<le> me \<Longrightarrow> me < 10 ^ 10 \<Longrightarrow> i < 10 ^ 10 \<Longrightarrow> length (udp_text me i) < BUF_SZ - 1"
  using dec_int_length [of me] dec_nat_length [of i 9] by (simp add: udp_text_def)

lemma udp_one_run:
  assumes "0 \<le> pids 1" and "pids 1 < 10 ^ 10"
  shows "udp_steps pids cport (udp_start, [Live (udp_server srv (pids 1)), Live (udp_client srv)])
    (udp_result cport (pids 1), [Dead (Done 0), Dead (Exited 0)])"
proof -
  let ?is = "[0..<N_MSGS]" and ?hello = "''[CLIENT] UDP connected to 127.0.0.1:9090''"
  let ?last = "ignore (C_waitpid (pids 1)) (ignore (C_close srv) (ignore (C_print ''[DONE] UDP demo complete.'') (Ret 0)))"
  let ?bye = "ignore (C_close 4) (Exit 0)"
  let ?s = "udp_start\<lparr>u_out := says 1 [?hello] (u_out udp_start)\<rparr>"
  let ?t = "?s\<lparr>u_out := says 1 (concat (map (client_lines (pids 1)) ?is)) (says 0 (map (server_line cport (pids 1)) ?is) (u_out ?s))\<rparr>"
  have "solo (udp_kern pids cport) udp_ends 1 6 udp_start (Live (udp_client srv)) = Some (?s, Live (udp_client_loop 4 ?is ?bye))"
    by (simp add: udp_client_def udp_kern_simps del: udp_client_loop.simps upt_rec_numeral)
  then have 1: "udp_steps pids cport (udp_start, [Live (udp_server srv (pids 1)), Live (udp_client srv)])
      (?s, [Live (udp_server srv (pids 1)), Live (udp_client_loop 4 ?is ?bye)])" by (rule solo_child)
  have "list_all (\<lambda>i. length (udp_text (pids 1) i) < BUF_SZ - 1) ?is" using udp_text_short [OF assms] by (simp add: list_all_iff)
  then have 2: "udp_steps pids cport (?s, [Live (udp_server srv (pids 1)), Live (udp_client_loop 4 ?is ?bye)]) (?t, [Live ?last, Live ?bye])"
    using udp_rounds [of ?s pids ?is cport srv ?last 4 ?bye] unfolding udp_server_def
    by (simp add: udp_start_def del: udp_client_loop.simps udp_server_loop.simps upt_rec_numeral)
  have "solo (udp_kern pids cport) udp_ends 1 2 ?t (Live ?bye) = Some (udp_ends 1 ?t, Dead (Exited 0))" by (simp add: udp_kern_simps)
  then have 3: "udp_steps pids cport (?t, [Live ?last, Live ?bye]) (udp_ends 1 ?t, [Live ?last, Dead (Exited 0)])" by (rule solo_child)
  have "solo (udp_kern pids cport) udp_ends 0 4 (udp_ends 1 ?t) (Live ?last) = Some (udp_result cport (pids 1), Dead (Done 0))"
    by (simp add: udp_kern_simps udp_start_def udp_ends_def udp_result_def says_commute [of 0 "Suc 0"] del: upt_rec_numeral)
  then have 4: "udp_steps pids cport (udp_ends 1 ?t, [Live ?last, Dead (Exited 0)]) (udp_result cport (pids 1), [Dead (Done 0), Dead (Exited 0)])"
    by (rule solo_parent)
  show ?thesis by (rule rtranclp_trans [OF rtranclp_trans [OF 1 2] rtranclp_trans [OF 3 4]])
qed



end
