(* ===== verification/Pipe_Net.thy ===== *)
theory Pipe_Net
  imports Process_Net Ipc_Demos
begin

text \<open>
  Parent and child of \<^verbatim>\<open>demo_anon_pipe\<close> (\<^verbatim>\<open>03_ipc/pipe_demo.c\<close>) running at the same time over one pipe, process 0 the parent, process 1 the
  child. Shown: whatever the scheduler does, every run ends, the child receives exactly what the parent wrote and then the end
  of the file, and the parent collects it.
\<close>

section \<open>Parent and child over a pipe\<close>

text \<open>
  The kernel keeps the bytes in the pipe and which processes have its ends open. A read takes what is there, up to the size asked
  for; from an empty pipe it returns 0 when no write end is open and blocks otherwise. A write blocks while the bytes do not
  fit; a write to a pipe that nobody can read ends the process (\<^verbatim>\<open>SIGPIPE\<close>), so it is never answered. A process
  that ends closes its descriptors.
\<close>

definition PIPE_CAPACITY :: nat where "PIPE_CAPACITY = 65536"

record pipen =
  p_buf :: "byte list"
  p_rd :: "nat set"
  p_wr :: "nat set"
  p_out :: "nat \<Rightarrow> string list"
  p_gone :: "nat set"

definition pipe_kern :: "int \<Rightarrow> int \<Rightarrow> nat \<Rightarrow> pipen \<Rightarrow> call \<Rightarrow> (ans \<times> pipen) option" where
  "pipe_kern rd wr i s c =
     (case c of
        C_close fd \<Rightarrow>
          if fd = rd then Some (answer 0, s\<lparr>p_rd := p_rd s - {i}\<rparr>)
          else if fd = wr then Some (answer 0, s\<lparr>p_wr := p_wr s - {i}\<rparr>)
          else Some (answer 0, s)
      | C_read fd n \<Rightarrow>
          if i \<notin> p_rd s then Some (answer (-1), s)
          else if p_buf s \<noteq> []
          then Some (\<lparr>a_ret = int (length (take n (p_buf s))), a_err = 0, a_data = take n (p_buf s), a_evs = []\<rparr>, s\<lparr>p_buf := drop n (p_buf s)\<rparr>)
          else if p_wr s = {} then Some (answer 0, s)
          else None
      | C_write fd bs \<Rightarrow>
          if i \<notin> p_wr s then Some (answer (-1), s)
          else if p_rd s \<noteq> {} \<and> length (p_buf s) + length bs \<le> PIPE_CAPACITY
          then Some (answer (int (length bs)), s\<lparr>p_buf := p_buf s @ bs\<rparr>)
          else None
      | C_print m \<Rightarrow> Some (answer 0, s\<lparr>p_out := says i [m] (p_out s)\<rparr>)
      | C_waitpid p \<Rightarrow> if {0, 1} - {i} \<subseteq> p_gone s then Some (answer p, s) else None
      | _ \<Rightarrow> Some (answer 0, s))"

definition pipe_ends :: "nat \<Rightarrow> pipen \<Rightarrow> pipen" where
  "pipe_ends i s = s\<lparr>p_rd := p_rd s - {i}, p_wr := p_wr s - {i}, p_gone := insert i (p_gone s)\<rparr>"

fun pipe_calls :: "nat \<Rightarrow> call \<Rightarrow> bool" where
  "pipe_calls i (C_close fd) = True"
| "pipe_calls i (C_print m) = True"
| "pipe_calls i (C_read fd n) = (i = 1)"
| "pipe_calls i (C_write fd bs) = (i = 0)"
| "pipe_calls i (C_waitpid p) = (i = 0)"
| "pipe_calls i c = False"

lemma pipe_calls_cases:
  assumes "pipe_calls i c"
  obtains (Close) fd where "c = C_close fd"
  | (Print) m where "c = C_print m"
  | (Read) fd n where "c = C_read fd n" "i = 1"
  | (Write) fd bs where "c = C_write fd bs" "i = 0"
  | (Wait) p where "c = C_waitpid p" "i = 0"
  using assms by (cases c) simp_all

text \<open>
  Reading and writing a stream of bytes do not commute in general: how much a read returns depends on what was written before.
  Here the parent writes once, before it closes its end, and until then the child keeps its read end open and finds the pipe empty.
\<close>

definition is_write :: "call \<Rightarrow> bool" where
  "is_write c = (case c of C_write fd bs \<Rightarrow> True | _ \<Rightarrow> False)"

definition is_read :: "call \<Rightarrow> bool" where
  "is_read c = (case c of C_read fd n \<Rightarrow> True | _ \<Rightarrow> False)"

primrec no_write :: "'a prog \<Rightarrow> bool" where
  "no_write (Ret x) = True"
| "no_write (Exit n) = True"
| "no_write (Fault e) = True"
| "no_write More = True"
| "no_write (Sys c k) = (\<not> is_write c \<and> (\<forall>a. no_write (k a)))"

primrec one_write :: "int \<Rightarrow> 'a prog \<Rightarrow> bool" where
  "one_write wr (Ret x) = False"
| "one_write wr (Exit n) = False"
| "one_write wr (Fault e) = True"
| "one_write wr More = True"
| "one_write wr (Sys c k) = (if is_write c then \<forall>a. no_write (k a) else c \<noteq> C_close wr \<and> (\<forall>a. one_write wr (k a)))"

primrec early :: "int \<Rightarrow> 'a prog \<Rightarrow> bool" where
  "early rd (Ret x) = False"
| "early rd (Exit n) = False"
| "early rd (Fault e) = True"
| "early rd More = True"
| "early rd (Sys c k) = (is_read c \<or> (c \<noteq> C_close rd \<and> (\<forall>a. early rd (k a))))"

definition pipe_live :: "nat \<Rightarrow> pipen \<Rightarrow> 'a pst \<Rightarrow> bool" where
  "pipe_live i s l = (case l of Live p \<Rightarrow> i \<notin> p_gone s \<and> calls_until (\<lambda>c. False) (pipe_calls i) p | Dead r \<Rightarrow> True)"

definition pipe_phase :: "int \<Rightarrow> int \<Rightarrow> pipen \<Rightarrow> 'a pst \<Rightarrow> 'a pst \<Rightarrow> bool" where
  "pipe_phase rd wr s l m =
     (case l of
        Live p \<Rightarrow> no_write p \<or> (one_write wr p \<and> 0 \<in> p_wr s \<and> 1 \<in> p_rd s \<and> p_buf s = [] \<and> (\<exists>q. m = Live q \<and> early rd q))
      | Dead r \<Rightarrow> True)"

definition pipe_inv :: "int \<Rightarrow> int \<Rightarrow> pipen \<Rightarrow> 'a pst list \<Rightarrow> bool" where
  "pipe_inv rd wr s ls \<longleftrightarrow> rd \<noteq> wr \<and> (\<exists>l m. ls = [l, m] \<and> pipe_live 0 s l \<and> pipe_live 1 s m \<and> pipe_phase rd wr s l m)"

lemma pipe_kern_simps:
  "pipe_kern rd wr i s (C_close fd) = Some (answer 0, if fd = rd then s\<lparr>p_rd := p_rd s - {i}\<rparr> else if fd = wr then s\<lparr>p_wr := p_wr s - {i}\<rparr> else s)"
  "pipe_kern rd wr i s (C_print m) = Some (answer 0, s\<lparr>p_out := says i [m] (p_out s)\<rparr>)"
  "pipe_kern rd wr i s (C_waitpid p) = (if {0, 1} - {i} \<subseteq> p_gone s then Some (answer p, s) else None)"
  "pipe_kern rd wr i s (C_write fd bs) =
     (if i \<notin> p_wr s then Some (answer (-1), s)
      else if p_rd s \<noteq> {} \<and> length (p_buf s) + length bs \<le> PIPE_CAPACITY
      then Some (answer (int (length bs)), s\<lparr>p_buf := p_buf s @ bs\<rparr>) else None)"
  "pipe_kern rd wr i s (C_read fd n) =
     (if i \<notin> p_rd s then Some (answer (-1), s)
      else if p_buf s \<noteq> []
      then Some (\<lparr>a_ret = int (length (take n (p_buf s))), a_err = 0, a_data = take n (p_buf s), a_evs = []\<rparr>, s\<lparr>p_buf := drop n (p_buf s)\<rparr>)
      else if p_wr s = {} then Some (answer 0, s) else None)"
  by (simp_all add: pipe_kern_def)

lemma pipe_kern_gone: "pipe_kern rd wr i s c = Some (a, s') \<Longrightarrow> p_gone s' = p_gone s"
  by (cases c) (auto simp: pipe_kern_def split: if_splits)

lemma pipe_live_step:
  assumes "net_step (pipe_kern rd wr) pipe_ends i s l = Some (s', l')" and "pipe_live i s l"
  shows "pipe_live i s' l'" and "j \<noteq> i \<Longrightarrow> pipe_live j s m \<Longrightarrow> pipe_live j s' m"
  using assms(1)
proof (atomize (full), cases rule: net_step_cases)
  case (Call c k a)
  then show "pipe_live i s' l' \<and> (j \<noteq> i \<longrightarrow> pipe_live j s m \<longrightarrow> pipe_live j s' m)"
    using assms(2) pipe_kern_gone [OF Call(2)] by (auto simp: pipe_live_def split: pst.splits)
qed (auto simp: pipe_live_def pipe_ends_def split: pst.splits)

lemma pipe_phase_parent:
  assumes "net_step (pipe_kern rd wr) pipe_ends 0 s l = Some (s', l')" and "rd \<noteq> wr" and "pipe_live 0 s l" and "pipe_phase rd wr s l m"
  shows "pipe_phase rd wr s' l' m"
  using assms(1)
proof (cases rule: net_step_cases)
  case (Call c k a)
  then have "pipe_calls 0 c" using assms(3) by (simp add: pipe_live_def)
  then show ?thesis
    by (cases rule: pipe_calls_cases) (use Call assms(2,4) in \<open>auto simp: pipe_phase_def pipe_kern_simps is_write_def split: if_splits\<close>)
qed (simp add: pipe_phase_def)

lemma pipe_phase_child:
  assumes "net_step (pipe_kern rd wr) pipe_ends 1 s m = Some (s', m')" and "rd \<noteq> wr" and "pipe_live 1 s m" and "pipe_phase rd wr s l m"
  shows "pipe_phase rd wr s' l m'"
proof (cases "\<exists>p. l = Live p \<and> \<not> no_write p")
  case True
  then obtain p q where p: "l = Live p" "one_write wr p" "m = Live q" "early rd q" and s: "0 \<in> p_wr s" "1 \<in> p_rd s" "p_buf s = []"
    using assms(4) by (auto simp: pipe_phase_def)
  from assms(1) show ?thesis
  proof (cases rule: net_step_cases)
    case (Call c k a)
    then have "pipe_calls 1 c" "is_read c \<or> c \<noteq> C_close rd \<and> (\<forall>a. early rd (k a))" using assms(3) p by (simp_all add: pipe_live_def)
    then show ?thesis
      by (cases rule: pipe_calls_cases) (use Call(2,3) assms(2) p(1,2) s in \<open>auto simp: pipe_phase_def pipe_kern_simps is_read_def split: if_splits\<close>)
  next
    case (End r)
    show ?thesis using End(1) p by auto
  qed
qed (auto simp: pipe_phase_def split: pst.splits)

lemma pipe_inv_step:
  assumes "pipe_inv rd wr s ls" and "i < length ls" and "net_step (pipe_kern rd wr) pipe_ends i s (ls ! i) = Some (s', l')"
  shows "pipe_inv rd wr s' (ls[i := l'])"
proof -
  obtain l m where ls: "ls = [l, m]" and inv: "rd \<noteq> wr" "pipe_live 0 s l" "pipe_live 1 s m" "pipe_phase rd wr s l m"
    using assms(1) by (auto simp: pipe_inv_def)
  consider "i = 0" | "i = 1" using assms(2) ls by (auto simp: less_Suc_eq)
  then show ?thesis
  proof cases
    case 1
    then have "net_step (pipe_kern rd wr) pipe_ends 0 s l = Some (s', l')" using assms(3) ls by simp
    from pipe_live_step(1) [OF this inv(2)] pipe_live_step(2) [OF this inv(2) _ inv(3)] pipe_phase_parent [OF this inv(1,2,4)]
    show ?thesis using 1 ls inv(1) by (simp add: pipe_inv_def)
  next
    case 2
    then have "net_step (pipe_kern rd wr) pipe_ends 1 s m = Some (s', l')" using assms(3) ls by simp
    from pipe_live_step(1) [OF this inv(3)] pipe_live_step(2) [OF this inv(3) _ inv(2)] pipe_phase_child [OF this inv(1,3,4)]
    show ?thesis using 2 ls inv(1) by (simp add: pipe_inv_def)
  qed
qed

text \<open>Enabled steps of parent and child commute.\<close>

lemma diff_commute: "A - {x} - {y} = A - {y} - {x}"
  by blast

lemma pipe_calls_commute:
  assumes "rd \<noteq> wr" and "pipe_calls 0 c" and "pipe_calls 1 d" and "pipe_phase rd wr s (Live (Sys c k)) (Live (Sys d k'))"
    and "1 \<notin> p_gone s" and "pipe_kern rd wr 0 s c = Some (a, s1)" and "pipe_kern rd wr 1 s d = Some (b, s2)"
  shows "\<exists>s3. pipe_kern rd wr 1 s1 d = Some (b, s3) \<and> pipe_kern rd wr 0 s2 c = Some (a, s3)"
  using assms(2)
proof (cases rule: pipe_calls_cases)
  case (Close fd)
  from assms(3) show ?thesis
    by (cases rule: pipe_calls_cases) (use assms(6,7) Close in \<open>auto simp: pipe_kern_simps diff_commute [of _ 0 "Suc 0"] split: if_splits\<close>)
next
  case (Print m)
  from assms(3) show ?thesis
    by (cases rule: pipe_calls_cases) (use assms(6,7) Print in \<open>auto simp: pipe_kern_simps says_commute [of 0 "Suc 0"] split: if_splits\<close>)
next
  case (Write fd bs)
  then have ph: "0 \<in> p_wr s" "1 \<in> p_rd s" "p_buf s = []" "early rd (Sys d k')" using assms(4) by (auto simp: pipe_phase_def is_write_def)
  from assms(3) show ?thesis
    by (cases rule: pipe_calls_cases) (use ph assms(1,6,7) Write(1) in \<open>auto simp: pipe_kern_simps is_read_def split: if_splits\<close>)
next
  case (Wait p)
  then show ?thesis using assms(5,6) by (auto simp: pipe_kern_simps split: if_splits)
qed simp

text \<open>A process that ends while the other makes a call, and two that end.\<close>

lemma pipe_end_parent:
  assumes "pipe_calls 1 d" and "pipe_kern rd wr 1 s d = Some (b, s2)"
  shows "pipe_kern rd wr 1 (pipe_ends 0 s) d = Some (b, pipe_ends 0 s2)"
  using assms(1)
  by (cases rule: pipe_calls_cases) (use assms(2) in \<open>auto simp: pipe_kern_simps pipe_ends_def diff_commute [of _ 0 "Suc 0"] split: if_splits\<close>)

lemma pipe_end_child:
  assumes "pipe_calls 0 c" and "\<not> is_write c" and "1 \<notin> p_gone s" and "pipe_kern rd wr 0 s c = Some (a, s1)"
  shows "pipe_kern rd wr 0 (pipe_ends 1 s) c = Some (a, pipe_ends 1 s1)"
  using assms(1)
  by (cases rule: pipe_calls_cases)
    (use assms(2-) in \<open>auto simp: pipe_kern_simps pipe_ends_def is_write_def diff_commute [of _ 0 "Suc 0"] split: if_splits\<close>)

lemma pipe_ends_commute: "pipe_ends 0 (pipe_ends 1 s) = pipe_ends 1 (pipe_ends 0 s)"
  by (auto simp: pipe_ends_def diff_commute [of _ 0 "Suc 0"] insert_commute)

lemma pipe_commute:
  assumes "rd \<noteq> wr" and "pipe_live 0 s l" and "pipe_live 1 s m" and "pipe_phase rd wr s l m"
    and p: "net_step (pipe_kern rd wr) pipe_ends 0 s l = Some (s1, l')" and c: "net_step (pipe_kern rd wr) pipe_ends 1 s m = Some (s2, m')"
  shows "\<exists>s3. net_step (pipe_kern rd wr) pipe_ends 1 s1 m = Some (s3, m') \<and> net_step (pipe_kern rd wr) pipe_ends 0 s2 l = Some (s3, l')"
  using p
proof (cases rule: net_step_cases)
  case P: (Call c k a)
  then have pc: "pipe_calls 0 c" using assms(2) by (simp add: pipe_live_def)
  from c have gone: "1 \<notin> p_gone s" using assms(3) by (cases m) (simp_all add: pipe_live_def)
  show ?thesis using c
  proof (cases rule: net_step_cases)
    case C: (Call d k' b)
    then have "pipe_calls 1 d" using assms(3) by (simp add: pipe_live_def)
    then show ?thesis using pipe_calls_commute [OF assms(1) pc _ _ gone P(2) C(2)] assms(4) P C by fastforce
  next
    case C: (End r)
    then have "\<not> is_write c" using assms(4) P(1) by (auto simp: pipe_phase_def)
    then show ?thesis using pipe_end_child [OF pc _ gone P(2)] P C by simp
  qed
next
  case P: (End r)
  show ?thesis using c
  proof (cases rule: net_step_cases)
    case C: (Call d k' b)
    then have "pipe_calls 1 d" using assms(3) by (simp add: pipe_live_def)
    then show ?thesis using pipe_end_parent [OF _ C(2)] P C by simp
  next
    case C: (End r')
    then show ?thesis using P pipe_ends_commute by simp
  qed
qed

interpretation pn: confluent_pool "net_step (pipe_kern rd wr) pipe_ends" "pipe_inv rd wr" for rd wr
proof (unfold_locales, goal_cases)
  case (1 s ls i s' l')
  then show ?case by (rule pipe_inv_step)
next
  case (2 s ls i j s1 l1 s2 l2)
  then obtain l m where ls: "ls = [l, m]" and inv: "rd \<noteq> wr" "pipe_live 0 s l" "pipe_live 1 s m" "pipe_phase rd wr s l m"
    by (auto simp: pipe_inv_def)
  consider "i = 0" "j = 1" | "i = 1" "j = 0" using 2(2-4) ls by (auto simp: less_Suc_eq)
  then show ?case
  proof cases
    case 1
    then show ?thesis using pipe_commute [OF inv, of s1 l1 s2 l2] 2(5,6) ls by simp
  next
    case 2
    then show ?thesis using pipe_commute [OF inv, of s2 l2 s1 l1] \<open>net_step _ _ i s _ = _\<close> \<open>net_step _ _ j s _ = _\<close> ls by auto
  qed
qed

section \<open>The demo\<close>

definition pipe_start :: pipen where
  "pipe_start = \<lparr>p_buf = [], p_rd = {0, 1}, p_wr = {0, 1}, p_out = (\<lambda>_. []), p_gone = {}\<rparr>"

definition pipe_result :: "int \<Rightarrow> int \<Rightarrow> pipen" where
  "pipe_result rd wr = \<lparr>p_buf = [], p_rd = {}, p_wr = {},
     p_out = says 1 [''[child] fd[0]='' @ dec_int rd @ '', fd[1]='' @ dec_int wr,
                     ''[CHILD] via fd[0]='' @ dec_int rd @ '' received: '' @ quoted anon_msg,
                     ''[CHILD] EOF received, exiting'']
       (says 0 [''[parent] fd[0]='' @ dec_int rd @ '', fd[1]='' @ dec_int wr,
                ''[PARENT] via fd[1]='' @ dec_int wr @ '' sent: '' @ quoted anon_msg] (\<lambda>_. [])),
     p_gone = {0, 1}\<rparr>"

lemma anon_loop_calls: "calls_until W (pipe_calls 1) p \<Longrightarrow> calls_until W (pipe_calls 1) (anon_read_loop fuel rd p)"
  by (induction fuel) (simp_all add: at_index_def)

lemma anon_start_inv:
  assumes "rd \<noteq> wr"
  shows "pipe_inv rd wr pipe_start [Live (anon_parent rd wr pid), Live (anon_child (Suc n) rd wr)]"
proof -
  have "pipe_live 0 pipe_start (Live (anon_parent rd wr pid))" by (simp add: pipe_live_def pipe_start_def anon_parent_def)
  moreover have "pipe_live 1 pipe_start (Live (anon_child (Suc n) rd wr))"
    by (simp add: pipe_live_def pipe_start_def anon_child_def anon_loop_calls [unfolded One_nat_def] del: anon_read_loop.simps)
  moreover have "pipe_phase rd wr pipe_start (Live (anon_parent rd wr pid)) (Live (anon_child (Suc n) rd wr))"
    using assms by (simp add: pipe_phase_def pipe_start_def anon_parent_def anon_child_def is_write_def is_read_def)
  ultimately show ?thesis using assms by (simp add: pipe_inv_def)
qed

text \<open>One run: the parent writes and closes, the child reads everything and the end of the file, the parent waits.\<close>

lemma anon_one_run:
  assumes "rd \<noteq> wr"
  shows "(pool_step (net_step (pipe_kern rd wr) pipe_ends))\<^sup>*\<^sup>* (pipe_start, [Live (anon_parent rd wr pid), Live (anon_child (Suc (Suc n)) rd wr)])
    (pipe_result rd wr, [Dead (Done ()), Dead (Exited 0)])"
proof -
  let ?step = "pool_step (net_step (pipe_kern rd wr) pipe_ends)"
  let ?par = "Live (anon_parent rd wr pid)" and ?chd = "Live (anon_child (Suc (Suc n)) rd wr)" and ?last = "ignore (C_waitpid pid) (Ret ())"
  let ?s = "\<lparr>p_buf = anon_msg, p_rd = {1}, p_wr = {1}, p_out = says 0 [''[parent] fd[0]='' @ dec_int rd @ '', fd[1]='' @ dec_int wr,
      ''[PARENT] via fd[1]='' @ dec_int wr @ '' sent: '' @ quoted anon_msg] (\<lambda>_. []), p_gone = {}\<rparr>"
  let ?t = "(pipe_result rd wr)\<lparr>p_gone := {1}\<rparr>"
  have small: "length anon_msg \<le> 127" "anon_msg \<noteq> []" "length anon_msg \<le> PIPE_CAPACITY" and txt_eq: "cstr (anon_msg @ [NUL]) = anon_msg"
    by (simp_all add: anon_msg_def cstr_def PIPE_CAPACITY_def)
  have "solo (pipe_kern rd wr) pipe_ends 0 5 pipe_start ?par = Some (?s, Live ?last)"
    using assms small by (auto simp: anon_parent_def pipe_start_def pipe_kern_simps)
  then have 1: "?step\<^sup>*\<^sup>* (pipe_start, [?par, ?chd]) (?s, [Live ?last, ?chd])" by (rule solo_parent)
  have "solo (pipe_kern rd wr) pipe_ends 1 8 ?s ?chd = Some (?t, Dead (Exited 0))"
    using assms small txt_eq by (simp add: anon_child_def pipe_kern_simps at_index_def pipe_result_def pipe_ends_def)
  then have 2: "?step\<^sup>*\<^sup>* (?s, [Live ?last, ?chd]) (?t, [Live ?last, Dead (Exited 0)])" by (rule solo_child)
  have "solo (pipe_kern rd wr) pipe_ends 0 2 ?t (Live ?last) = Some (pipe_result rd wr, Dead (Done ()))"
    by (simp add: pipe_kern_simps pipe_result_def pipe_ends_def)
  then have 3: "?step\<^sup>*\<^sup>* (?t, [Live ?last, Dead (Exited 0)]) (pipe_result rd wr, [Dead (Done ()), Dead (Exited 0)])"
    by (rule solo_parent)
  show ?thesis by (rule rtranclp_trans [OF rtranclp_trans [OF 1 2] 3])
qed

text \<open>
  C31. Parent and child of \<^verbatim>\<open>demo_anon_pipe\<close> running at the same time, with distinct descriptors for the two ends and at least two rounds of
  the child's loop, under any scheduler: every run ends, the parent returns and the child exits with 0, both ends are closed in both
  processes, and the child printed exactly the message the parent wrote, once, followed by the end of the file.
\<close>

theorem anon_pipe_settles:
  assumes "rd \<noteq> wr"
  shows "settles (pool_step (net_step (pipe_kern rd wr) pipe_ends)) (pipe_start, [Live (anon_parent rd wr pid), Live (anon_child (Suc (Suc n)) rd wr)])
    (pipe_result rd wr, [Dead (Done ()), Dead (Exited 0)])"
  by (rule pn.outcome [OF _ anon_one_run [OF assms] dead_stuck]) (use anon_start_inv [OF assms] in simp_all)

theorem anon_pipe_settles_witness:
  "settles (pool_step (net_step (pipe_kern 3 4) pipe_ends)) (pipe_start, [Live (anon_parent 3 4 42), Live (anon_child 2 3 4)])
    (pipe_result 3 4, [Dead (Done ()), Dead (Exited 0)])"
  using anon_pipe_settles [of 3 4 42 0] by (simp add: eval_nat_numeral)

end
