(* ===== verification/Signals.thy ===== *)
theory Signals
  imports C_Prelude
begin

text \<open>
  The demos of \<^verbatim>\<open>04_signals/signal_demo.c\<close> as the signals see them (the descriptors of the last three are in the theory \<open>Fd_Demos\<close>). The state is what the
  kernel keeps per process, the dispositions, the blocked and the pending signals, together with the globals the handlers
  change. A signal that is not blocked is delivered at once, as \<^verbatim>\<open>raise\<close> and \<^verbatim>\<open>kill\<close> to the own process promise. The signals
  that interrupt a sleep are an argument: a list of signal numbers with the time left.

  Shown: the state stays well formed under every operation and demo; every signal sent while a demo runs is counted,
  carried or kept pending as the demo claims, the process is never killed by one, no read blocks, and which dispositions
  and which mask the program leaves behind.
\<close>

section \<open>Signals of a process\<close>

abbreviation SIGINT :: nat where "SIGINT \<equiv> 2"
abbreviation SIGUSR1 :: nat where "SIGUSR1 \<equiv> 10"
abbreviation SIGUSR2 :: nat where "SIGUSR2 \<equiv> 12"
abbreviation SIGPIPE :: nat where "SIGPIPE \<equiv> 13"
abbreviation SIGTERM :: nat where "SIGTERM \<equiv> 15"
abbreviation SIGRTMIN :: nat where "SIGRTMIN \<equiv> 34"

datatype disposition = SIG_DFL | SIG_IGN | Sigint_Handler | Rt_Handler | Pipe_Handler

record sigs =
  disp :: "nat \<Rightarrow> disposition"
  blocked :: "nat list"
  pend :: "(nat \<times> c_int) list"
  g_sigint_count :: c_int
  g_rt_recv :: bool
  g_rt_val :: c_int
  g_pipe :: "byte list option"
  s_pid :: int
  s_out :: "string list"
  killed :: "nat option"

text \<open>The handlers. A real-time signal carries a value.\<close>

definition sigint_handler_1_arg :: "nat \<Rightarrow> sigs \<Rightarrow> sigs" where
  "sigint_handler_1_arg signo s =
     s\<lparr>s_out := s_out s @ [''[SIGNAL] Caught signal '' @ dec_nat signo], g_sigint_count := g_sigint_count s + 1\<rparr>"

definition rt_handler :: "c_int \<Rightarrow> sigs \<Rightarrow> sigs" where
  "rt_handler val s = s\<lparr>g_rt_recv := True, g_rt_val := val, s_out := s_out s @ [''[RT SIGNAL] received'']\<rparr>"

text \<open>\<open>g_pipe\<close> is what the pipe of \<^verbatim>\<open>g_pipe_fds\<close> holds, \<open>None\<close> while it is not open: then the write fails.\<close>

definition usr2_handler :: "sigs \<Rightarrow> sigs" where
  "usr2_handler s = s\<lparr>g_pipe := map_option (\<lambda>bs. bs @ ''S'') (g_pipe s)\<rparr>"

definition deliver :: "nat \<times> c_int \<Rightarrow> sigs \<Rightarrow> sigs" where
  "deliver p s =
     (case disp s (fst p) of
        SIG_DFL \<Rightarrow> s\<lparr>killed := Some (fst p)\<rparr>
      | SIG_IGN \<Rightarrow> s
      | Sigint_Handler \<Rightarrow> sigint_handler_1_arg (fst p) s
      | Rt_Handler \<Rightarrow> rt_handler (snd p) s
      | Pipe_Handler \<Rightarrow> usr2_handler s)"

text \<open>A blocked signal becomes pending; below \<^verbatim>\<open>SIGRTMIN\<close> at most once.\<close>

definition send_sig :: "nat \<Rightarrow> c_int \<Rightarrow> sigs \<Rightarrow> sigs" where
  "send_sig n val s =
     (if n \<in> set (blocked s)
      then (if n < SIGRTMIN \<and> n \<in> fst ` set (pend s) then s else s\<lparr>pend := pend s @ [(n, val)]\<rparr>)
      else deliver (n, val) s)"

abbreviation raise_sig :: "nat \<Rightarrow> sigs \<Rightarrow> sigs" where
  "raise_sig n s \<equiv> send_sig n 0 s"

text \<open>\<^verbatim>\<open>sigaction\<close> and \<^verbatim>\<open>signal\<close>: ignoring a signal discards it if pending. A new mask delivers what it unblocks.\<close>

definition set_disp :: "nat \<Rightarrow> disposition \<Rightarrow> sigs \<Rightarrow> sigs" where
  "set_disp n d s =
     (let s' = s\<lparr>disp := (disp s)(n := d)\<rparr>
      in if d = SIG_IGN then s'\<lparr>pend := filter (\<lambda>p. fst p \<noteq> n) (pend s')\<rparr> else s')"

definition set_mask :: "nat list \<Rightarrow> sigs \<Rightarrow> sigs" where
  "set_mask m s =
     fold deliver (filter (\<lambda>p. fst p \<notin> set m) (pend s)) (s\<lparr>blocked := m, pend := filter (\<lambda>p. fst p \<in> set m) (pend s)\<rparr>)"

definition sig_print :: "string \<Rightarrow> sigs \<Rightarrow> sigs" where
  "sig_print m s = s\<lparr>s_out := s_out s @ [m]\<rparr>"

definition separator :: "string \<Rightarrow> sigs \<Rightarrow> sigs" where
  "separator title s = sig_print double_rule (sig_print (''  '' @ title) (sig_print double_rule s))"

section \<open>The demos\<close>

text \<open>\<^verbatim>\<open>while (remaining > 0) remaining = sleep(remaining)\<close>; a sleep that is not interrupted any more returns 0.\<close>

fun sleep_loop :: "(nat \<times> nat) list \<Rightarrow> nat \<Rightarrow> sigs \<Rightarrow> sigs" where
  "sleep_loop ((n, left) # is) remaining s = (if remaining = 0 then s else sleep_loop is left (raise_sig n s))"
| "sleep_loop [] remaining s = s"

text \<open>\<open>ok1\<close> and \<open>ok2\<close>: whether the two calls of \<^verbatim>\<open>signal\<close> succeed.\<close>

definition signal_body :: "bool \<Rightarrow> bool \<Rightarrow> (nat \<times> nat) list \<Rightarrow> sigs \<Rightarrow> sigs" where
  "signal_body ok1 ok2 is s0 =
     (let old_handler = disp s0 SIGINT;
          s1 = (if ok1 then set_disp SIGINT Sigint_Handler s0 else s0);
          term_handler = disp s1 SIGTERM;
          s2 = (if ok2 then set_disp SIGTERM Sigint_Handler s1 else s1)
      in if \<not> ok1 \<or> \<not> ok2 then sig_print ''signal error'' s2
         else let s3 = sleep_loop is 10 (raise_sig SIGTERM (raise_sig SIGINT s2));
                  s4 = set_disp SIGTERM term_handler (set_disp SIGINT old_handler s3)
              in sig_print (''g_sigint_count = '' @ dec_int (sint (g_sigint_count s4))) s4)"

definition demo_signal :: "bool \<Rightarrow> bool \<Rightarrow> (nat \<times> nat) list \<Rightarrow> sigs \<Rightarrow> sigs" where
  "demo_signal ok1 ok2 is s =
     signal_body ok1 ok2 is
       (sig_print (''press ctrl+c to rais a SIGINT signal,         or send SIGTERM by [kill pid='' @ dec_int (s_pid s) @ '']'')
         (separator (''Demo 0: signal() '' @ em_dash @ ''  Handler'') s))"

text \<open>The loop around \<^verbatim>\<open>nanosleep\<close> goes on while a signal interrupted it.\<close>

definition nanosleep_loop :: "nat list \<Rightarrow> sigs \<Rightarrow> sigs" where
  "nanosleep_loop is s = fold raise_sig is s"

definition sigaction_hints :: "sigs \<Rightarrow> sigs" where
  "sigaction_hints s =
     sig_print (''try to raise SIGTERM by [kill '' @ dec_int (s_pid s) @ ''] by sleep in the handler'')
       (sig_print ''press ctrl+c also raise SIGINT'' (sig_print (''Sending 2 SIGINT to self with raise()'' @ ellipsis) s))"

definition demo_sigaction :: "bool \<Rightarrow> bool \<Rightarrow> nat list \<Rightarrow> sigs \<Rightarrow> sigs" where
  "demo_sigaction ok1 ok2 is s0 =
     (let s1 = (separator (''Demo 1: sigaction() '' @ em_dash @ '' Reliable Handler'') s0)\<lparr>g_sigint_count := 0\<rparr>
      in if \<not> ok1 then sig_print ''sigaction sig int'' s1
         else let s2 = set_disp SIGINT Sigint_Handler s1
              in if \<not> ok2 then sig_print ''sigaction sig term'' s2
                 else let s3 = set_disp SIGTERM Sigint_Handler s2;
                          s4 = sigaction_hints s3;
                          s4 = nanosleep_loop is (raise_sig SIGTERM (raise_sig SIGINT s4));
                          s5 = sig_print (''g_sigint_count = '' @ dec_int (sint (g_sigint_count s4)) @ '')'') s4
                      in set_disp SIGINT SIG_DFL s5)"

definition demo_sigprocmask :: "sigs \<Rightarrow> sigs" where
  "demo_sigprocmask s0 =
     (let s0 = separator (''Demo 2: sigprocmask() '' @ em_dash @ '' Block / Unblock'') s0;
          old_set = blocked s0;
          s1 = set_mask (SIGUSR1 # old_set) s0;
          s2 = sig_print (''SIGUSR1 blocked. Sending it now '' @ em_dash @ '' it won'' @ [CHR 0x27] @ ''t be delivered yet.'') s1;
          s3 = raise_sig SIGUSR1 s2;
          s4 = (if SIGUSR1 \<in> fst ` set (pend s3) then sig_print ''SIGUSR1 is PENDING (queued by kernel)'' s3 else s3);
          s5 = set_disp SIGUSR1 SIG_IGN s4;
          s6 = set_mask old_set s5
      in sig_print ''SIGUSR1 unblocked (and ignored).'' s6)"

definition demo_realtime_signal :: "sigs \<Rightarrow> sigs" where
  "demo_realtime_signal s0 =
     (let rtsig = SIGRTMIN + 1;
          s1 = sig_print (''Using signal SIGRTMIN+1 = '' @ dec_nat rtsig) (separator ''Demo 3: Real-time Signal + sigqueue()'' s0);
          s2 = set_disp rtsig Rt_Handler s1;
          s3 = send_sig rtsig 12345 (sig_print (''Sending RT signal with data '' @ dec_int 12345 @ '' via sigqueue()'' @ ellipsis) s2)
      in sig_print (''Received='' @ dec_nat (if g_rt_recv s3 then 1 else 0) @ '', value='' @ dec_int (sint (g_rt_val s3))) s3)"

text \<open>
  The demos with a pipe and a \<^verbatim>\<open>signalfd\<close>, as the signals see them; \<open>ok\<close> says whether the pipe or the descriptor could be created. Reading an
  empty pipe or a \<^verbatim>\<open>signalfd\<close> with no signal pending blocks for ever (\<open>None\<close>).
\<close>

definition self_pipe_signals :: "bool \<Rightarrow> sigs \<Rightarrow> sigs option" where
  "self_pipe_signals ok s0 =
     (let s0 = separator ''Demo 4: Self-Pipe Trick'' s0
      in if \<not> ok then Some (sig_print ''pipe'' s0)
         else let s1 = set_disp SIGUSR2 Pipe_Handler (s0\<lparr>g_pipe := Some []\<rparr>);
                  s2 = raise_sig SIGUSR2 (sig_print (''Sending SIGUSR2 '' @ em_dash @ '' handler writes to pipe'' @ ellipsis) s1);
                  n = min 8 (length (the (g_pipe s2)))
              in if n = 0 then None
                 else Some ((sig_print (''Read '' @ dec_nat n @ '' byte(s) from self-pipe '' @ em_dash @ '' signal safely converted!'') s2)\<lparr>g_pipe := None\<rparr>))"

definition pipe_signals :: "bool \<Rightarrow> sigs \<Rightarrow> sigs" where
  "pipe_signals ok s0 =
     (let s0 = separator ''Demo 4.1: Self-Pipe Trick simple'' s0
      in if \<not> ok then sig_print ''pipe'' s0 else sig_print ''pip read amout 1: A'' (s0\<lparr>g_pipe := None\<rparr>))"

definition signalfd_signals :: "bool \<Rightarrow> sigs \<Rightarrow> sigs option" where
  "signalfd_signals ok s0 =
     (let s1 = set_mask (SIGUSR1 # blocked s0) (separator (''Demo 5: signalfd() '' @ em_dash @ '' Read Signals Like a File'') s0)
      in if \<not> ok then Some (sig_print ''signalfd'' s1)
         else let s2 = raise_sig SIGUSR1 (sig_print (''Sending SIGUSR1 '' @ em_dash @ '' will be read via signalfd'' @ ellipsis) s1)
              in case filter (\<lambda>p. fst p = SIGUSR1) (pend s2) of
                   [] \<Rightarrow> None
                 | p # ps \<Rightarrow> Some (sig_print (''signalfd read: signo='' @ dec_nat SIGUSR1 @ '', PID='' @ dec_int (s_pid s2)) (s2\<lparr>pend := remove1 p (pend s2)\<rparr>)))"

text \<open>\<^verbatim>\<open>main\<close>, when installing handlers succeeds; \<open>ok1\<close>, \<open>ok2\<close> and \<open>ok3\<close> are for the two pipes and the \<^verbatim>\<open>signalfd\<close>.\<close>

definition signal_main :: "bool \<Rightarrow> bool \<Rightarrow> bool \<Rightarrow> (nat \<times> nat) list \<Rightarrow> nat list \<Rightarrow> sigs \<Rightarrow> sigs option" where
  "signal_main ok1 ok2 ok3 is js s0 =
     (let s1 = sig_print ''=== Embedded Linux Demo: Signals ==='' s0;
          s2 = sig_print (if disp s1 SIGPIPE = SIG_IGN then ''SIGPIPE is already ignored (inherited)'' else ''SIGPIPE is active'') s1;
          s3 = demo_realtime_signal (demo_sigprocmask (demo_sigaction True True js (demo_signal True True is s2)))
      in case self_pipe_signals ok1 s3 of
           None \<Rightarrow> None
         | Some s4 \<Rightarrow> map_option (sig_print ''[DONE] Signal demo complete.'') (signalfd_signals ok3 (pipe_signals ok2 s4)))"

section \<open>Lemmas\<close>

lemma separator_simps [simp]:
  "disp (separator m s) = disp s" "blocked (separator m s) = blocked s" "killed (separator m s) = killed s"
  "pend (separator m s) = pend s" "g_sigint_count (separator m s) = g_sigint_count s" "g_pipe (separator m s) = g_pipe s"
  "g_rt_recv (separator m s) = g_rt_recv s" "g_rt_val (separator m s) = g_rt_val s" "s_pid (separator m s) = s_pid s"
  by (simp_all add: separator_def sig_print_def)

lemmas sig_defs = send_sig_def deliver_def sigint_handler_1_arg_def rt_handler_def set_disp_def set_mask_def sig_print_def

text \<open>What a process is safe from: signals that are handled or ignored.\<close>

definition handled :: "sigs \<Rightarrow> nat \<Rightarrow> bool" where
  "handled s n \<longleftrightarrow> disp s n = Sigint_Handler \<and> n \<notin> set (blocked s)"

lemma raise_handled:
  "handled s n \<Longrightarrow> raise_sig n s = sigint_handler_1_arg n s"
  by (simp add: handled_def send_sig_def deliver_def)

lemma handler_keeps [simp]:
  "disp (sigint_handler_1_arg n s) = disp s" "blocked (sigint_handler_1_arg n s) = blocked s"
  "pend (sigint_handler_1_arg n s) = pend s" "killed (sigint_handler_1_arg n s) = killed s"
  "handled (sigint_handler_1_arg n s) m = handled s m"
  "g_sigint_count (sigint_handler_1_arg n s) = g_sigint_count s + 1"
  by (simp_all add: sigint_handler_1_arg_def handled_def)

definition same_but_count :: "sigs \<Rightarrow> nat \<Rightarrow> sigs \<Rightarrow> bool" where
  "same_but_count s n t \<longleftrightarrow> disp t = disp s \<and> blocked t = blocked s \<and> pend t = pend s \<and> killed t = killed s
     \<and> g_sigint_count t = g_sigint_count s + of_nat n"

lemma same_but_count_Suc: "same_but_count (sigint_handler_1_arg m s) n t \<Longrightarrow> same_but_count s (Suc n) t"
  by (simp add: same_but_count_def ac_simps)

lemma nanosleep_counts: "list_all (handled s) is \<Longrightarrow> same_but_count s (length is) (nanosleep_loop is s)"
proof (induction "is" arbitrary: s)
  case Nil
  then show ?case by (simp add: same_but_count_def nanosleep_loop_def)
next
  case (Cons n "is")
  then have "same_but_count (sigint_handler_1_arg n s) (length is) (nanosleep_loop is (sigint_handler_1_arg n s))" by simp
  then show ?case using Cons.prems same_but_count_Suc by (simp add: nanosleep_loop_def raise_handled)
qed

text \<open>The interruptions \<open>sleep\<close> sees: up to the one after which no time is left.\<close>

fun seen :: "(nat \<times> nat) list \<Rightarrow> nat \<Rightarrow> nat" where
  "seen ((n, left) # is) remaining = (if remaining = 0 then 0 else Suc (seen is left))"
| "seen [] remaining = 0"

lemma sleep_counts: "list_all (\<lambda>i. handled s (fst i)) is \<Longrightarrow> same_but_count s (seen is r) (sleep_loop is r s)"
proof (induction "is" r s rule: sleep_loop.induct)
  case (1 n left "is" remaining s)
  show ?case
  proof (cases "remaining = 0")
    case True
    then show ?thesis by (simp add: same_but_count_def)
  next
    case False
    have "handled s n" using 1(2) by simp
    then show ?thesis using 1 False same_but_count_Suc by (simp add: raise_handled)
  qed
qed (simp add: same_but_count_def)

text \<open>Pending signals are blocked ones, and none of those the demos use is blocked.\<close>

definition sig_ok :: "sigs \<Rightarrow> bool" where
  "sig_ok s \<longleftrightarrow> fst ` set (pend s) \<subseteq> set (blocked s)
     \<and> SIGINT \<notin> set (blocked s) \<and> SIGTERM \<notin> set (blocked s) \<and> SIGUSR1 \<notin> set (blocked s) \<and> SIGRTMIN + 1 \<notin> set (blocked s)"

lemma set_disp_simps [simp]:
  "disp (set_disp n d s) = (disp s)(n := d)" "blocked (set_disp n d s) = blocked s" "killed (set_disp n d s) = killed s"
  "g_sigint_count (set_disp n d s) = g_sigint_count s" "s_out (set_disp n d s) = s_out s"
  "n \<notin> fst ` set (pend s) \<Longrightarrow> pend (set_disp n d s) = pend s"
  by (auto simp: set_disp_def Let_def filter_id_conv)

lemma sig_print_simps [simp]:
  "disp (sig_print m s) = disp s" "blocked (sig_print m s) = blocked s" "killed (sig_print m s) = killed s"
  "pend (sig_print m s) = pend s" "g_sigint_count (sig_print m s) = g_sigint_count s" "s_out (sig_print m s) = s_out s @ [m]"
  "g_rt_recv (sig_print m s) = g_rt_recv s" "g_rt_val (sig_print m s) = g_rt_val s"
  by (simp_all add: sig_print_def)

lemma sig_okD:
  assumes "sig_ok s"
  shows "SIGINT \<notin> set (blocked s)" "SIGTERM \<notin> set (blocked s)" "SIGUSR1 \<notin> set (blocked s)" "SIGRTMIN + 1 \<notin> set (blocked s)"
    "SIGINT \<notin> fst ` set (pend s)" "SIGTERM \<notin> fst ` set (pend s)" "SIGUSR1 \<notin> fst ` set (pend s)"
  using assms by (auto simp: sig_ok_def)

abbreviation int_or_term :: "nat list \<Rightarrow> bool" where
  "int_or_term is \<equiv> set is \<subseteq> {SIGINT, SIGTERM}"

lemma signal_body_spec:
  assumes "sig_ok s" and "int_or_term (map fst is)"
  shows "same_but_count s (2 + seen is 10) (signal_body True True is s)
    \<and> last (s_out (signal_body True True is s)) = ''g_sigint_count = '' @ dec_int (sint (g_sigint_count s + of_nat (2 + seen is 10)))"
proof -
  note ok = sig_okD [OF assms(1)]
  define s2 where "s2 = set_disp SIGTERM Sigint_Handler (set_disp SIGINT Sigint_Handler s)"
  define s3 where "s3 = sigint_handler_1_arg SIGTERM (sigint_handler_1_arg SIGINT s2)"
  have h: "handled s2 SIGINT" "handled s2 SIGTERM" using ok by (simp_all add: handled_def s2_def)
  then have r: "raise_sig SIGTERM (raise_sig SIGINT s2) = s3" by (simp add: raise_handled s3_def)
  have "list_all (\<lambda>i. handled s3 (fst i)) is" using assms(2) h by (auto simp: list_all_iff s3_def)
  from sleep_counts [OF this] have "same_but_count s3 (seen is 10) (sleep_loop is 10 s3)" .
  moreover have "same_but_count s2 2 s3" by (simp add: same_but_count_def s3_def)
  ultimately have c: "same_but_count s2 (2 + seen is 10) (sleep_loop is 10 s3)" by (simp add: same_but_count_def)
  have t: "signal_body True True is s = (let s4 = set_disp SIGTERM (disp s SIGTERM) (set_disp SIGINT (disp s SIGINT) (sleep_loop is 10 s3))
      in sig_print (''g_sigint_count = '' @ dec_int (sint (g_sigint_count s4))) s4)"
    by (simp add: signal_body_def Let_def r s2_def [symmetric] del: upt_rec_numeral)
  show ?thesis using c ok unfolding t
    by (auto simp: same_but_count_def Let_def s2_def)
qed

lemma demo_signal_spec:
  assumes "sig_ok s" and "int_or_term (map fst is)"
  shows "same_but_count s (2 + seen is 10) (demo_signal True True is s)"
proof -
  let ?s = "sig_print (''press ctrl+c to rais a SIGINT signal,         or send SIGTERM by [kill pid='' @ dec_int (s_pid s) @ '']'')
    (separator (''Demo 0: signal() '' @ em_dash @ ''  Handler'') s)"
  have "sig_ok ?s" using assms(1) by (simp add: sig_ok_def)
  then have "same_but_count ?s (2 + seen is 10) (signal_body True True is ?s)" using signal_body_spec assms(2) by blast
  then show ?thesis unfolding demo_signal_def by (simp add: same_but_count_def)
qed

lemma sigaction_hints_simps [simp]:
  "disp (sigaction_hints s) = disp s" "blocked (sigaction_hints s) = blocked s" "killed (sigaction_hints s) = killed s"
  "pend (sigaction_hints s) = pend s" "g_sigint_count (sigaction_hints s) = g_sigint_count s"
  by (simp_all add: sigaction_hints_def)

lemma demo_sigaction_spec:
  assumes "sig_ok s" and "int_or_term is"
  shows "same_but_count (s\<lparr>g_sigint_count := 0, disp := (disp s)(SIGTERM := Sigint_Handler, SIGINT := SIG_DFL)\<rparr>) (2 + length is)
      (demo_sigaction True True is s)
    \<and> last (s_out (demo_sigaction True True is s)) = ''g_sigint_count = '' @ dec_int (sint (of_nat (2 + length is) :: c_int)) @ '')''"
proof -
  note ok = sig_okD [OF assms(1)]
  let ?s = "separator (''Demo 1: sigaction() '' @ em_dash @ '' Reliable Handler'') s"
  define s3 where "s3 = sigaction_hints (set_disp SIGTERM Sigint_Handler (set_disp SIGINT Sigint_Handler (?s\<lparr>g_sigint_count := 0\<rparr>)))"
  define s4 where "s4 = sigint_handler_1_arg SIGTERM (sigint_handler_1_arg SIGINT s3)"
  have h: "handled s3 SIGINT" "handled s3 SIGTERM" using ok by (simp_all add: handled_def s3_def)
  then have r: "raise_sig SIGTERM (raise_sig SIGINT s3) = s4" by (simp add: raise_handled s4_def)
  have "list_all (handled s4) is" using assms(2) h by (auto simp: list_all_iff s4_def)
  from nanosleep_counts [OF this] have c: "same_but_count s3 (2 + length is) (nanosleep_loop is s4)"
    by (simp add: same_but_count_def s4_def)
  have t: "demo_sigaction True True is s = set_disp SIGINT SIG_DFL (sig_print (''g_sigint_count = '' @ dec_int (sint (g_sigint_count (nanosleep_loop is s4))) @ '')'')
      (nanosleep_loop is s4))"
    unfolding demo_sigaction_def Let_def by (simp only: simp_thms if_False s3_def [symmetric] r)
  show ?thesis using c ok unfolding t by (auto simp: same_but_count_def s3_def)
qed

lemma demo_sigprocmask_spec:
  assumes "sig_ok s"
  shows "same_but_count (s\<lparr>disp := (disp s)(SIGUSR1 := SIG_IGN)\<rparr>) 0 (demo_sigprocmask s)"
proof -
  note ok = sig_okD [OF assms]
  have blk: "fst p \<in> set (blocked s)" if "p \<in> set (pend s)" for p using assms that by (auto simp: sig_ok_def)
  have keep: "filter (\<lambda>p. fst p = SIGUSR1 \<or> fst p \<in> set (blocked s)) (pend s) = pend s" "filter (\<lambda>p. fst p \<in> set (blocked s)) (pend s) = pend s"
    "filter (\<lambda>p. fst p \<noteq> SIGUSR1 \<and> fst p \<notin> set (blocked s)) (pend s) = []" "filter (\<lambda>p. fst p \<notin> set (blocked s)) (pend s) = []"
    "filter (\<lambda>p. fst p \<noteq> SIGUSR1 \<and> fst p \<in> set (blocked s)) (pend s) = pend s"
    using blk ok(7) by (auto simp: filter_id_conv filter_empty_conv)
  have "SIGUSR1 \<notin> fst ` set (pend s)" by (rule ok(7))
  then show ?thesis
    by (simp add: demo_sigprocmask_def Let_def set_mask_def keep send_sig_def sig_print_def separator_def set_disp_def same_but_count_def)
qed

lemma demo_realtime_spec:
  assumes "sig_ok s"
  shows "same_but_count (s\<lparr>disp := (disp s)(SIGRTMIN + 1 := Rt_Handler)\<rparr>) 0 (demo_realtime_signal s)
    \<and> g_rt_recv (demo_realtime_signal s) \<and> g_rt_val (demo_realtime_signal s) = 12345
    \<and> last (s_out (demo_realtime_signal s)) = ''Received='' @ dec_nat 1 @ '', value='' @ dec_int 12345"
  using sig_okD(4) [OF assms]
  by (simp add: demo_realtime_signal_def Let_def send_sig_def deliver_def rt_handler_def sig_print_def separator_def set_disp_def same_but_count_def)

lemma sig_ok_same: "same_but_count s n t \<Longrightarrow> sig_ok t = sig_ok s"
  by (simp add: same_but_count_def sig_ok_def)

text \<open>The demos with descriptors: what they change of the signals. Neither blocks.\<close>

definition same_sigs :: "sigs \<Rightarrow> sigs \<Rightarrow> bool" where
  "same_sigs s t \<longleftrightarrow> disp t = disp s \<and> blocked t = blocked s \<and> pend t = pend s \<and> killed t = killed s
     \<and> g_sigint_count t = g_sigint_count s \<and> g_rt_recv t = g_rt_recv s \<and> g_rt_val t = g_rt_val s"

lemma self_pipe_spec:
  assumes "SIGUSR2 \<notin> set (blocked s)"
  shows "\<exists>t. self_pipe_signals ok s = Some t \<and> same_sigs (if ok then s\<lparr>disp := (disp s)(SIGUSR2 := Pipe_Handler)\<rparr> else s) t"
  using assms by (auto simp: self_pipe_signals_def Let_def send_sig_def deliver_def usr2_handler_def sig_print_def set_disp_def same_sigs_def)

lemma pipe_signals_spec: "same_sigs s (pipe_signals ok s)"
  by (simp add: pipe_signals_def Let_def sig_print_def same_sigs_def)

lemma signalfd_spec:
  assumes "fst ` set (pend s) \<subseteq> set (blocked s)" and "SIGUSR1 \<notin> set (blocked s)"
  shows "\<exists>t. signalfd_signals ok s = Some t \<and> same_sigs (s\<lparr>blocked := SIGUSR1 # blocked s\<rparr>) t"
proof -
  have blk: "fst p \<in> set (blocked s)" "fst p \<noteq> SIGUSR1" if "p \<in> set (pend s)" for p using assms that by auto
  have keep: "filter (\<lambda>p. fst p = SIGUSR1 \<or> fst p \<in> set (blocked s)) (pend s) = pend s"
    "filter (\<lambda>p. fst p \<noteq> SIGUSR1 \<and> fst p \<notin> set (blocked s)) (pend s) = []" "filter (\<lambda>p. fst p = SIGUSR1) (pend s) = []"
    using blk by (auto simp: filter_id_conv filter_empty_conv)
  moreover have "SIGUSR1 \<notin> fst ` set (pend s)" "(SIGUSR1, 0) \<notin> set (pend s)" using blk by force+
  ultimately show ?thesis
    by (simp add: signalfd_signals_def Let_def set_mask_def send_sig_def sig_print_def same_sigs_def remove1_append)
qed

section \<open>Well-formed signal states\<close>

text \<open>Only blocked signals are pending, one that carries no value at most once, and the pipe holds bytes of the handler only.\<close>

definition sig_wf :: "sigs \<Rightarrow> bool" where
  "sig_wf s \<longleftrightarrow> fst ` set (pend s) \<subseteq> set (blocked s) \<and> distinct (filter (\<lambda>n. n < SIGRTMIN) (map fst (pend s)))
     \<and> (case g_pipe s of None \<Rightarrow> True | Some bs \<Rightarrow> set bs \<subseteq> {CHR ''S''})"

lemma sig_wf_cong: "pend t = pend s \<Longrightarrow> blocked t = blocked s \<Longrightarrow> g_pipe t = g_pipe s \<Longrightarrow> sig_wf t = sig_wf s"
  by (simp add: sig_wf_def)

lemma sig_print_wf [simp]: "sig_wf (sig_print m s) = sig_wf s"
  by (rule sig_wf_cong) (simp_all add: sig_print_def)

lemma separator_wf [simp]: "sig_wf (separator m s) = sig_wf s"
  by (rule sig_wf_cong) simp_all

lemma sigaction_hints_wf [simp]: "sig_wf (sigaction_hints s) = sig_wf s"
  by (simp add: sigaction_hints_def)

lemma count_wf [simp]: "sig_wf (s\<lparr>g_sigint_count := n\<rparr>) = sig_wf s"
  by (rule sig_wf_cong) simp_all

lemma deliver_wf: "sig_wf s \<Longrightarrow> sig_wf (deliver p s)"
  by (auto simp: deliver_def sigint_handler_1_arg_def rt_handler_def usr2_handler_def sig_wf_def split: disposition.splits option.splits)

lemma send_sig_wf: "sig_wf s \<Longrightarrow> sig_wf (send_sig n v s)"
  by (auto simp: send_sig_def deliver_wf) (auto simp: sig_wf_def)

lemma distinct_filter_pend: "distinct (filter P (map f xs)) \<Longrightarrow> distinct (filter P (map f (filter Q xs)))"
  by (induction xs) auto

lemma set_disp_wf: "sig_wf s \<Longrightarrow> sig_wf (set_disp n d s)"
  using distinct_filter_pend [of "\<lambda>n. n < SIGRTMIN" fst "pend s" "\<lambda>p. fst p \<noteq> n"] by (auto simp: set_disp_def Let_def sig_wf_def)

lemma fold_deliver_wf: "sig_wf s \<Longrightarrow> sig_wf (fold deliver ps s)"
  by (induction ps arbitrary: s) (simp_all add: deliver_wf)

lemma set_mask_wf: "sig_wf s \<Longrightarrow> sig_wf (set_mask m s)"
  unfolding set_mask_def
  using distinct_filter_pend [of "\<lambda>n. n < SIGRTMIN" fst "pend s" "\<lambda>p. fst p \<in> set m"]
  by (intro fold_deliver_wf) (auto simp: sig_wf_def)

lemma sleep_loop_wf: "sig_wf s \<Longrightarrow> sig_wf (sleep_loop is r s)"
  by (induction "is" r s rule: sleep_loop.induct) (simp_all add: send_sig_wf)

lemma nanosleep_loop_wf: "sig_wf s \<Longrightarrow> sig_wf (nanosleep_loop is s)"
  unfolding nanosleep_loop_def by (induction "is" arbitrary: s) (simp_all add: send_sig_wf)

lemmas wf_rules = send_sig_wf set_disp_wf set_mask_wf sleep_loop_wf nanosleep_loop_wf

lemma demos_wf:
  assumes "sig_wf s"
  shows "sig_wf (demo_signal ok1 ok2 is s)" "sig_wf (demo_sigaction ok1 ok2 js s)" "sig_wf (demo_sigprocmask s)" "sig_wf (demo_realtime_signal s)"
  using assms
  by (auto simp: demo_signal_def signal_body_def demo_sigaction_def demo_sigprocmask_def demo_realtime_signal_def Let_def intro!: wf_rules)

lemma self_pipe_wf: "sig_wf s \<Longrightarrow> self_pipe_signals ok s = Some t \<Longrightarrow> sig_wf t"
proof -
  assume s: "sig_wf s" and t: "self_pipe_signals ok s = Some t"
  have opened: "sig_wf (u\<lparr>g_pipe := Some []\<rparr>)" "sig_wf (u\<lparr>g_pipe := None\<rparr>)" if "sig_wf u" for u using that by (simp_all add: sig_wf_def)
  show ?thesis using s t by (auto simp: self_pipe_signals_def Let_def intro!: opened wf_rules split: if_splits)
qed

lemma pipe_signals_wf: "sig_wf s \<Longrightarrow> sig_wf (pipe_signals ok s)"
  by (auto simp: pipe_signals_def Let_def) (simp add: sig_wf_def)

lemma remove1_wf: "sig_wf s \<Longrightarrow> sig_wf (s\<lparr>pend := remove1 p (pend s)\<rparr>)"
proof -
  assume s: "sig_wf s"
  have "distinct (filter P (map fst (remove1 p xs)))" if "distinct (filter P (map fst xs))" for P and xs :: "(nat \<times> c_int) list"
    using that
  proof (induction xs)
    case (Cons x xs)
    have "fst ` set (remove1 p xs) \<subseteq> fst ` set xs" using set_remove1_subset [of p xs] by blast
    with Cons show ?case by (auto split: if_splits)
  qed simp
  moreover have "fst ` set (remove1 p (pend s)) \<subseteq> fst ` set (pend s)" using set_remove1_subset by (rule image_mono)
  ultimately show ?thesis using s unfolding sig_wf_def by simp (metis order_trans)
qed

lemma signalfd_wf: "sig_wf s \<Longrightarrow> signalfd_signals ok s = Some t \<Longrightarrow> sig_wf t"
  by (auto simp: signalfd_signals_def Let_def intro!: wf_rules remove1_wf split: if_splits list.splits)

section \<open>Properties\<close>


text \<open>
  C38. The whole signal demo, \<^verbatim>\<open>main\<close>, when the signals it uses are not blocked at the start and only \<^verbatim>\<open>SIGINT\<close> and \<^verbatim>\<open>SIGTERM\<close> interrupt the
  sleeps, as often as they like: it ends, no read blocks, no signal kills the process and none stays pending that was not before.
  \<^verbatim>\<open>demo_sigaction\<close> counted its two signals and every interruption, and the value sent with \<^verbatim>\<open>sigqueue\<close> arrived. But not everything is
  put back: the handler of \<^verbatim>\<open>SIGTERM\<close> stays installed, \<^verbatim>\<open>SIGUSR1\<close> stays ignored and ends up blocked, and the handler of \<^verbatim>\<open>SIGUSR2\<close> stays
  installed after its pipe was closed.
\<close>

theorem signal_demos_state:
  assumes "sig_ok s" and "SIGUSR2 \<notin> set (blocked s)" and "int_or_term (map fst is)" and "int_or_term js"
  shows "\<exists>t. signal_main ok1 ok2 ok3 is js s = Some t
    \<and> killed t = killed s \<and> blocked t = SIGUSR1 # blocked s \<and> pend t = pend s
    \<and> g_sigint_count t = of_nat (2 + length js) \<and> g_rt_recv t \<and> g_rt_val t = 12345
    \<and> disp t = (if ok1 then (disp s)(SIGTERM := Sigint_Handler, SIGINT := SIG_DFL, SIGUSR1 := SIG_IGN, SIGRTMIN + 1 := Rt_Handler, SIGUSR2 := Pipe_Handler)
                else (disp s)(SIGTERM := Sigint_Handler, SIGINT := SIG_DFL, SIGUSR1 := SIG_IGN, SIGRTMIN + 1 := Rt_Handler))"
proof -
  define s0 where "s0 = sig_print (if disp s SIGPIPE = SIG_IGN then ''SIGPIPE is already ignored (inherited)'' else ''SIGPIPE is active'')
    (sig_print ''=== Embedded Linux Demo: Signals ==='' s)"
  let ?s1 = "demo_signal True True is s0"
  let ?s2 = "demo_sigaction True True js ?s1"
  let ?s3 = "demo_sigprocmask ?s2"
  let ?s4 = "demo_realtime_signal ?s3"
  have o0: "sig_ok s0" using assms(1) by (simp add: s0_def sig_ok_def)
  have d1: "same_but_count s0 (2 + seen is 10) ?s1" by (rule demo_signal_spec [OF o0 assms(3)])
  then have o1: "sig_ok ?s1" using o0 by (simp add: sig_ok_same)
  have d2: "same_but_count (?s1\<lparr>g_sigint_count := 0, disp := (disp ?s1)(SIGTERM := Sigint_Handler, SIGINT := SIG_DFL)\<rparr>) (2 + length js) ?s2"
    using demo_sigaction_spec [OF o1 assms(4)] by blast
  then have o2: "sig_ok ?s2" using o1 by (auto simp: sig_ok_def same_but_count_def)
  have d3: "same_but_count (?s2\<lparr>disp := (disp ?s2)(SIGUSR1 := SIG_IGN)\<rparr>) 0 ?s3" by (rule demo_sigprocmask_spec [OF o2])
  then have o3: "sig_ok ?s3" using o2 by (auto simp: sig_ok_def same_but_count_def)
  note d4 = demo_realtime_spec [OF o3]
  then have o4: "sig_ok ?s4" using o3 by (auto simp: sig_ok_def same_but_count_def)
  have four: "killed ?s4 = killed s" "blocked ?s4 = blocked s" "pend ?s4 = pend s" "g_sigint_count ?s4 = of_nat (2 + length js)"
    "g_rt_recv ?s4" "g_rt_val ?s4 = 12345"
    "disp ?s4 = (disp s)(SIGTERM := Sigint_Handler, SIGINT := SIG_DFL, SIGUSR1 := SIG_IGN, SIGRTMIN + 1 := Rt_Handler)"
    using d1 d2 d3 d4 by (simp_all add: same_but_count_def s0_def)
  obtain s5 where s5: "self_pipe_signals ok1 ?s4 = Some s5"
    "same_sigs (if ok1 then ?s4\<lparr>disp := (disp ?s4)(SIGUSR2 := Pipe_Handler)\<rparr> else ?s4) s5"
    using self_pipe_spec [of ?s4 ok1] four(2) assms(2) by auto
  let ?s6 = "pipe_signals ok2 s5"
  have s6: "blocked ?s6 = blocked s" "pend ?s6 = pend s"
    using pipe_signals_spec [of s5 ok2] s5(2) four by (auto simp: same_sigs_def split: if_splits)
  then obtain t where t: "signalfd_signals ok3 ?s6 = Some t" "same_sigs (?s6\<lparr>blocked := SIGUSR1 # blocked ?s6\<rparr>) t"
    using signalfd_spec [of ?s6 ok3] assms(1) by (auto simp: sig_ok_def)
  have "signal_main ok1 ok2 ok3 is js s = Some (sig_print ''[DONE] Signal demo complete.'' t)"
    using s5(1) t(1) by (simp add: signal_main_def Let_def s0_def)
  then show ?thesis using t(2) s5(2) four s6 pipe_signals_spec [of s5 ok2] by (cases ok1) (auto simp: same_sigs_def)
qed

definition sigs0 :: sigs where
  "sigs0 = \<lparr>disp = (\<lambda>_. SIG_DFL), blocked = [], pend = [], g_sigint_count = 0, g_rt_recv = False, g_rt_val = 0, g_pipe = None, s_pid = 42,
     s_out = [], killed = None\<rparr>"


theorem signal_demos_state_witness:
  "\<exists>t. signal_main True True True [(SIGINT, 4), (SIGTERM, 2)] [SIGINT] sigs0 = Some t \<and> killed t = None \<and> g_sigint_count t = 3
     \<and> blocked t = [SIGUSR1]"
  using signal_demos_state [of sigs0 "[(SIGINT, 4), (SIGTERM, 2)]" "[SIGINT]" True True True] by (auto simp: sig_ok_def sigs0_def)

end
