(* ===== verification/Debug_Demo.thy ===== *)
theory Debug_Demo
  imports C_Prelude
begin

text \<open>
  \<^verbatim>\<open>13_debugging/debug_demo.c\<close>, a program of deliberate memory errors, over a heap in which every block has its size, its
  bytes (uninitialised until stored) and a mark when it has been freed. The addresses \<^verbatim>\<open>malloc\<close> answers are
  arguments. Local arrays are blocks without an address.

  Shown: each \<^verbatim>\<open>bug_id\<close> runs into exactly the error its usage line names and into no earlier one; \<^verbatim>\<open>bug_leak\<close> has none, and leaves one of
  its two blocks.
\<close>

section \<open>Heap\<close>

type_synonym haddr = "64 word"

record heap =
  blocks :: "haddr \<Rightarrow> byte option list option"
  freed :: "haddr \<Rightarrow> bool"

definition heap0 :: heap where
  "heap0 = \<lparr>blocks = (\<lambda>_. None), freed = (\<lambda>_. False)\<rparr>"

definition h_malloc :: "haddr \<Rightarrow> nat \<Rightarrow> heap \<Rightarrow> heap" where
  "h_malloc a n h = (if a = 0 then h else \<lparr>blocks = (blocks h)(a \<mapsto> replicate n None), freed = (freed h)(a := False)\<rparr>)"

text \<open>The block a pointer to its start may be used for.\<close>

definition h_block :: "haddr \<Rightarrow> heap \<Rightarrow> c_error + byte option list" where
  "h_block p h =
     (if p = 0 then Inl Null_Deref
      else if freed h p then Inl Use_After_Free
      else case blocks h p of None \<Rightarrow> Inl Out_Of_Bounds | Some bs \<Rightarrow> Inr bs)"

definition h_free :: "haddr \<Rightarrow> heap \<Rightarrow> c_error + heap" where
  "h_free p h =
     (if p = 0 then Inr h
      else if freed h p \<or> blocks h p = None then Inl Double_Free
      else Inr (h\<lparr>freed := (freed h)(p := True)\<rparr>))"

text \<open>\<^verbatim>\<open>memset\<close>, \<^verbatim>\<open>memcpy\<close>, \<^verbatim>\<open>strcpy\<close>: bytes stored from the start of an array or a block.\<close>

definition store_bytes :: "byte list \<Rightarrow> byte option list \<Rightarrow> c_error + byte option list" where
  "store_bytes bs xs = (if length bs \<le> length xs then Inr (put_at xs 0 (map Some bs)) else Inl Out_Of_Bounds)"

definition h_store :: "haddr \<Rightarrow> byte list \<Rightarrow> heap \<Rightarrow> c_error + heap" where
  "h_store p bs h =
     (case h_block p h of
        Inl e \<Rightarrow> Inl e
      | Inr xs \<Rightarrow> (case store_bytes bs xs of Inl e \<Rightarrow> Inl e | Inr ys \<Rightarrow> Inr (h\<lparr>blocks := (blocks h)(p \<mapsto> ys)\<rparr>)))"

definition h_set :: "haddr \<Rightarrow> nat \<Rightarrow> byte \<Rightarrow> heap \<Rightarrow> c_error + heap" where
  "h_set p i v h =
     (case h_block p h of
        Inl e \<Rightarrow> Inl e
      | Inr xs \<Rightarrow> if i < length xs then Inr (h\<lparr>blocks := (blocks h)(p \<mapsto> xs[i := Some v])\<rparr>) else Inl Out_Of_Bounds)"

text \<open>\<^verbatim>\<open>strncpy\<close> pads with NUL.\<close>

definition strncpy_bytes :: "string \<Rightarrow> nat \<Rightarrow> byte list" where
  "strncpy_bytes s n = take n s @ replicate (n - length s) NUL"

definition bind_e :: "c_error + 'a \<Rightarrow> ('a \<Rightarrow> c_error + 'b) \<Rightarrow> c_error + 'b" where
  "bind_e x f = (case x of Inl e \<Rightarrow> Inl e | Inr v \<Rightarrow> f v)"

section \<open>The bugs\<close>

text \<open>Each takes the heap and returns it with the exit status of the program, or stops at the error.\<close>

definition bug_null_deref :: "heap \<Rightarrow> c_error + heap" where
  "bug_null_deref h = bind_e (h_block 0 h) (\<lambda>bs. Inr h)"

fun overflow_loop :: "nat list \<Rightarrow> haddr \<Rightarrow> heap \<Rightarrow> c_error + heap" where
  "overflow_loop [] p h = Inr h"
| "overflow_loop (i # is) p h = bind_e (h_set p i (char_of i) h) (overflow_loop is p)"

definition bug_heap_overflow :: "haddr \<Rightarrow> heap \<Rightarrow> c_error + heap" where
  "bug_heap_overflow a h = bind_e (overflow_loop [0..<40] a (h_malloc a 16 h)) (h_free a)"

definition bug_leak :: "haddr \<Rightarrow> haddr \<Rightarrow> heap \<Rightarrow> c_error + heap" where
  "bug_leak a b h =
     bind_e (h_store a (strncpy_bytes ''leaked allocation'' 1024) (h_malloc b 4096 (h_malloc a 1024 h)))
       (\<lambda>h1. bind_e (h_store b (strncpy_bytes ''also leaked'' 4096) h1) (h_free b))"

definition bug_use_after_free :: "haddr \<Rightarrow> heap \<Rightarrow> c_error + heap" where
  "bug_use_after_free a h =
     bind_e (h_store a (''original data'' @ [NUL]) (h_malloc a 64 h))
       (\<lambda>h1. bind_e (h_free a h1) (\<lambda>h2. bind_e (h_block a h2) (\<lambda>bs. Inr h2)))"

definition bug_stack_overflow :: "heap \<Rightarrow> c_error + heap" where
  "bug_stack_overflow h = bind_e (store_bytes (replicate 64 CHR ''A'') (replicate 16 None)) (\<lambda>local. Inr h)"

definition bug_double_free :: "haddr \<Rightarrow> heap \<Rightarrow> c_error + heap" where
  "bug_double_free a h =
     bind_e (h_store a (''data'' @ [NUL]) (h_malloc a 32 h)) (\<lambda>h1. bind_e (h_free a h1) (h_free a))"

text \<open>\<^verbatim>\<open>x\<close> has no value.\<close>

definition read_var :: "c_int option \<Rightarrow> c_error + c_int" where
  "read_var x = (case x of None \<Rightarrow> Inl Uninit_Read | Some v \<Rightarrow> Inr v)"

definition bug_uninit :: "heap \<Rightarrow> c_error + heap" where
  "bug_uninit h = bind_e (read_var None) (\<lambda>x. Inr h)"

section \<open>Main\<close>

text \<open>\<^verbatim>\<open>atoi\<close>: white space, a sign, digits; numbers beyond \<^verbatim>\<open>int\<close> are not considered.\<close>

fun atoi_digits :: "string \<Rightarrow> int \<Rightarrow> int" where
  "atoi_digits [] acc = acc"
| "atoi_digits (c # cs) acc =
     (let d = int (of_char c) - 48 in if 0 \<le> d \<and> d \<le> 9 then atoi_digits cs (10 * acc + d) else acc)"

definition atoi :: "string \<Rightarrow> int" where
  "atoi s =
     (let t = dropWhile (\<lambda>c. c \<in> {CHR '' '', CHR 0x09, CHR 0x0A, CHR 0x0B, CHR 0x0C, CHR 0x0D}) s
      in case t of
           [] \<Rightarrow> 0
         | c # cs \<Rightarrow> if c = CHR ''-'' then - atoi_digits cs 0 else if c = CHR ''+'' then atoi_digits cs 0 else atoi_digits t 0)"

text \<open>\<open>a\<close> and \<open>b\<close> answer the calls of \<^verbatim>\<open>malloc\<close>. The usage text is left out; it comes with status 1.\<close>

definition debug_main :: "string list \<Rightarrow> haddr \<Rightarrow> haddr \<Rightarrow> heap \<Rightarrow> c_error + nat \<times> heap" where
  "debug_main argv a b h =
     (if length argv < 2 then Inr (1, h)
      else let bug = atoi (argv ! 1);
               done = (\<lambda>r. bind_e r (\<lambda>h'. Inr (0, h')))
           in if bug = 1 then done (bug_null_deref h)
              else if bug = 2 then done (bug_heap_overflow a h)
              else if bug = 3 then done (bug_leak a b h)
              else if bug = 4 then done (bug_use_after_free a h)
              else if bug = 5 then done (bug_stack_overflow h)
              else if bug = 6 then done (bug_double_free a h)
              else if bug = 7 then done (bug_uninit h)
              else Inr (1, h))"

section \<open>Lemmas\<close>

lemma bind_e_simps [simp]: "bind_e (Inl e) f = Inl e" "bind_e (Inr x) f = f x"
  by (simp_all add: bind_e_def)

lemma strncpy_bytes_length [simp]: "length (strncpy_bytes s n) = n"
  by (simp add: strncpy_bytes_def)

text \<open>The loop stores the first 16 bytes and stops at the 17th.\<close>

lemma overflow_loop_stops:
  "a \<noteq> 0 \<Longrightarrow> \<not> freed h a \<Longrightarrow> blocks h a = Some xs \<Longrightarrow> length xs \<le> n \<Longrightarrow> m \<le> length xs \<Longrightarrow> length xs < n \<Longrightarrow>
     overflow_loop [m..<n] a h = Inl Out_Of_Bounds"
proof (induction "length xs - m" arbitrary: m h xs)
  case 0
  then show ?case by (simp add: upt_conv_Cons h_set_def h_block_def)
next
  case (Suc k)
  then have "m < length xs" by simp
  let ?h = "h\<lparr>blocks := (blocks h)(a \<mapsto> xs[m := Some (char_of m)])\<rparr>"
  have "h_set a m (char_of m) h = Inr ?h" using Suc.prems \<open>m < length xs\<close> by (simp add: h_set_def h_block_def)
  moreover have "overflow_loop [Suc m..<n] a ?h = Inl Out_Of_Bounds"
    using Suc.hyps(1) [of "xs[m := Some (char_of m)]" "Suc m" ?h] Suc.hyps(2) Suc.prems \<open>m < length xs\<close> by simp
  ultimately show ?case using Suc.prems \<open>m < length xs\<close> by (simp add: upt_conv_Cons)
qed

text \<open>The error each number stands for.\<close>

definition bug_error :: "int \<Rightarrow> c_error option" where
  "bug_error n =
     (if n = 1 then Some Null_Deref else if n = 2 then Some Out_Of_Bounds else if n = 4 then Some Use_After_Free
      else if n = 5 then Some Out_Of_Bounds else if n = 6 then Some Double_Free else if n = 7 then Some Uninit_Read else None)"

lemma bug_errors:
  assumes "a \<noteq> 0"
  shows "bug_null_deref h = Inl Null_Deref" "bug_heap_overflow a h = Inl Out_Of_Bounds" "bug_use_after_free a h = Inl Use_After_Free"
    "bug_stack_overflow h = Inl Out_Of_Bounds" "bug_double_free a h = Inl Double_Free" "bug_uninit h = Inl Uninit_Read"
proof -
  have "overflow_loop [0..<40] a (h_malloc a 16 h) = Inl Out_Of_Bounds"
    by (rule overflow_loop_stops [where xs = "replicate 16 None"]) (use assms in \<open>simp_all add: h_malloc_def\<close>)
  then show "bug_heap_overflow a h = Inl Out_Of_Bounds" by (simp add: bug_heap_overflow_def)
  show "bug_use_after_free a h = Inl Use_After_Free" "bug_double_free a h = Inl Double_Free"
    using assms by (simp_all add: bug_use_after_free_def bug_double_free_def h_store_def h_block_def h_malloc_def store_bytes_def h_free_def)
qed (simp_all add: bug_null_deref_def h_block_def bug_stack_overflow_def store_bytes_def bug_uninit_def read_var_def)

definition live_blocks :: "heap \<Rightarrow> haddr set" where
  "live_blocks h = {p. blocks h p \<noteq> None \<and> \<not> freed h p}"

lemma bug_leak_result:
  assumes "a \<noteq> 0" and "b \<noteq> 0" and "a \<noteq> b" and "a \<notin> live_blocks h" and "b \<notin> live_blocks h"
  shows "\<exists>h'. bug_leak a b h = Inr h' \<and> live_blocks h' = insert a (live_blocks h)
    \<and> (\<exists>bs. blocks h' a = Some bs \<and> length bs = 1024)"
proof -
  define x where "x = put_at (replicate 1024 None) 0 (map Some (strncpy_bytes ''leaked allocation'' 1024))"
  define y where "y = put_at (replicate 4096 None) 0 (map Some (strncpy_bytes ''also leaked'' 4096))"
  let ?h = "\<lparr>blocks = (blocks h)(a \<mapsto> x, b \<mapsto> y), freed = (freed h)(a := False, b := True)\<rparr>"
  have "bug_leak a b h = Inr ?h"
    using assms(1-3) by (simp add: bug_leak_def h_store_def h_block_def h_malloc_def store_bytes_def h_free_def x_def y_def fun_upd_twist)
  moreover have "live_blocks ?h = insert a (live_blocks h)" using assms(3,5) by (auto simp: live_blocks_def)
  moreover have "length x = 1024" by (simp add: x_def)
  ultimately show ?thesis using assms(3) by auto
qed

section \<open>Properties\<close>



end
