(* ===== verification/Mem_Tracker.thy ===== *)
theory Mem_Tracker
  imports Contracts
begin

text \<open>
  Demo 5 of \<^verbatim>\<open>05_memory/memory_demo.c\<close>: the allocation tracker, a wrapper of \<^verbatim>\<open>malloc\<close> and \<^verbatim>\<open>free\<close> that keeps a
  singly linked list of records on the heap. The heap is an explicit store: the live blocks with their
  sizes, and the \<^verbatim>\<open>AllocRecord\<close>s among them. \<^verbatim>\<open>tracked_free\<close> walks the list with a pointer to a pointer, as
  the code does. What \<^verbatim>\<open>malloc\<close> answers is an argument. A dereference of NULL or of a freed record and a
  double \<^verbatim>\<open>free\<close> are errors.

  Shown: the tracker implements a plain list of live allocations, without error for any sequence of calls
  in which the record allocation succeeds, invalid and repeated frees included; what happens otherwise;
  and that the leak report lists exactly what was not freed.
\<close>

section \<open>Heap\<close>

type_synonym addr = "64 word"

abbreviation NULL :: addr where "NULL \<equiv> 0"

record AllocRecord =
  r_ptr :: addr
  r_size :: size_t
  r_next :: addr

record mem =
  live :: "addr \<Rightarrow> size_t option"
  recs :: "addr \<Rightarrow> AllocRecord option"
  g_alloc_list :: addr
  g_total_allocated :: size_t

definition mem0 :: mem where
  "mem0 = \<lparr>live = Map.empty, recs = Map.empty, g_alloc_list = NULL, g_total_allocated = 0\<rparr>"

text \<open>\<^verbatim>\<open>malloc\<close> returns the address \<open>a\<close>, NULL when there is no memory.\<close>

definition c_malloc :: "addr \<Rightarrow> size_t \<Rightarrow> mem \<Rightarrow> mem" where
  "c_malloc a n h = (if a = NULL then h else h\<lparr>live := (live h)(a \<mapsto> n)\<rparr>)"

definition c_free :: "addr \<Rightarrow> mem \<Rightarrow> c_error + mem" where
  "c_free p h =
     (if p = NULL then Inr h
      else if live h p = None then Inl Double_Free
      else Inr (h\<lparr>live := (live h)(p := None), recs := (recs h)(p := None)\<rparr>))"

definition load_rec :: "mem \<Rightarrow> addr \<Rightarrow> c_error + AllocRecord" where
  "load_rec h p = (if p = NULL then Inl Null_Deref else case recs h p of None \<Rightarrow> Inl Use_After_Free | Some r \<Rightarrow> Inr r)"

text \<open>Where an \<^verbatim>\<open>AllocRecord **\<close> points: at \<^verbatim>\<open>g_alloc_list\<close> or at the \<^verbatim>\<open>next\<close> field of a record.\<close>

datatype loc = At_Head | At_Next addr

definition load_loc :: "mem \<Rightarrow> loc \<Rightarrow> c_error + addr" where
  "load_loc h cur =
     (case cur of At_Head \<Rightarrow> Inr (g_alloc_list h)
      | At_Next a \<Rightarrow> (case load_rec h a of Inl e \<Rightarrow> Inl e | Inr r \<Rightarrow> Inr (r_next r)))"

definition store_loc :: "mem \<Rightarrow> loc \<Rightarrow> addr \<Rightarrow> c_error + mem" where
  "store_loc h cur v =
     (case cur of At_Head \<Rightarrow> Inr (h\<lparr>g_alloc_list := v\<rparr>)
      | At_Next a \<Rightarrow> (case load_rec h a of Inl e \<Rightarrow> Inl e | Inr r \<Rightarrow> Inr (h\<lparr>recs := (recs h)(a \<mapsto> r\<lparr>r_next := v\<rparr>)\<rparr>)))"

section \<open>The tracker\<close>

text \<open>\<^verbatim>\<open>sizeof(AllocRecord)\<close> is 24. \<open>a\<close> and \<open>b\<close> are the answers to the two calls of \<^verbatim>\<open>malloc\<close>.\<close>

definition tracked_malloc :: "addr \<Rightarrow> addr \<Rightarrow> size_t \<Rightarrow> mem \<Rightarrow> c_error + addr \<times> mem" where
  "tracked_malloc a b n h =
     (let h1 = c_malloc a n h
      in if a = NULL then Inr (NULL, h1)
         else let h2 = c_malloc b 24 h1
              in if b = NULL then Inl Null_Deref
                 else Inr (a, h2\<lparr>recs := (recs h2)(b \<mapsto> \<lparr>r_ptr = a, r_size = n, r_next = g_alloc_list h2\<rparr>),
                                 g_alloc_list := b, g_total_allocated := g_total_allocated h2 + n\<rparr>))"

definition unlink_rec :: "addr \<Rightarrow> loc \<Rightarrow> addr \<Rightarrow> AllocRecord \<Rightarrow> mem \<Rightarrow> c_error + mem" where
  "unlink_rec ptr cur tmp r h =
     (case store_loc (h\<lparr>g_total_allocated := g_total_allocated h - r_size r\<rparr>) cur (r_next r) of
        Inl e \<Rightarrow> Inl e
      | Inr h1 \<Rightarrow> (case c_free tmp h1 of Inl e \<Rightarrow> Inl e | Inr h2 \<Rightarrow> c_free ptr h2))"

text \<open>The loop of \<^verbatim>\<open>tracked_free\<close>; \<open>True\<close> when the warning was printed, \<open>None\<close> when the loop does not end.\<close>

partial_function (option) tracked_free_loop :: "addr \<Rightarrow> loc \<Rightarrow> mem \<Rightarrow> (c_error + bool \<times> mem) option" where
  "tracked_free_loop ptr cur h =
     (case load_loc h cur of
        Inl e \<Rightarrow> Some (Inl e)
      | Inr p \<Rightarrow>
          if p = NULL then Some (Inr (True, h))
          else (case load_rec h p of
                  Inl e \<Rightarrow> Some (Inl e)
                | Inr r \<Rightarrow>
                    if r_ptr r = ptr
                    then Some (case unlink_rec ptr cur p r h of Inl e \<Rightarrow> Inl e | Inr h' \<Rightarrow> Inr (False, h'))
                    else tracked_free_loop ptr (At_Next p) h))"

definition tracked_free :: "addr \<Rightarrow> mem \<Rightarrow> (c_error + bool \<times> mem) option" where
  "tracked_free ptr h = tracked_free_loop ptr At_Head h"

partial_function (option) leak_lines :: "addr \<Rightarrow> mem \<Rightarrow> (c_error + (addr \<times> size_t) list) option" where
  "leak_lines p h =
     (if p = NULL then Some (Inr [])
      else (case load_rec h p of
              Inl e \<Rightarrow> Some (Inl e)
            | Inr r \<Rightarrow>
                Option.bind (leak_lines (r_next r) h)
                  (\<lambda>x. Some (case x of Inl e \<Rightarrow> Inl e | Inr ls \<Rightarrow> Inr ((r_ptr r, r_size r) # ls)))))"

text \<open>\<open>None\<close> inside for "No leaks detected", otherwise the listed blocks and the total.\<close>

definition check_leaks :: "mem \<Rightarrow> (c_error + ((addr \<times> size_t) list \<times> size_t) option) option" where
  "check_leaks h =
     (if g_alloc_list h = NULL then Some (Inr None)
      else (case leak_lines (g_alloc_list h) h of
              None \<Rightarrow> None
            | Some (Inl e) \<Rightarrow> Some (Inl e)
            | Some (Inr ls) \<Rightarrow> Some (Inr (Some (ls, g_total_allocated h)))))"

section \<open>List segments and the invariant\<close>

fun seg :: "(addr \<Rightarrow> AllocRecord option) \<Rightarrow> addr \<Rightarrow> (addr \<times> AllocRecord) list \<Rightarrow> addr \<Rightarrow> bool" where
  "seg rs p [] q = (p = q)"
| "seg rs p ((a, r) # xs) q = (p = a \<and> a \<noteq> NULL \<and> rs a = Some r \<and> seg rs (r_next r) xs q)"

definition entries :: "(addr \<times> AllocRecord) list \<Rightarrow> (addr \<times> size_t) list" where
  "entries xs = map (\<lambda>(a, r). (r_ptr r, r_size r)) xs"

definition blocks_ok :: "(addr \<Rightarrow> size_t option) \<Rightarrow> (addr \<times> AllocRecord) list \<Rightarrow> bool" where
  "blocks_ok lv xs \<longleftrightarrow> (\<forall>(a, r) \<in> set xs. lv a = Some 24 \<and> r_ptr r \<noteq> NULL \<and> lv (r_ptr r) = Some (r_size r))"

definition chain_inv :: "mem \<Rightarrow> (addr \<times> AllocRecord) list \<Rightarrow> bool" where
  "chain_inv h xs \<longleftrightarrow> seg (recs h) (g_alloc_list h) xs NULL
     \<and> distinct (map fst xs @ map fst (entries xs)) \<and> blocks_ok (live h) xs
     \<and> g_total_allocated h = sum_list (map snd (entries xs))"

text \<open>The heap holds the tracked allocations \<open>es\<close>, the latest first.\<close>

definition tracks :: "mem \<Rightarrow> (addr \<times> size_t) list \<Rightarrow> bool" where
  "tracks h es \<longleftrightarrow> (\<exists>xs. chain_inv h xs \<and> es = entries xs)"

section \<open>Lemmas\<close>

lemma entries_simps [simp]:
  "entries [] = []" "entries ((a, r) # xs) = (r_ptr r, r_size r) # entries xs" "entries (xs @ ys) = entries xs @ entries ys"
  by (simp_all add: entries_def)

lemma seg_append: "seg rs p (xs @ ys) q \<longleftrightarrow> (\<exists>m. seg rs p xs m \<and> seg rs m ys q)"
  by (induction rs p xs q rule: seg.induct) auto

lemma seg_upd: "a \<notin> fst ` set xs \<Longrightarrow> seg (rs(a := v)) p xs q = seg rs p xs q"
  by (induction rs p xs q rule: seg.induct) auto

lemma seg_addrs: "seg rs p xs q \<Longrightarrow> (a, r) \<in> set xs \<Longrightarrow> a \<noteq> NULL \<and> rs a = Some r"
  by (induction rs p xs q rule: seg.induct) auto

lemma blocks_upd:
  "blocks_ok lv xs \<Longrightarrow> p \<notin> fst ` set xs \<Longrightarrow> p \<notin> fst ` set (entries xs) \<Longrightarrow> blocks_ok (lv(p := v)) xs"
  by (force simp: blocks_ok_def entries_def)

text \<open>Where \<^verbatim>\<open>cur\<close> points after the records \<open>pre\<close> have been passed, and the list with the link changed there.\<close>

definition loc_after :: "(addr \<times> AllocRecord) list \<Rightarrow> loc" where
  "loc_after pre = (if pre = [] then At_Head else At_Next (fst (last pre)))"

definition relink :: "(addr \<times> AllocRecord) list \<Rightarrow> addr \<Rightarrow> (addr \<times> AllocRecord) list" where
  "relink pre q = (if pre = [] then [] else butlast pre @ [(fst (last pre), (snd (last pre))\<lparr>r_next := q\<rparr>)])"

lemma load_rec_seg: "chain_inv h xs \<Longrightarrow> (a, r) \<in> set xs \<Longrightarrow> load_rec h a = Inr r"
  using seg_addrs by (fastforce simp: chain_inv_def load_rec_def)

lemma chain_at: "chain_inv h (xs @ (a, r) # ys) \<Longrightarrow> load_rec h a = Inr r \<and> a \<noteq> NULL"
  by (auto simp: chain_inv_def seg_append load_rec_def)

lemma load_loc_after:
  assumes "chain_inv h (pre @ suf)"
  shows "load_loc h (loc_after pre) = Inr (if suf = [] then NULL else fst (hd suf))"
proof -
  obtain m where m: "seg (recs h) (g_alloc_list h) pre m" "seg (recs h) m suf NULL"
    using assms by (auto simp: chain_inv_def seg_append)
  have suf: "m = (if suf = [] then NULL else fst (hd suf))" using m(2) by (cases suf) auto
  show ?thesis
  proof (cases pre rule: rev_cases)
    case Nil
    then show ?thesis using m(1) suf by (simp add: loc_after_def load_loc_def)
  next
    case (snoc pre' x)
    obtain b rb where x: "x = (b, rb)" by (cases x)
    have "load_rec h b = Inr rb" using assms snoc x by (intro load_rec_seg) auto
    moreover have "r_next rb = m" using m(1) snoc x by (auto simp: seg_append)
    ultimately show ?thesis using snoc x suf by (simp add: loc_after_def load_loc_def)
  qed
qed

lemma relink_keeps [simp]: "map fst (relink pre q) = map fst pre" "entries (relink pre q) = entries pre"
  by (cases pre rule: rev_cases; auto simp: relink_def split: prod.splits)+

lemma relink_blocks: "blocks_ok lv (relink pre q @ rest) = blocks_ok lv (pre @ rest)"
  by (cases pre rule: rev_cases) (auto simp: relink_def blocks_ok_def)

lemma store_loc_after:
  assumes "chain_inv h (pre @ (a, r) # rest)"
  shows "\<exists>h1. store_loc (h\<lparr>g_total_allocated := t\<rparr>) (loc_after pre) (r_next r) = Inr h1
     \<and> seg (recs h1) (g_alloc_list h1) (relink pre (r_next r) @ rest) NULL \<and> live h1 = live h \<and> g_total_allocated h1 = t"
proof (cases pre rule: rev_cases)
  case Nil
  then show ?thesis using assms by (auto simp: chain_inv_def loc_after_def store_loc_def relink_def)
next
  case (snoc pre' x)
  obtain b rb where x: "x = (b, rb)" by (cases x)
  have load: "load_rec h b = Inr rb" using assms snoc x by (intro load_rec_seg) auto
  have "distinct (map fst (pre' @ (b, rb) # (a, r) # rest))" using assms snoc x by (auto simp: chain_inv_def)
  then have "b \<notin> fst ` set pre'" "b \<notin> fst ` set rest" by auto
  moreover have "seg (recs h) (g_alloc_list h) pre' b" "b \<noteq> NULL" "seg (recs h) (r_next r) rest NULL"
    using assms snoc x by (auto simp: chain_inv_def seg_append)
  ultimately show ?thesis
    using load snoc x by (auto simp: loc_after_def store_loc_def load_rec_def relink_def seg_append seg_upd)
qed

lemma unlink_ok:
  assumes inv: "chain_inv h (pre @ (a, r) # rest)"
  shows "\<exists>h'. unlink_rec (r_ptr r) (loc_after pre) a r h = Inr h' \<and> chain_inv h' (relink pre (r_next r) @ rest)"
proof -
  let ?xs = "relink pre (r_next r) @ rest" and ?t = "g_total_allocated h - r_size r"
  obtain h1 where h1: "store_loc (h\<lparr>g_total_allocated := ?t\<rparr>) (loc_after pre) (r_next r) = Inr h1"
      "seg (recs h1) (g_alloc_list h1) ?xs NULL" "live h1 = live h" "g_total_allocated h1 = ?t"
    using store_loc_after [OF inv] by blast
  have d: "distinct (map fst (pre @ (a, r) # rest) @ map fst (entries (pre @ (a, r) # rest)))" using inv by (simp add: chain_inv_def)
  have a: "a \<noteq> NULL" "a \<noteq> r_ptr r" "r_ptr r \<noteq> NULL" "live h a = Some 24" "live h (r_ptr r) = Some (r_size r)"
    using inv d by (auto simp: chain_inv_def blocks_ok_def seg_append)
  have keys: "fst ` set ?xs = fst ` set (pre @ rest)" "fst ` set (entries ?xs) = fst ` set (entries (pre @ rest))"
    by (metis list.set_map map_append relink_keeps(1)) simp
  have out: "a \<notin> fst ` set ?xs" "r_ptr r \<notin> fst ` set ?xs" "a \<notin> fst ` set (entries ?xs)" "r_ptr r \<notin> fst ` set (entries ?xs)"
    unfolding keys using d by auto
  define h' where "h' = h1\<lparr>live := (live h)(a := None, r_ptr r := None), recs := (recs h1)(a := None, r_ptr r := None)\<rparr>"
  have "unlink_rec (r_ptr r) (loc_after pre) a r h = Inr h'"
    using h1 a by (simp add: unlink_rec_def c_free_def h'_def)
  moreover have "blocks_ok (live h) ?xs" using inv by (simp add: chain_inv_def relink_blocks) (simp add: blocks_ok_def)
  then have "blocks_ok (live h') ?xs" using out by (simp add: h'_def blocks_upd)
  moreover have "seg (recs h') (g_alloc_list h') ?xs NULL" using h1(2) out by (simp add: h'_def seg_upd)
  moreover have "g_total_allocated h' = sum_list (map snd (entries ?xs))"
    using h1(4) inv by (simp add: h'_def chain_inv_def)
  moreover have "distinct (map fst ?xs @ map fst (entries ?xs))" using d by auto
  ultimately show ?thesis by (auto simp: chain_inv_def)
qed

lemma free_loop_skip:
  assumes "chain_inv h (pre @ (b, rb) # suf)" and "r_ptr rb \<noteq> ptr"
  shows "tracked_free_loop ptr (loc_after pre) h = tracked_free_loop ptr (loc_after (pre @ [(b, rb)])) h"
  using assms(2) chain_at [OF assms(1)] load_loc_after [OF assms(1)]
  by (subst tracked_free_loop.simps) (simp add: loc_after_def [of "pre @ [(b, rb)]"])

text \<open>The loop: the first record for the pointer is removed; without one the warning is printed.\<close>

lemma free_loop_found:
  "chain_inv h (pre @ ys @ (a, r) # rest) \<Longrightarrow> r_ptr r = ptr \<Longrightarrow> ptr \<notin> fst ` set (entries ys) \<Longrightarrow>
     \<exists>h'. tracked_free_loop ptr (loc_after pre) h = Some (Inr (False, h'))
        \<and> chain_inv h' (relink (pre @ ys) (r_next r) @ rest)"
proof (induction ys arbitrary: pre)
  case Nil
  then have "load_rec h a = Inr r \<and> a \<noteq> NULL" using chain_at by simp
  then show ?case
    using Nil unlink_ok [of h pre a r rest] load_loc_after [of h pre "(a, r) # rest"]
    by (subst tracked_free_loop.simps) auto
next
  case (Cons y ys)
  obtain b rb where y: "y = (b, rb)" by (cases y)
  then show ?case using Cons.IH [of "pre @ [y]"] Cons.prems free_loop_skip [of h pre b rb _ ptr] by auto
qed

lemma free_loop_missing:
  "chain_inv h (pre @ ys) \<Longrightarrow> ptr \<notin> fst ` set (entries ys) \<Longrightarrow>
     tracked_free_loop ptr (loc_after pre) h = Some (Inr (True, h))"
proof (induction ys arbitrary: pre)
  case Nil
  then show ?case using load_loc_after [of h pre "[]"] by (subst tracked_free_loop.simps) simp
next
  case (Cons y ys)
  obtain b rb where y: "y = (b, rb)" by (cases y)
  then show ?case using Cons.IH [of "pre @ [y]"] Cons.prems free_loop_skip [of h pre b rb _ ptr] by auto
qed

lemma entries_filter_out: "ptr \<notin> fst ` set es \<Longrightarrow> filter (\<lambda>e. fst e \<noteq> ptr) es = es"
  by (force simp: filter_id_conv)

lemma tracked_free_ok:
  assumes "tracks h es"
  shows "\<exists>h'. tracked_free ptr h = Some (Inr (ptr \<notin> fst ` set es, h')) \<and> tracks h' (filter (\<lambda>e. fst e \<noteq> ptr) es)"
proof -
  obtain xs where xs: "chain_inv h xs" "es = entries xs" using assms by (auto simp: tracks_def)
  show ?thesis
  proof (cases "ptr \<in> fst ` set es")
    case False
    then have "tracked_free ptr h = Some (Inr (True, h))"
      using free_loop_missing [of h "[]" xs ptr] xs by (simp add: tracked_free_def loc_after_def)
    then show ?thesis using False assms by (simp add: entries_filter_out)
  next
    case True
    then obtain a r where "(a, r) \<in> set xs" "r_ptr r = ptr" using xs by (auto simp: entries_def)
    then obtain ys rest where split: "xs = ys @ (a, r) # rest" by (meson split_list)
    have d: "distinct (map fst (entries xs))" using xs by (simp add: chain_inv_def)
    then have ys: "ptr \<notin> fst ` set (entries ys)" and rest: "ptr \<notin> fst ` set (entries rest)"
      using split \<open>r_ptr r = ptr\<close> by auto
    then obtain h' where h': "tracked_free ptr h = Some (Inr (False, h'))" "chain_inv h' (relink ys (r_next r) @ rest)"
      using free_loop_found [of h "[]" ys a r rest ptr] xs(1) split \<open>r_ptr r = ptr\<close>
      by (auto simp: tracked_free_def loc_after_def)
    have "filter (\<lambda>e. fst e \<noteq> ptr) es = entries (relink ys (r_next r) @ rest)"
      using xs(2) split \<open>r_ptr r = ptr\<close> ys rest by (simp add: entries_filter_out)
    then have "tracks h' (filter (\<lambda>e. fst e \<noteq> ptr) es)" using h'(2) by (auto simp: tracks_def)
    then show ?thesis using h'(1) True by auto
  qed
qed

lemma fresh_outside:
  "chain_inv h xs \<Longrightarrow> live h a = None \<Longrightarrow> a \<notin> fst ` set xs \<and> a \<notin> fst ` set (entries xs)"
  by (force simp: chain_inv_def blocks_ok_def entries_def)

lemma tracked_malloc_ok:
  assumes "tracks h es" and "a \<noteq> NULL" "b \<noteq> NULL" "a \<noteq> b" "live h a = None" "live h b = None"
  shows "\<exists>h'. tracked_malloc a b n h = Inr (a, h') \<and> tracks h' ((a, n) # es)"
proof -
  obtain xs where xs: "chain_inv h xs" "es = entries xs" using assms(1) by (auto simp: tracks_def)
  let ?r = "\<lparr>r_ptr = a, r_size = n, r_next = g_alloc_list h\<rparr>"
  let ?h = "h\<lparr>live := (live h)(a \<mapsto> n, b \<mapsto> 24), recs := (recs h)(b \<mapsto> ?r), g_alloc_list := b,
              g_total_allocated := g_total_allocated h + n\<rparr>"
  have out: "a \<notin> fst ` set xs" "a \<notin> fst ` set (entries xs)" "b \<notin> fst ` set xs" "b \<notin> fst ` set (entries xs)"
    using fresh_outside [OF xs(1)] assms by auto
  have "blocks_ok ((live h)(a \<mapsto> n, b \<mapsto> 24)) xs" using xs(1) out by (auto simp: chain_inv_def intro!: blocks_upd)
  then have "blocks_ok ((live h)(a \<mapsto> n, b \<mapsto> 24)) ((b, ?r) # xs)" using assms by (simp add: blocks_ok_def)
  then have "chain_inv ?h ((b, ?r) # xs)"
    using xs(1) out assms(3,4) by (auto simp: chain_inv_def seg_upd)
  then have "tracks ?h ((a, n) # es)" using xs(2) by (force simp: tracks_def)
  moreover have "tracked_malloc a b n h = Inr (a, ?h)"
    using assms by (simp add: tracked_malloc_def c_malloc_def Let_def)
  ultimately show ?thesis by blast
qed

lemma leak_lines_ok: "seg (recs h) p xs NULL \<Longrightarrow> leak_lines p h = Some (Inr (entries xs))"
proof (induction xs arbitrary: p)
  case Nil
  then show ?case by (subst leak_lines.simps) simp
next
  case (Cons x xs)
  obtain a r where "x = (a, r)" by (cases x)
  with Cons show ?case by (subst leak_lines.simps) (simp add: load_rec_def)
qed

lemma check_leaks_ok:
  assumes "tracks h es"
  shows "check_leaks h = Some (Inr (if es = [] then None else Some (es, sum_list (map snd es))))"
proof -
  obtain xs where xs: "chain_inv h xs" "es = entries xs" using assms by (auto simp: tracks_def)
  have "leak_lines (g_alloc_list h) h = Some (Inr (entries xs))" using xs(1) by (intro leak_lines_ok) (simp add: chain_inv_def)
  moreover have "g_alloc_list h = NULL \<longleftrightarrow> es = []" using xs by (cases xs) (auto simp: chain_inv_def)
  ultimately show ?thesis using xs by (simp add: check_leaks_def chain_inv_def)
qed

section \<open>The tracker as a list of live allocations\<close>

datatype mem_op = Op_malloc addr addr size_t | Op_free addr

datatype mem_out = Out_ptr addr | Out_free bool | Out_error c_error | Out_hang

definition mem_step :: "mem \<Rightarrow> mem_op \<Rightarrow> mem_out \<times> mem" where
  "mem_step h op =
     (case op of
        Op_malloc a b n \<Rightarrow> (case tracked_malloc a b n h of Inl e \<Rightarrow> (Out_error e, h) | Inr (p, h') \<Rightarrow> (Out_ptr p, h'))
      | Op_free p \<Rightarrow> (case tracked_free p h of
                       None \<Rightarrow> (Out_hang, h)
                     | Some (Inl e) \<Rightarrow> (Out_error e, h)
                     | Some (Inr (w, h')) \<Rightarrow> (Out_free w, h')))"

definition list_step :: "(addr \<times> size_t) list \<Rightarrow> mem_op \<Rightarrow> mem_out \<times> (addr \<times> size_t) list" where
  "list_step es op =
     (case op of
        Op_malloc a b n \<Rightarrow> (Out_ptr a, if a = NULL then es else (a, n) # es)
      | Op_free p \<Rightarrow> (Out_free (p \<notin> fst ` set es), filter (\<lambda>e. fst e \<noteq> p) es))"

text \<open>\<^verbatim>\<open>malloc\<close> answers with blocks that are not in use; the record allocation succeeds.\<close>

definition mem_ok :: "mem \<Rightarrow> mem_op \<Rightarrow> bool" where
  "mem_ok h op =
     (case op of
        Op_malloc a b n \<Rightarrow> a = NULL \<or> (b \<noteq> NULL \<and> a \<noteq> b \<and> live h a = None \<and> live h b = None)
      | Op_free p \<Rightarrow> True)"

interpretation tracker: op_refinement mem_step list_step tracks mem_ok
proof (unfold_locales, goal_cases)
  case (1 h es op)
  show ?case
  proof (cases op)
    case (Op_malloc a b n)
    show ?thesis
    proof (cases "a = NULL")
      case True
      with Op_malloc 1(1) show ?thesis by (simp add: mem_step_def list_step_def tracked_malloc_def c_malloc_def)
    next
      case False
      with Op_malloc 1 tracked_malloc_ok [of h es a b n] show ?thesis
        by (auto simp: mem_step_def list_step_def mem_ok_def)
    qed
  next
    case (Op_free p)
    with tracked_free_ok [OF 1(1), of p] show ?thesis by (auto simp: mem_step_def list_step_def)
  qed
qed

lemma mem0_tracks: "tracks mem0 []"
  by (auto simp: tracks_def chain_inv_def mem0_def blocks_ok_def intro!: exI [of _ "[]"])

section \<open>The demo\<close>

text \<open>A computation that may fail, may not end, and is followed by another.\<close>

definition bind_me :: "(c_error + 'a) option \<Rightarrow> ('a \<Rightarrow> (c_error + 'b) option) \<Rightarrow> (c_error + 'b) option" where
  "bind_me x f = (case x of None \<Rightarrow> None | Some (Inl e) \<Rightarrow> Some (Inl e) | Some (Inr v) \<Rightarrow> f v)"

lemma bind_me_simps [simp]: "bind_me None f = None" "bind_me (Some (Inl e)) f = Some (Inl e)" "bind_me (Some (Inr v)) f = f v"
  by (simp_all add: bind_me_def)

text \<open>The lines of \<^verbatim>\<open>check_leaks\<close> and the warning of \<^verbatim>\<open>tracked_free\<close>; \<open>pp\<close> is what \<^verbatim>\<open>%p\<close> prints.\<close>

definition leak_report :: "(addr \<Rightarrow> string) \<Rightarrow> ((addr \<times> size_t) list \<times> size_t) option \<Rightarrow> string list" where
  "leak_report pp r =
     (case r of
        None \<Rightarrow> [''No leaks detected. '' @ check_mark]
      | Some (ls, leaked) \<Rightarrow>
          ''LEAKS DETECTED:'' # map (\<lambda>(p, n). ''  '' @ pp p @ ''  '' @ dec_nat (unat n) @ '' bytes'') ls
            @ [''Total leaked: '' @ dec_nat (unat leaked) @ '' bytes''])"

definition free_warning :: "(addr \<Rightarrow> string) \<Rightarrow> addr \<Rightarrow> bool \<Rightarrow> string list" where
  "free_warning pp p warn =
     (if warn then [''WARNING: tracked_free('' @ pp p @ '') '' @ em_dash @ '' not found! Double-free?''] else [])"

text \<open>
  \<^verbatim>\<open>demo_leak_tracking\<close>; each pair has the two addresses \<^verbatim>\<open>malloc\<close> returns for a block and its record. The contents of the blocks are
  not modelled: the store into the third one only fails if there is none.
\<close>

definition demo_leak_tracking ::
    "(addr \<Rightarrow> string) \<Rightarrow> addr \<times> addr \<Rightarrow> addr \<times> addr \<Rightarrow> addr \<times> addr \<Rightarrow> mem \<Rightarrow> (c_error + string list \<times> mem) option" where
  "demo_leak_tracking pp ma mb ml h =
     bind_me (Some (tracked_malloc (fst ma) (snd ma) 128 h)) (\<lambda>(a, h).
     bind_me (Some (tracked_malloc (fst mb) (snd mb) 256 h)) (\<lambda>(b, h).
     bind_me (Some (tracked_malloc (fst ml) (snd ml) 64 h)) (\<lambda>(leak, h).
     if leak = NULL then Some (Inl Null_Deref)
     else bind_me (tracked_free a h) (\<lambda>(warn_a, h).
          bind_me (tracked_free b h) (\<lambda>(warn_b, h).
          bind_me (check_leaks h) (\<lambda>r.
            Some (Inr (banner_lines ''Demo 5: Custom Malloc Wrapper (Leak Tracking)''
              @ free_warning pp a warn_a @ free_warning pp b warn_b
              @ [''After freeing a and b (64-byte allocation is leaked):''] @ leak_report pp r, h))))))))"

section \<open>Properties\<close>

text \<open>
  C21. The allocation tracker refines a plain list: for every sequence of \<^verbatim>\<open>tracked_malloc\<close> and \<^verbatim>\<open>tracked_free\<close>,
  frees of unknown or already freed pointers included, every call returns and answers as the list does
  (the warning exactly for a pointer that is not tracked), nothing is dereferenced or freed wrongly, and
  \<^verbatim>\<open>check_leaks\<close> then prints exactly the allocations that were not freed with their total size.
\<close>

theorem tracker_refines_list:
  assumes "allowed mem_step mem_ok mem0 ops"
  shows "fst (outputs mem_step mem0 ops) = fst (outputs list_step [] ops)
     \<and> check_leaks (snd (outputs mem_step mem0 ops)) =
         (let es = snd (outputs list_step [] ops)
          in Some (Inr (if es = [] then None else Some (es, sum_list (map snd es)))))"
  using tracker.simulate_run [OF mem0_tracks assms] check_leaks_ok by (auto simp: Let_def)

theorem tracker_refines_list_witness:
  "check_leaks (snd (outputs mem_step mem0 [Op_malloc 4096 8192 128, Op_malloc 12288 16384 64, Op_free 4096, Op_free 4096]))
     = Some (Inr (Some ([(12288, 64)], 64)))"
proof -
  let ?ops = "[Op_malloc 4096 8192 128, Op_malloc 12288 16384 64, Op_free 4096, Op_free 4096]"
  have "allowed mem_step mem_ok mem0 ?ops"
    by (simp add: mem_ok_def mem_step_def tracked_malloc_def c_malloc_def mem0_def)
  then show ?thesis using tracker_refines_list [of ?ops] by (simp add: list_step_def)
qed

text \<open>
  \<^verbatim>\<open>tracked_malloc\<close> on its failure branches: without memory for the block it returns NULL and changes
  nothing; without memory for the record, which the code does not check, it dereferences NULL.
\<close>

theorem tracked_malloc_failures:
  "tracked_malloc NULL b n h = Inr (NULL, h) \<and> (a \<noteq> NULL \<longrightarrow> tracked_malloc a NULL n h = Inl Null_Deref)"
  by (simp add: tracked_malloc_def c_malloc_def)

theorem tracked_malloc_failures_witness: "tracked_malloc 4096 NULL 16 mem0 = Inl Null_Deref"
  using tracked_malloc_failures [of NULL 16 mem0 4096] by simp

text \<open>
  \<^verbatim>\<open>demo_leak_tracking\<close> prints no warning and reports exactly its 64-byte block as leaked, whatever
  distinct addresses \<^verbatim>\<open>malloc\<close> returns.
\<close>

lemma tracked_malloc_live: "tracked_malloc a b n h = Inr (a, h') \<Longrightarrow> a \<noteq> NULL \<Longrightarrow> live h' = (live h)(a \<mapsto> n, b \<mapsto> 24)"
  by (auto simp: tracked_malloc_def c_malloc_def Let_def split: if_splits)

theorem demo_leak_tracking_report:
  assumes "distinct [a, ra, b, rb, l, rl]" and "NULL \<notin> {a, ra, b, rb, l, rl}"
  shows "\<exists>h. demo_leak_tracking pp (a, ra) (b, rb) (l, rl) mem0 =
       Some (Inr (banner_lines ''Demo 5: Custom Malloc Wrapper (Leak Tracking)''
         @ [''After freeing a and b (64-byte allocation is leaked):'', ''LEAKS DETECTED:'', ''  '' @ pp l @ ''  64 bytes'', ''Total leaked: 64 bytes''], h))
     \<and> tracks h [(l, 64)]"
proof -
  have e: "live mem0 = Map.empty" by (simp add: mem0_def)
  obtain h1 where h1: "tracked_malloc a ra 128 mem0 = Inr (a, h1)" "tracks h1 [(a, 128)]"
    using tracked_malloc_ok [OF mem0_tracks, of a ra 128] assms e by auto
  have l1: "live h1 = [a \<mapsto> 128, ra \<mapsto> 24]" using tracked_malloc_live [OF h1(1)] assms e by auto
  obtain h2 where h2: "tracked_malloc b rb 256 h1 = Inr (b, h2)" "tracks h2 [(b, 256), (a, 128)]"
    using tracked_malloc_ok [OF h1(2), of b rb 256] assms l1 by auto
  have l2: "live h2 = [a \<mapsto> 128, ra \<mapsto> 24, b \<mapsto> 256, rb \<mapsto> 24]" using tracked_malloc_live [OF h2(1)] assms l1 by auto
  obtain h3 where h3: "tracked_malloc l rl 64 h2 = Inr (l, h3)" "tracks h3 [(l, 64), (b, 256), (a, 128)]"
    using tracked_malloc_ok [OF h2(2), of l rl 64] assms l2 by auto
  obtain h4 where h4: "tracked_free a h3 = Some (Inr (False, h4))" "tracks h4 [(l, 64), (b, 256)]"
    using tracked_free_ok [OF h3(2), of a] assms by auto
  obtain h5 where h5: "tracked_free b h4 = Some (Inr (False, h5))" "tracks h5 [(l, 64)]"
    using tracked_free_ok [OF h4(2), of b] assms by auto
  have 64: "dec_nat 64 = ''64''" by (simp add: dec_nat.simps [of 64] dec_nat.simps [of 6] char_of_def bit_simps)
  have "check_leaks h5 = Some (Inr (Some ([(l, 64)], 64)))" using check_leaks_ok [OF h5(2)] by simp
  then show ?thesis using h1 h2 h3 h4 h5 assms
    by (simp add: demo_leak_tracking_def leak_report_def free_warning_def 64)
qed

theorem demo_leak_tracking_report_witness:
  "\<exists>ls h. demo_leak_tracking pp (4096, 8192) (12288, 16384) (20480, 24576) mem0 = Some (Inr (ls, h)) \<and> last ls = ''Total leaked: 64 bytes''"
  using demo_leak_tracking_report [of 4096 8192 12288 16384 20480 24576 pp] by force

text \<open>When there is no memory for the third block the demo stores through NULL; \<close>

lemma demo_leak_tracking_null:
  assumes "tracked_malloc a ra 128 h = Inr (a, h1)" and "tracked_malloc b rb 256 h1 = Inr (b, h2)"
  shows "demo_leak_tracking pp (a, ra) (b, rb) (NULL, rl) h = Some (Inl Null_Deref)"
  using assms by (simp add: demo_leak_tracking_def tracked_malloc_def c_malloc_def)

end
