(* ===== verification/Mem_Demos.thy ===== *)
theory Mem_Demos
  imports Debug_Demo Mem_Tracker
begin

text \<open>
  Demos 1 to 4 and \<^verbatim>\<open>main\<close> of \<^verbatim>\<open>05_memory/memory_demo.c\<close> (demo 5 is the theory \<open>Mem_Tracker\<close>): the address layout, an anonymous mapping, a
  file seen through a shared mapping, aligned allocation. A mapping is a region of bytes with a protection; a shared
  mapping of a file is the file's contents under another name. The kernel's and the library's decisions are
  arguments.

  Shown: what each demo prints, that it gives back what it took, where a failing call is not noticed, and what the whole program leaves
  allocated.
\<close>

section \<open>Variables of the program\<close>

definition bss_var :: int where "bss_var = 0"

definition data_var :: int where "data_var = 42"

definition rodata_var :: int where "rodata_var = 100"

section \<open>Address layout\<close>

text \<open>
  \<open>a\<close> is the answer of \<^verbatim>\<open>malloc\<close>, \<open>maps\<close> what \<^verbatim>\<open>fgets\<close> delivers from \<^verbatim>\<open>/proc/self/maps\<close>, if that can be opened. \<open>at\<close> gives the printed address of
  a named object, \<open>pp\<close> what \<^verbatim>\<open>%p\<close> prints for a pointer.
\<close>

definition layout_lines :: "(string \<Rightarrow> string) \<Rightarrow> (haddr \<Rightarrow> string) \<Rightarrow> haddr \<Rightarrow> string list" where
  "layout_lines at pp a =
     [''  .text  (code)    : '' @ at ''demo_address_layout'' @ ''  (function address)'',
      ''  .rodata          : '' @ at ''rodata_var'' @ ''  (const value='' @ dec_int rodata_var @ '')'',
      ''  .data  (init'' @ [CHR 0x27] @ ''d)  : '' @ at ''data_var'' @ ''  (value='' @ dec_int data_var @ '')'',
      ''  .bss   (zero)    : '' @ at ''bss_var'' @ ''  (value='' @ dec_int bss_var @ '')'',
      ''  heap             : '' @ pp a,
      ''  stack            : '' @ at ''stack_var'',
      ''  /proc/self/maps (first 8 lines):'']"

definition demo_address_layout ::
    "(string \<Rightarrow> string) \<Rightarrow> (haddr \<Rightarrow> string) \<Rightarrow> haddr \<Rightarrow> string list option \<Rightarrow> heap \<Rightarrow> c_error + string list \<times> heap" where
  "demo_address_layout at pp a maps h =
     bind_e (h_store a [CHR 0x07, NUL, NUL, NUL] (h_malloc a 4 h)) (\<lambda>h1.
       let ls = (case maps of None \<Rightarrow> [] | Some l \<Rightarrow> map (\<lambda>x. ''    '' @ x) (take 8 l))
       in bind_e (h_free a h1) (\<lambda>h2. Inr (banner_lines ''Demo 1: Address Space Layout'' @ layout_lines at pp a @ ls, h2)))"

section \<open>Anonymous mapping\<close>

record region =
  rg_bytes :: "byte list"
  rg_write :: bool
  rg_mapped :: bool

text \<open>\<^verbatim>\<open>memset\<close> over a mapping; \<open>None\<close> is the fault a store into a read-only or unmapped page raises.\<close>

definition rg_memset :: "byte \<Rightarrow> region \<Rightarrow> region option" where
  "rg_memset v r = (if rg_mapped r \<and> rg_write r then Some (r\<lparr>rg_bytes := replicate (length (rg_bytes r)) v\<rparr>) else None)"

definition rg_protect :: "bool \<Rightarrow> bool \<Rightarrow> region \<Rightarrow> region" where
  "rg_protect ok write r = (if ok then r\<lparr>rg_write := write\<rparr> else r)"

definition anon_size :: nat where
  "anon_size = 4 * 4096"

definition arrow :: string where
  "arrow = [CHR 0xE2, CHR 0x86, CHR 0x92]"

text \<open>\<open>addr\<close> is the printed address; \<open>mapped\<close>, \<open>ro\<close>, \<open>rw\<close>: whether \<^verbatim>\<open>mmap\<close> and the two calls of \<^verbatim>\<open>mprotect\<close> succeed.\<close>

definition anon_title :: string where "anon_title = ''Demo 2: mmap() '' @ em_dash @ '' Anonymous Mapping''"

definition demo_anon_mmap :: "string \<Rightarrow> bool \<Rightarrow> bool \<Rightarrow> bool \<Rightarrow> (string list \<times> region) option" where
  "demo_anon_mmap addr mapped ro rw =
     (if \<not> mapped then Some (banner_lines anon_title @ [''mmap''], \<lparr>rg_bytes = [], rg_write = False, rg_mapped = False\<rparr>)
      else let r0 = \<lparr>rg_bytes = replicate anon_size NUL, rg_write = True, rg_mapped = True\<rparr>
           in (case rg_memset CHR 0xAB r0 of
                 None \<Rightarrow> None
               | Some r1 \<Rightarrow>
                   let out = banner_lines anon_title @ [''mmap'' @ [CHR 0x27] @ ''d '' @ dec_nat anon_size @ '' bytes at '' @ addr,
                              ''Wrote 0xAB pattern across '' @ dec_nat anon_size @ '' bytes''];
                       r2 = rg_protect ro False r1;
                       out = (if ro then out @ [''mprotect '' @ arrow @ '' PROT_READ (write now would SIGSEGV)''] else out);
                       r3 = rg_protect rw True r2
                   in Some (out @ [''munmap complete''], r3\<lparr>rg_mapped := False\<rparr>)))"

section \<open>File mapping\<close>

text \<open>
  The file, if it exists, and what was printed. \<open>opened\<close>, \<open>mapped\<close> and \<open>reopened\<close> tell whether the first \<^verbatim>\<open>open\<close>, \<^verbatim>\<open>mmap\<close> and the
  second \<^verbatim>\<open>open\<close> succeed. \<open>content\<close> and \<open>change\<close> are the two texts of the code. A store through the mapping is a store into
  the file.
\<close>

abbreviation fsize :: nat where "fsize \<equiv> 4096"

definition map_content :: string where
  "map_content = ''Embedded Linux mmap file demo!''"

definition map_change :: string where
  "map_change = ''MODIFIED via mmap!''"

definition file_title :: string where "file_title = ''Demo 3: mmap() '' @ em_dash @ '' File-backed Mapping''"

definition demo_file_mmap :: "bool \<Rightarrow> bool \<Rightarrow> bool \<Rightarrow> string \<Rightarrow> string \<Rightarrow> byte list option \<Rightarrow> byte list option \<times> string list" where
  "demo_file_mmap opened mapped reopened content change f0 =
     (if \<not> opened then (f0, banner_lines file_title @ [''open''])
      else let f1 = put_at (replicate fsize NUL) 0 content
           in if \<not> mapped then (Some f1, banner_lines file_title @ [''mmap''])
              else let out1 = ''File content via mmap: '' @ quoted (cstr f1);
                       f2 = put_at f1 0 (strncpy_bytes change fsize);
                       verify = replicate 64 NUL;
                       verify = (if reopened then put_at verify 0 (take 63 f2) else verify)
                   in (None, banner_lines file_title @ [out1, ''File content after mmap write: '' @ quoted (cstr verify)]))"

section \<open>Aligned allocation\<close>

text \<open>\<open>p\<close> is what \<^verbatim>\<open>posix_memalign\<close> stores, if it succeeds, \<open>q\<close> what \<^verbatim>\<open>aligned_alloc\<close> returns.\<close>

definition aligned_line :: "haddr \<Rightarrow> haddr \<Rightarrow> string" where
  "aligned_line p n = (if p mod n = 0 then ''YES '' @ [CHR 0xE2, CHR 0x9C, CHR 0x93] else ''NO '' @ [CHR 0xE2, CHR 0x9C, CHR 0x97])"

definition align_title :: string where "align_title = ''Demo 4: Aligned Memory Allocation''"

definition demo_alignment :: "(haddr \<Rightarrow> string) \<Rightarrow> haddr option \<Rightarrow> haddr \<Rightarrow> heap \<Rightarrow> c_error + string list \<times> heap" where
  "demo_alignment pp p q h =
     (case p of
        None \<Rightarrow> Inr (banner_lines align_title @ [''posix_memalign''], h)
      | Some p \<Rightarrow>
          bind_e (h_free p (h_malloc p 1024 h)) (\<lambda>h1.
            bind_e (h_free q (h_malloc q 4096 h1)) (\<lambda>h2.
              Inr (banner_lines align_title @ [''posix_memalign(64): '' @ pp p @ ''  (aligned: '' @ aligned_line p 64 @ '')'',
                    ''aligned_alloc(4096): '' @ pp q @ ''  (aligned: '' @ aligned_line q 4096 @ '')''], h2))))"

section \<open>The program\<close>

text \<open>
  What the kernel and the library decide in the five demos. The tracker's heap is the one of the theory \<open>Mem_Tracker\<close>; the blocks of the
  other demos have been freed when it starts.
\<close>

record mem_env =
  v_at :: "string \<Rightarrow> string"
  v_pp :: "haddr \<Rightarrow> string"
  v_heap_var :: haddr
  v_maps :: "string list option"
  v_region :: string
  v_mapped :: bool
  v_ro :: bool
  v_rw :: bool
  v_opened :: bool
  v_fmapped :: bool
  v_reopened :: bool
  v_file :: "byte list option"
  v_memalign :: "haddr option"
  v_aligned :: haddr
  v_a :: "addr \<times> addr"
  v_b :: "addr \<times> addr"
  v_leak :: "addr \<times> addr"

definition memory_main :: "mem_env \<Rightarrow> heap \<Rightarrow> mem \<Rightarrow> (c_error + int \<times> string list \<times> byte list option \<times> heap \<times> mem) option" where
  "memory_main v h m =
     bind_me (Some (demo_address_layout (v_at v) (v_pp v) (v_heap_var v) (v_maps v) h)) (\<lambda>(o1, h).
     case demo_anon_mmap (v_region v) (v_mapped v) (v_ro v) (v_rw v) of
       None \<Rightarrow> Some (Inl Out_Of_Bounds)
     | Some (o2, r) \<Rightarrow>
         let (f, o3) = demo_file_mmap (v_opened v) (v_fmapped v) (v_reopened v) map_content map_change (v_file v)
         in bind_me (Some (demo_alignment (v_pp v) (v_memalign v) (v_aligned v) h)) (\<lambda>(o4, h).
            bind_me (demo_leak_tracking (v_pp v) (v_a v) (v_b v) (v_leak v) m) (\<lambda>(o5, m).
              Some (Inr (0, ''=== Embedded Linux Demo: Memory Management ==='' # o1 @ o2 @ o3 @ o4 @ o5
                @ [''[DONE] Memory demo complete.''], f, h, m)))))"

section \<open>Lemmas\<close>

lemma malloc_free_live: "a \<notin> live_blocks h \<Longrightarrow> h_free a (h_malloc a n h) = Inr h' \<Longrightarrow> live_blocks h' = live_blocks h"
  by (auto simp: h_free_def h_malloc_def live_blocks_def split: if_splits)

text \<open>The layout demo gives its block back; if \<^verbatim>\<open>malloc\<close> failed it stores through NULL.\<close>

lemma address_layout_result:
  assumes "a \<notin> live_blocks h"
  shows "if a = 0 then demo_address_layout at pp a maps h = Inl Null_Deref
    else \<exists>ls h'. demo_address_layout at pp a maps h = Inr (banner_lines ''Demo 1: Address Space Layout'' @ layout_lines at pp a @ ls, h') \<and> live_blocks h' = live_blocks h \<and> length ls \<le> 8"
  using assms
  by (auto simp: demo_address_layout_def h_store_def h_block_def h_malloc_def store_bytes_def h_free_def live_blocks_def Let_def split: option.splits)

text \<open>The anonymous mapping is writable when it is written, holds the pattern, and is unmapped in the end.\<close>

lemma anon_mmap_result:
  "\<exists>out r. demo_anon_mmap addr mapped ro rw = Some (out, r) \<and> \<not> rg_mapped r
     \<and> (mapped \<longrightarrow> rg_bytes r = replicate anon_size CHR 0xAB \<and> last out = ''munmap complete'')"
  by (simp add: demo_anon_mmap_def rg_memset_def rg_protect_def Let_def)

lemma cstr_padded: "NUL \<notin> set s \<Longrightarrow> cstr (s @ replicate n NUL) = s"
  by (cases n) (simp_all add: cstr_id)

lemma take_padded: "take n (s @ replicate m NUL) = take n s @ replicate (min (n - length s) m) NUL"
  by simp

text \<open>The two allocations are given back, and an aligned address is reported as such.\<close>

lemma alignment_result:
  assumes "p \<noteq> 0" and "q \<noteq> 0" and "p \<notin> live_blocks h" and "q \<notin> live_blocks h" and "64 dvd unat p" and "4096 dvd unat q"
  shows "\<exists>h' yes. demo_alignment pp (Some p) q h =
      Inr (banner_lines align_title @ [''posix_memalign(64): '' @ pp p @ ''  (aligned: '' @ yes @ '')'', ''aligned_alloc(4096): '' @ pp q @ ''  (aligned: '' @ yes @ '')''], h')
    \<and> live_blocks h' = live_blocks h \<and> take 3 yes = ''YES''"
proof -
  have "unat (p mod 64) = 0" "unat (q mod 4096) = 0" using assms(5,6) by (simp_all add: unat_mod_distrib)
  then have "p mod 64 = 0" "q mod 4096 = 0" by (simp_all only: unat_eq_zero)
  then show ?thesis using assms(1-4)
    by (auto simp: demo_alignment_def aligned_line_def h_malloc_def h_free_def live_blocks_def)
qed

section \<open>Properties\<close>

text \<open>
  The mapped file, for any texts without NUL: the first line shows the text written with \<^verbatim>\<open>pwrite\<close>, the second the text
  stored through the mapping (the first 63 bytes), and the file is removed. A failing \<^verbatim>\<open>mmap\<close> leaves the file behind, a failing
  second \<^verbatim>\<open>open\<close> goes unnoticed and an empty text is shown.
\<close>

theorem file_mmap_shared:
  assumes "NUL \<notin> set content" and "length content < fsize" and "NUL \<notin> set change" and "length change \<le> fsize"
  shows "demo_file_mmap True True True content change f0 =
      (None, banner_lines file_title @ [''File content via mmap: '' @ quoted content, ''File content after mmap write: '' @ quoted (take 63 change)])
    \<and> demo_file_mmap True False r content change f0 = (Some (content @ replicate (fsize - length content) NUL), banner_lines file_title @ [''mmap''])
    \<and> demo_file_mmap True True False content change f0 =
      (None, banner_lines file_title @ [''File content via mmap: '' @ quoted content, ''File content after mmap write: '' @ quoted []])"
proof -
  have f1: "put_at (replicate fsize NUL) 0 content = content @ replicate (fsize - length content) NUL"
    using assms(2) by (simp add: put_at_def)
  have f2: "put_at (content @ replicate (fsize - length content) NUL) 0 (strncpy_bytes change fsize) = change @ replicate (fsize - length change) NUL"
    using assms(2,4) by (simp add: put_at_def strncpy_bytes_def)
  have "put_at (replicate 64 NUL) 0 (take 63 (change @ replicate (fsize - length change) NUL)) =
      take 63 change @ replicate (63 - length change) NUL @ [NUL]"
    using assms(4) by (simp add: put_at_def min_def) arith
  also have "\<dots> = take 63 change @ replicate (Suc (63 - length change)) NUL" by (simp add: replicate_append_same)
  finally have v: "cstr (put_at (replicate 64 NUL) 0 (take 63 (change @ replicate (fsize - length change) NUL))) = take 63 change"
    using assms(3) by (simp only: cstr_padded) (metis cstr_padded in_set_takeD)
  have e: "cstr (replicate 64 NUL) = []" by (simp add: cstr_def eval_nat_numeral)
  show ?thesis
    using assms(1) unfolding demo_file_mmap_def Let_def if_True if_False not_False_eq_True not_True_eq_False f2 v e f1
    by (simp add: cstr_padded)
qed

theorem file_mmap_shared_witness:
  "demo_file_mmap True True True map_content map_change None =
     (None, banner_lines file_title @ [''File content via mmap: '' @ quoted map_content, ''File content after mmap write: '' @ quoted map_change])"
  using file_mmap_shared [of map_content map_change None True] by (simp add: map_content_def map_change_def)

text \<open>
  \<^verbatim>\<open>main\<close> of the memory demo, when memory is available, whatever else fails: it returns 0, all its own blocks have been
  freed, and all that is left is the 64-byte block that the last demo leaks on purpose and reports.
\<close>

theorem memory_main_leaks:
  assumes "v_heap_var v \<noteq> 0" and "v_memalign v \<noteq> Some 0" and "v_aligned v \<noteq> 0" and "live_blocks h = {}"
    and "v_a v = (a, ra)" and "v_b v = (b, rb)" and "v_leak v = (l, rl)"
    and "distinct [a, ra, b, rb, l, rl]" and "NULL \<notin> {a, ra, b, rb, l, rl}"
  shows "\<exists>out f h' m'. memory_main v h mem0 = Some (Inr (0, out @ [''[DONE] Memory demo complete.''], f, h', m'))
    \<and> live_blocks h' = {} \<and> tracks m' [(l, 64)] \<and> suffix [''LEAKS DETECTED:'', ''  '' @ v_pp v l @ ''  64 bytes'', ''Total leaked: 64 bytes''] out"
proof -
  obtain o1 h1 where 1: "demo_address_layout (v_at v) (v_pp v) (v_heap_var v) (v_maps v) h = Inr (o1, h1)" "live_blocks h1 = {}"
    using address_layout_result [of "v_heap_var v" h "v_at v" "v_pp v" "v_maps v"] assms(1,4) by auto
  obtain o2 r where 2: "demo_anon_mmap (v_region v) (v_mapped v) (v_ro v) (v_rw v) = Some (o2, r)"
    using anon_mmap_result [of "v_region v" "v_mapped v" "v_ro v" "v_rw v"] by blast
  obtain f o3 where 3: "demo_file_mmap (v_opened v) (v_fmapped v) (v_reopened v) map_content map_change (v_file v) = (f, o3)" by fastforce
  obtain o4 h4 where 4: "demo_alignment (v_pp v) (v_memalign v) (v_aligned v) h1 = Inr (o4, h4)" "live_blocks h4 = {}"
    using 1(2) assms(2,3)
    by (cases "v_memalign v") (auto simp: demo_alignment_def h_free_def h_malloc_def live_blocks_def)
  obtain h5 where 5: "demo_leak_tracking (v_pp v) (a, ra) (b, rb) (l, rl) mem0 =
       Some (Inr (banner_lines ''Demo 5: Custom Malloc Wrapper (Leak Tracking)''
         @ [''After freeing a and b (64-byte allocation is leaked):'', ''LEAKS DETECTED:'', ''  '' @ v_pp v l @ ''  64 bytes'', ''Total leaked: 64 bytes''], h5))"
      "tracks h5 [(l, 64)]"
    using demo_leak_tracking_report [OF assms(8,9)] by blast
  show ?thesis using 1 2 3 4 5 assms(5-7)
    by (simp add: memory_main_def suffix_def)
qed

end
