(* ===== verification/Spec2Isabelle.thy ===== *)
theory Spec2Isabelle
  imports Chardev_Module Chardev_Conc Hello_Module Cond_Queue Thread_Main Shm_Main
    Tcp_Net Device_Test Mains Net_Demos Pipe_Net Signals Mem_Demos
begin

text \<open>
  Embedded Linux demos: a verification development.

  \<^bold>\<open>The program.\<close> The repository is a collection of small C programs, one directory per topic: two kernel modules
  (\<^verbatim>\<open>09_kernel_module\<close>, \<^verbatim>\<open>10_device_driver\<close> with a user-space test program) and user-space demos of processes, threads, IPC,
  signals, memory, file I/O, networking, timers, debugging, GPIO and UART. The programs share no code; they interact with
  the kernel, with the C library and, where they fork or start threads, with copies of themselves. The driver test
  program interacts with the driver.

  \<^bold>\<open>The library.\<close>
  \<^item> \<open>C_Prelude\<close>: C types, error numbers, buffers, C strings, decimal printing, the errors that stand for undefined
    behaviour.
  \<^item> \<open>Contracts\<close>: the interfaces as locales. \<open>item_stream\<close> (what goes in comes out in order), \<open>op_refinement\<close> (a sequence of operations
    against an abstract specification), \<open>module_lifecycle\<close> (loading and unloading), \<open>inv_system\<close> and \<open>bounded_system\<close> (step
    relations with an invariant, and with a measure that bounds every run), \<open>seq_system\<close> (one such system after another). \<open>Thread_Pool\<close>: threads as program counters
    over a shared state, with a locale for what every such system has (a \<open>bounded_system\<close>).
  \<^item> \<open>Sys_Prog\<close>: programs as trees of system calls; runs on arbitrary legal answers (\<open>exec\<close>, \<open>legal\<close>, with a weakest precondition
    calculus) and runs against a kernel given as a function (\<open>run_on\<close>); the accounting of descriptors (\<open>moves_fds\<close>); the
    locale \<open>fd_opener\<close>.
  \<^item> \<open>Process_Net\<close>: such programs as processes that run at the same time over one kernel in which calls may block. The locale
    \<open>confluent_pool\<close>: when the enabled steps of different processes commute, one run that ends speaks for every scheduler (\<open>settles\<close>); the
    locale \<open>process_net\<close> reduces that to single calls.

  \<^bold>\<open>The components.\<close>
  \<^item> \<open>Chardev\<close> (\<^verbatim>\<open>10_device_driver/chardev.c\<close>, the file operations): the device record, one definition per operation,
    \<^verbatim>\<open>copy_to_user\<close> and \<^verbatim>\<open>copy_from_user\<close> as parameters that may fail. Shown: the invariant, the behaviour of each
    operation on each branch, and that the device is a byte stream. \<open>Chardev_Conc\<close>: the handlers taken apart into statements and
    called by any number of processes at once; shown: the driver is linearizable, with the operations of \<open>Chardev\<close> as its
    specification. \<open>Chardev_Module\<close>: \<^verbatim>\<open>chardev_init\<close> with its error labels, \<^verbatim>\<open>chardev_exit\<close>.
    \<open>Device_Test\<close> (\<^verbatim>\<open>test/device_driver_test.c\<close>): the test program run against the driver's model.
  \<^item> \<open>Hello_Module\<close> (\<^verbatim>\<open>09_kernel_module/hello_module.c\<close>): the proc file, its table of operations over the kernel's seq_file
    functions as parameters, and the life cycle.
  \<^item> \<open>Ring_Queue\<close>, \<open>Cond_Queue\<close>, \<open>Sem_Queue\<close>, \<open>Mutex_Counter\<close>, \<open>Cond_Var2\<close>, \<open>Rwlock_Tls\<close> (\<^verbatim>\<open>02_threads/thread_demo.c\<close>): the ring buffer as a
    refinement of a queue; each demo as a step relation in which every statement on shared data is a step, with
    spurious wake-ups; safety by invariants, completion by bounded runs without deadlock. \<open>Thread_Main\<close>: \<^verbatim>\<open>main\<close>, which creates and joins the
    threads of each demo, with the exits of \<^verbatim>\<open>CHECK\<close>; shown: the whole program ends, and with which output of its main thread.
  \<^item> \<open>Shm_Handoff\<close> (\<^verbatim>\<open>03_ipc/shm_demo.c\<close>): two processes and two semaphores over a shared buffer, byte by byte. \<open>Shm_Main\<close>: \<^verbatim>\<open>main\<close> around
    it, the named objects and every error exit.
  \<^item> \<open>Mem_Tracker\<close>, \<open>Mem_Demos\<close> (\<^verbatim>\<open>05_memory/memory_demo.c\<close>): the allocation tracker over an explicit heap as a refinement of a
    list; mappings and alignment; \<^verbatim>\<open>main\<close>, and what it leaves allocated. \<open>Debug_Demo\<close> (\<^verbatim>\<open>13_debugging/debug_demo.c\<close>): the deliberate errors.
  \<^item> \<open>Tcp_Server\<close>, \<open>Tcp_Client\<close>, \<open>Udp_Echo\<close> (\<^verbatim>\<open>07_networking\<close>): programs over arbitrary answers. \<open>Tcp_Net\<close>: the TCP server and a client of it
    at the same time over one connection; shown: the conversation both print under every interleaving, and that it ends.
  \<^item> \<open>Fork_Demos\<close> (\<^verbatim>\<open>01_processes/process_demo.c\<close>): the locale \<open>forking\<close>, interpreted for every demo with a child that is waited for, also in
    \<open>Ipc_Demos\<close> (\<^verbatim>\<open>03_ipc/pipe_demo.c\<close>, \<^verbatim>\<open>mq_demo.c\<close>) and \<open>Udp_Echo\<close>. \<open>Net_Demos\<close> and \<open>Pipe_Net\<close>: parent and child of the message queue, UDP and
    anonymous pipe demos at the same time; shown: every run ends, with the same output.
  \<^item> \<open>Mains\<close>: the \<^verbatim>\<open>main\<close> functions that run several demos; the children they leave and the descriptors they close.
  \<^item> \<open>Signals\<close> and \<open>Fd_Demos\<close> (\<^verbatim>\<open>04_signals/signal_demo.c\<close>, \<^verbatim>\<open>15_gpio/gpio_demo.c\<close>, \<^verbatim>\<open>16_uart/uart_demo.c\<close>): dispositions, masks and pending
    signals; the demos whose point are descriptors.
  \<^item> \<open>File_Io\<close> (\<^verbatim>\<open>06_file_io/fileio_demo.c\<close>): runs against a small file system and against pipes with epoll.
  \<^item> \<open>Timers\<close> (\<^verbatim>\<open>08_timers/timer_demo.c\<close>): 64-bit time, and loops that count expirations in 32-bit integers.

  This theory holds what spans components: the descriptors of all demos that open some, and the children of all demos
  that fork.

  \<^bold>\<open>Bounds and fuel.\<close> Loops of the C code that are bounded by a constant are recursion over that constant or over a
  list. Loops that wait for the outside world take fuel, and \<open>More\<close> marks where it ends: safety theorems hold for
  every fuel, completion theorems say how much is enough (five rounds for the timer loops, three reads for
  draining a pipe). Thread programs need no fuel: their runs are bounded by a measure. Loops over the heap are partial
  functions into option, and the theorems show that they return.

  \<^bold>\<open>Not modelled.\<close> The kernel's and libraries' own code (parameters, answers, or the small kernels of \<open>File_Io\<close>, \<open>Ipc_Demos\<close>, \<open>Net_Demos\<close>,
  \<open>Pipe_Net\<close> and \<open>Tcp_Net\<close>, which state documented behaviour only); the text \<^verbatim>\<open>strerror\<close> gives for an error in the messages of \<^verbatim>\<open>perror\<close>; the lines the bugs of
  the debugging demo print, and its usage text; the order in which lines of different threads appear; the named pipe of two processes at the
  same time (opening it is a rendezvous); more than one client of the TCP server at the same time (the server alone is modelled for
  any answers, hence for any clients); the handler \<^verbatim>\<open>sigint_handler_3_arg\<close>, which is never installed; the program \<^verbatim>\<open>mq_send\<close>, which is not in the repository;
  the shell scripts and the notes.
\<close>

section \<open>Descriptors\<close>

text \<open>The demos that open descriptors, each with the fuel its loop takes.\<close>

definition fd_demos :: "nat \<Rightarrow> unit prog list" where
  "fd_demos fuel = [demo_uart_send_receive, demo_toggle_gpio, watchdog_demo, demo_select, demo_self_pipe, demo_pipe, demo_signalfd,
     demo_timerfd fuel, after (timer_main fuel) (Ret ()), after (gpio_main fuel) (Ret ()), after uart_main (Ret ())]"

lemma fd_demos_moves: "p \<in> set (fd_demos fuel) \<Longrightarrow> moves_fds F F p"
  unfolding fd_demos_def
  by (auto intro: uart_balanced toggle_balanced watchdog_balanced select_balanced self_pipe_balanced pipe_balanced signalfd_balanced
    timerfd_balanced moves_bind [OF timer_main_moves moves_Ret] moves_bind [OF gpio_main_moves moves_Ret] moves_bind [OF uart_main_moves moves_Ret])



section \<open>Children\<close>

text \<open>
  C29. The process, pipe and message queue demos that wait for their child, from \<^verbatim>\<open>fork\<close> on, for every legal run in which waiting
  succeeds, started without children: the process that \<^verbatim>\<open>fork\<close> answers 0 never returns to the caller; in the parent the
  child has been reaped when the demo returns; a failing \<^verbatim>\<open>fork\<close> leaves no child.
\<close>

theorem forking_demos_reap:
  assumes "p \<in> {fork_wait_part, exec_part, vfork_part fd, anon_part fuel rd wr, fifo_part, mq_basic_part mq, mq_multi_part}"
    and "w_kids w = {}" and "legal p (a # as) w" and "answering waits_ok p (a # as)" and "exec p (a # as) w = (r, w')"
  shows "if a_ret a < 0 then childless r w' else if a_ret a = 0 then no_return r else reaped (a_ret a) r w'"
proof -
  note contract = fw.fork_run [folded fork_wait_part_def] ex.fork_run [folded exec_part_def] vf.fork_run [folded vfork_part_def]
    anon.fork_run [folded anon_part_def] fifo.fork_run [folded fifo_part_def] mqb.fork_run [folded mq_basic_part_def]
    mqm.fork_run [folded mq_multi_part_def]
  from assms(1) consider "p = fork_wait_part" | "p = exec_part" | "p = vfork_part fd" | "p = anon_part fuel rd wr" | "p = fifo_part"
    | "p = mq_basic_part mq" | "p = mq_multi_part" by blast
  then show ?thesis using assms(2-5) by cases (blast intro: contract)+
qed

theorem forking_demos_reap_witness:
  "\<exists>w'. exec fork_wait_part (map ans_pid [77, 0, 0, 77, 0]) world0 = (Done (), w') \<and> w_kids w' = {}"
proof -
  let ?as = "map ans_pid [0, 0, 77, 0]"
  note defs = fork_wait_part_def fork_demo_def fork_wait_parent_def ans_pid_def
  have "fst (exec fork_wait_part (ans_pid 77 # ?as) world0) = Done ()" by (simp add: defs)
  then obtain w' where run: "exec fork_wait_part (ans_pid 77 # ?as) world0 = (Done (), w')" by (metis prod.collapse)
  have "w_kids world0 = {}" "legal fork_wait_part (ans_pid 77 # ?as) world0" "answering waits_ok fork_wait_part (ans_pid 77 # ?as)"
    by (simp_all add: defs k_defs world0_def)
  from forking_demos_reap [OF _ this run] run show ?thesis by (simp add: ans_pid_def)
qed

end
